(* ===== verification/Prelude.thy ===== *)
theory Prelude
  imports Main "HOL-Library.Word" "HOL-Library.Char_ord" "HOL-Library.List_Lexorder"
begin

text \<open>
  Shared vocabulary of the development: the machine integers of the Rust sources, a panic as a
  value, checked and saturating arithmetic, the ordered map \<^verbatim>\<open>BTreeMap\<close> as a sorted association
  list, and the generic facts on words, lists and options that the component theories use.
\<close>

unbundle bit_operations_syntax

section \<open>Types\<close>

type_synonym u8 = "8 word"
type_synonym u32 = "32 word"
type_synonym u64 = "64 word"
type_synonym bytes = "8 word list"

text \<open>
  A Rust \<^verbatim>\<open>panic!\<close>, failed \<^verbatim>\<open>assert!\<close> or failed \<^verbatim>\<open>expect\<close> is the left value of a sum; its
  string tells which one.
\<close>

datatype panic = Panic string

type_synonym 'a outcome = "panic + 'a"

text \<open>
  A call that may also not return: the outer option.  Sequencing of such calls stops at a panic and
  at a call that does not return.
\<close>

definition obind :: "'a outcome option \<Rightarrow> ('a \<Rightarrow> 'b outcome option) \<Rightarrow> 'b outcome option" where
  "obind m f = (case m of None \<Rightarrow> None | Some (Inl p) \<Rightarrow> Some (Inl p) | Some (Inr x) \<Rightarrow> f x)"

lemma obind_simps [simp]:
  "obind None f = None" "obind (Some (Inl p)) f = Some (Inl p)" "obind (Some (Inr x)) f = f x"
  by (simp_all add: obind_def)

lemma obind_Inr: "obind m f = Some (Inr y) \<longleftrightarrow> (\<exists>x. m = Some (Inr x) \<and> f x = Some (Inr y))"
  by (auto simp: obind_def split: option.splits sum.splits)

named_theorems inv_defs \<open>definitions of the component invariants\<close>

text \<open>What holds of the result of a call whenever it returns normally.\<close>

definition returns :: "'a outcome option \<Rightarrow> ('a \<Rightarrow> bool) \<Rightarrow> bool" where
  "returns m Q = (\<forall>x. m = Some (Inr x) \<longrightarrow> Q x)"

lemma returns_simps [simp]:
  "returns (Some (Inr x)) Q = Q x" "returns (Some (Inl p)) Q" "returns None Q"
  by (auto simp: returns_def)

lemma returns_bind: "\<lbrakk>returns m P; \<And>x. P x \<Longrightarrow> returns (f x) Q\<rbrakk> \<Longrightarrow> returns (obind m f) Q"
  by (auto simp: returns_def obind_Inr)

lemma returns_bind_any: "(\<And>x. returns (f x) Q) \<Longrightarrow> returns (obind m f) Q"
  by (auto simp: returns_def obind_Inr)

lemma returnsD: "\<lbrakk>returns m Q; m = Some (Inr x)\<rbrakk> \<Longrightarrow> Q x"
  by (simp add: returns_def)

lemma returns_mono: "\<lbrakk>returns m Q; \<And>x. Q x \<Longrightarrow> Q' x\<rbrakk> \<Longrightarrow> returns m Q'"
  by (simp add: returns_def)

text \<open>The same of a call that is known to return, or to panic in one of the given ways.\<close>

definition settles :: "panic set \<Rightarrow> 'a outcome option \<Rightarrow> ('a \<Rightarrow> bool) \<Rightarrow> bool" where
  "settles E m Q = (case m of None \<Rightarrow> False | Some (Inl p) \<Rightarrow> p \<in> E | Some (Inr x) \<Rightarrow> Q x)"

lemma settles_simps [simp]:
  "settles E (Some (Inr x)) Q = Q x" "settles E (Some (Inl p)) Q \<longleftrightarrow> p \<in> E" "\<not> settles E None Q"
  by (simp_all add: settles_def)

lemma settles_bind: "\<lbrakk>settles E m P; \<And>x. P x \<Longrightarrow> settles E (f x) Q\<rbrakk> \<Longrightarrow> settles E (obind m f) Q"
  by (auto simp: settles_def [of E m] obind_def split: option.splits sum.splits)

lemma settles_mono: "\<lbrakk>settles E m Q; \<And>x. Q x \<Longrightarrow> Q' x\<rbrakk> \<Longrightarrow> settles E m Q'"
  by (auto simp: settles_def split: option.splits sum.splits)

lemma settles_conj: "\<lbrakk>settles E m P; returns m Q\<rbrakk> \<Longrightarrow> settles E m (\<lambda>x. P x \<and> Q x)"
  by (auto simp: settles_def returns_def split: option.splits sum.splits)

lemma returns_conj: "returns m (\<lambda>x. P x \<and> Q x) \<longleftrightarrow> returns m P \<and> returns m Q"
  by (auto simp: returns_def)

section \<open>Arithmetic of the standard library\<close>

definition checked_add :: "'a::len word \<Rightarrow> 'a word \<Rightarrow> 'a word option" where
  "checked_add a b = (if a + b < a then None else Some (a + b))"

definition saturating_add :: "'a::len word \<Rightarrow> 'a word \<Rightarrow> 'a word" where
  "saturating_add a b = (case checked_add a b of Some c \<Rightarrow> c | None \<Rightarrow> - 1)"

definition saturating_sub :: "'a::len word \<Rightarrow> 'a word \<Rightarrow> 'a word" where
  "saturating_sub a b = (if b \<le> a then a - b else 0)"

section \<open>Ordered maps\<close>

type_synonym ('k, 'v) btree = "('k \<times> 'v) list"

definition bt_wf :: "('k::linorder, 'v) btree \<Rightarrow> bool" where
  "bt_wf m = sorted_wrt (<) (map fst m)"

fun bt_insert :: "'k::linorder \<Rightarrow> 'v \<Rightarrow> ('k, 'v) btree \<Rightarrow> ('k, 'v) btree" where
  "bt_insert k v [] = [(k, v)]"
| "bt_insert k v ((k', v') # m) =
     (if k < k' then (k, v) # (k', v') # m
      else if k = k' then (k, v) # m
      else (k', v') # bt_insert k v m)"

definition bt_get :: "('k::linorder, 'v) btree \<Rightarrow> 'k \<Rightarrow> 'v option" where
  "bt_get m k = map_of m k"

definition bt_retain :: "('k::linorder \<Rightarrow> 'v \<Rightarrow> bool) \<Rightarrow> ('k, 'v) btree \<Rightarrow> ('k, 'v) btree" where
  "bt_retain P m = filter (\<lambda>(k, v). P k v) m"

definition bt_remove :: "'k::linorder \<Rightarrow> ('k, 'v) btree \<Rightarrow> ('k, 'v) btree" where
  "bt_remove k m = filter (\<lambda>(k', v). k' \<noteq> k) m"

section \<open>Facts on words\<close>

lemma word_add_wraps: "a + b < a \<longleftrightarrow> 2 ^ LENGTH('a) \<le> unat a + unat b"
  for a b :: "'a::len word"
proof -
  have "unat b < 2 ^ LENGTH('a)" by (rule unsigned_less)
  then have "(if x + unat b < 2 ^ LENGTH('a) then x + unat b else x + unat b - 2 ^ LENGTH('a)) < x
      \<longleftrightarrow> 2 ^ LENGTH('a) \<le> x + unat b" for x
    by (auto simp del: unsigned_less)
  then show ?thesis by (simp only: word_less_nat_alt unat_plus_if')
qed

lemma checked_add_Some:
  "checked_add a b = Some c \<longleftrightarrow> unat a + unat b < 2 ^ LENGTH('a) \<and> c = a + b"
  for a b c :: "'a::len word"
  by (auto simp: checked_add_def word_add_wraps)

lemma checked_add_None:
  "checked_add a b = None \<longleftrightarrow> 2 ^ LENGTH('a) \<le> unat a + unat b"
  for a b :: "'a::len word"
  by (auto simp: checked_add_def word_add_wraps)

lemma unat_add_no_wrap:
  "unat a + unat b < 2 ^ LENGTH('a) \<Longrightarrow> unat (a + b) = unat a + unat b"
  for a b :: "'a::len word"
  by (simp add: unat_plus_if' )

lemma unat_of_nat_less:
  "n < 2 ^ LENGTH('a) \<Longrightarrow> unat (of_nat n :: 'a::len word) = n"
  by (simp add: unat_of_nat take_bit_nat_eq_self)

lemma unat_and_mask:
  "k < LENGTH('a) \<Longrightarrow> unat (w AND (of_nat (2 ^ k) - 1)) = unat w mod 2 ^ k"
  for w :: "'a::len word"
proof -
  have "(of_nat (2 ^ k) - 1 :: 'a word) = mask k"
    by (simp add: mask_eq_exp_minus_1)
  then have "w AND (of_nat (2 ^ k) - 1) = take_bit k w"
    by (simp add: take_bit_eq_mask)
  then show ?thesis
    by (simp add: unsigned_take_bit_eq) (simp add: take_bit_eq_mod)
qed

lemma unat_less_u64 [simp]: "unat (w :: u64) < 18446744073709551616"
  using unsigned_less [where 'a=nat and w=w] by simp

lemma unat_less_u32 [simp]: "unat (w :: u32) < 4294967296"
  using unsigned_less [where 'a=nat and w=w] by simp

lemma unat_less_u8 [simp]: "unat (w :: u8) < 256"
  using unsigned_less [where 'a=nat and w=w] by simp

lemma unat_max_u64 [simp]: "unat (- 1 :: u64) = 18446744073709551615"
  by (simp add: unsigned_minus_1_eq_mask mask_eq_exp_minus_1)

lemma unat_max_u32 [simp]: "unat (- 1 :: u32) = 4294967295"
  by (simp add: unsigned_minus_1_eq_mask mask_eq_exp_minus_1)

lemma unat_eq_iff: "unat a = unat b \<longleftrightarrow> a = b"
  by (simp add: word_eq_iff_unsigned [where 'a = nat])

lemma unat_succ: "w \<noteq> - 1 \<Longrightarrow> unat (w + 1) = Suc (unat w)" for w :: u64
proof -
  assume "w \<noteq> - 1"
  then have "unat w \<noteq> 18446744073709551615" using unat_eq_iff [of w "- 1"] by simp
  then show ?thesis
    using unat_less_u64 [of w] by (subst unat_add_no_wrap) (simp_all del: unat_less_u64)
qed

lemma unat_div_numeral: "unat (w div numeral n) = unat w div numeral n"
  if "numeral n < (2 :: nat) ^ LENGTH('a)" for w :: "'a::len word"
  using that by (simp add: unat_div_distrib unat_of_nat_less [of "numeral n", where 'a = 'a, simplified])

lemma unat_mod_numeral: "unat (w mod numeral n) = unat w mod numeral n"
  if "numeral n < (2 :: nat) ^ LENGTH('a)" for w :: "'a::len word"
  using that by (simp add: unat_mod_distrib unat_of_nat_less [of "numeral n", where 'a = 'a, simplified])

section \<open>Facts on ordered maps\<close>

lemma bt_get_insert [simp]: "bt_get (bt_insert k v m) = (bt_get m)(k \<mapsto> v)"
  by (induction m) (auto simp: bt_get_def fun_eq_iff)

lemma bt_insert_keys: "set (map fst (bt_insert k v m)) = insert k (set (map fst m))"
proof (induction m)
  case (Cons e m)
  then show ?case by (cases e) auto
qed simp

lemma bt_wf_Nil [simp]: "bt_wf []"
  by (simp add: bt_wf_def)

lemma bt_wf_insert [simp]: "bt_wf m \<Longrightarrow> bt_wf (bt_insert k v m)"
proof (induction m)
  case (Cons e m)
  then show ?case
    using bt_insert_keys [of k v m] by (cases e) (auto simp: bt_wf_def)
qed (simp add: bt_wf_def)

lemma bt_wf_filter [simp]: "bt_wf m \<Longrightarrow> bt_wf (filter P m)"
  by (induction m) (auto simp: bt_wf_def)

lemma bt_wf_retain [simp]: "bt_wf m \<Longrightarrow> bt_wf (bt_retain P m)"
  by (simp add: bt_retain_def)

lemma bt_wf_remove [simp]: "bt_wf m \<Longrightarrow> bt_wf (bt_remove k m)"
  by (simp add: bt_remove_def)

lemma bt_get_Nil [simp]: "bt_get [] k = None"
  by (simp add: bt_get_def)

lemma bt_get_remove [simp]: "bt_get (bt_remove k m) = (bt_get m)(k := None)"
  by (induction m) (auto simp: bt_get_def bt_remove_def fun_eq_iff)

lemma bt_wf_distinct: "bt_wf m \<Longrightarrow> distinct (map fst m)"
  by (auto simp: bt_wf_def strict_sorted_iff)

lemma bt_get_iff: "bt_wf m \<Longrightarrow> bt_get m k = Some v \<longleftrightarrow> (k, v) \<in> set m"
  by (simp add: bt_get_def bt_wf_distinct)

lemma bt_get_retain:
  assumes "bt_wf m"
  shows "bt_get (bt_retain P m) k = (case bt_get m k of Some v \<Rightarrow> if P k v then Some v else None | None \<Rightarrow> None)"
proof (cases "bt_get (bt_retain P m) k")
  case None
  then show ?thesis
    using assms bt_get_iff [of m k] bt_get_iff [of "bt_retain P m" k]
    by (force simp: bt_retain_def split: option.splits)
next
  case (Some v)
  then show ?thesis
    using assms bt_get_iff [of m k v] bt_get_iff [of "bt_retain P m" k v]
    by (auto simp: bt_retain_def split: option.splits)
qed

section \<open>Facts on lists\<close>

lemma set_nth_iff: "x \<in> set xs \<longleftrightarrow> (\<exists>i < length xs. xs ! i = x)"
  by (auto simp: in_set_conv_nth)

lemma length_filter_update:
  "i < length xs \<Longrightarrow>
   length (filter P (xs[i := x])) + (if P (xs ! i) then 1 else 0) =
   length (filter P xs) + (if P x then 1 else 0)"
proof (induction xs arbitrary: i)
  case (Cons a xs)
  then show ?case by (cases i) auto
qed simp

lemma residue_hit:
  fixes a i m :: nat
  assumes "i < m"
  shows "\<exists>j < m. (a + j) mod m = i"
proof -
  have "(a + (i + (m - a mod m)) mod m) mod m = (a mod m + (m - a mod m) + i) mod m"
    by (metis add.assoc add.commute mod_add_left_eq mod_add_right_eq)
  also have "\<dots> = i" using assms by simp
  finally show ?thesis using assms by (intro exI [of _ "(i + (m - a mod m)) mod m"]) auto
qed

end
