(* ===== verification/Tables.thy ===== *)
theory Tables
  imports Prelude
begin

text \<open>
  The contract of an identifier table: the runtime keeps services, pending calls, tasks and sockets
  in tables that issue an identifier on insertion and look it up later.  The first locale says that
  such a table is a finite map whose insertions choose a key that is not in use; the second adds a
  counter that the issued keys follow, which gives that a stale identifier is never answered again.
  The theories of the tables interpret them on their own operations.
\<close>

section \<open>Traces of table operations\<close>

datatype ('a, 'k) table_op = Ins 'a | Del 'k

text \<open>The identifiers issued along a trace, and the final state; \<^verbatim>\<open>None\<close> when an insertion fails.\<close>

fun exec_ops ::
  "('a \<Rightarrow> 's \<Rightarrow> ('k \<times> 's) option) \<Rightarrow> ('k \<Rightarrow> 's \<Rightarrow> 's) \<Rightarrow> ('a, 'k) table_op list \<Rightarrow> 's \<Rightarrow>
   ('k list \<times> 's) option" where
  "exec_ops ins del [] s = Some ([], s)"
| "exec_ops ins del (Ins a # ops) s =
     (case ins a s of
        None \<Rightarrow> None
      | Some (k, s') \<Rightarrow> map_option (\<lambda>(ks, t). (k # ks, t)) (exec_ops ins del ops s'))"
| "exec_ops ins del (Del k # ops) s = exec_ops ins del ops (del k s)"

text \<open>The abstract table: a map, with the keys an execution issues given as an oracle.\<close>

fun spec_ops :: "('k \<Rightarrow> 'a \<Rightarrow> 'v) \<Rightarrow> ('a, 'k) table_op list \<Rightarrow> 'k list \<Rightarrow> ('k \<Rightarrow> 'v option) \<Rightarrow> ('k \<Rightarrow> 'v option)" where
  "spec_ops val (Ins a # ops) (k # ks) m = spec_ops val ops ks (m(k \<mapsto> val k a))"
| "spec_ops val (Del k # ops) ks m = spec_ops val ops ks (m(k := None))"
| "spec_ops val _ _ m = m"

fun op_ok :: "('a \<Rightarrow> bool) \<Rightarrow> ('a, 'k) table_op \<Rightarrow> bool" where
  "op_ok P (Ins a) = P a"
| "op_ok P (Del k) = True"

section \<open>The contracts\<close>

locale id_table =
  fixes inv :: "'s \<Rightarrow> bool"
    and lookup :: "'s \<Rightarrow> 'k \<Rightarrow> 'v option"
    and ok :: "'a \<Rightarrow> bool"
    and val :: "'k \<Rightarrow> 'a \<Rightarrow> 'v"
    and ins :: "'a \<Rightarrow> 's \<Rightarrow> ('k \<times> 's) option"
    and del :: "'k \<Rightarrow> 's \<Rightarrow> 's"
  assumes ins_inv: "\<lbrakk>inv s; ok a; ins a s = Some (k, s')\<rbrakk> \<Longrightarrow> inv s'"
    and ins_fresh: "\<lbrakk>inv s; ok a; ins a s = Some (k, s')\<rbrakk> \<Longrightarrow> lookup s k = None"
    and ins_lookup: "\<lbrakk>inv s; ok a; ins a s = Some (k, s')\<rbrakk> \<Longrightarrow> lookup s' = (lookup s)(k \<mapsto> val k a)"
    and del_inv: "inv s \<Longrightarrow> inv (del k s)"
    and del_lookup: "inv s \<Longrightarrow> lookup (del k s) = (lookup s)(k := None)"
begin

lemma exec_inv:
  "\<lbrakk>inv s; list_all (op_ok ok) ops; exec_ops ins del ops s = Some (ks, t)\<rbrakk> \<Longrightarrow> inv t"
proof (induction ops arbitrary: s ks)
  case (Cons op ops)
  show ?case
  proof (cases op)
    case (Ins a)
    then show ?thesis
      using Cons by (fastforce split: option.splits dest: ins_inv)
  next
    case (Del k)
    then show ?thesis
      using Cons.IH [of "del k s" ks] Cons.prems by (simp add: del_inv)
  qed
qed simp

lemma exec_refines:
  "\<lbrakk>inv s; list_all (op_ok ok) ops; exec_ops ins del ops s = Some (ks, t)\<rbrakk>
   \<Longrightarrow> lookup t = spec_ops val ops ks (lookup s)"
proof (induction ops arbitrary: s ks)
  case (Cons op ops)
  show ?case
  proof (cases op)
    case (Ins a)
    then obtain k s' ks' where step: "ins a s = Some (k, s')" "ks = k # ks'"
      "exec_ops ins del ops s' = Some (ks', t)"
      using Cons.prems(3) by (auto split: option.splits)
    have "inv s'" "lookup s' = (lookup s)(k \<mapsto> val k a)"
      using Cons.prems Ins step by (auto intro: ins_inv ins_lookup)
    then show ?thesis
      using Cons.IH [of s' ks'] Cons.prems Ins step by (simp add: fun_upd_def)
  next
    case (Del k)
    then show ?thesis
      using Cons.IH [of "del k s" ks] Cons.prems by (simp add: del_inv del_lookup fun_upd_def)
  qed
qed simp

end

locale mono_id_table = id_table inv lookup ok val ins del
  for inv :: "'s \<Rightarrow> bool"
    and lookup :: "'s \<Rightarrow> 'k \<Rightarrow> 'v option"
    and ok :: "'a \<Rightarrow> bool"
    and val :: "'k \<Rightarrow> 'a \<Rightarrow> 'v"
    and ins :: "'a \<Rightarrow> 's \<Rightarrow> ('k \<times> 's) option"
    and del :: "'k \<Rightarrow> 's \<Rightarrow> 's" +
  fixes rank :: "'s \<Rightarrow> nat" and key :: "'k \<Rightarrow> nat"
  assumes ins_rank: "\<lbrakk>inv s; ok a; ins a s = Some (k, s')\<rbrakk> \<Longrightarrow> rank s \<le> key k \<and> key k < rank s'"
    and del_rank: "inv s \<Longrightarrow> rank s \<le> rank (del k s)"
begin

lemma stale_step_ins:
  "\<lbrakk>inv s; ok a; ins a s = Some (k', s'); key k < rank s; lookup s k = None\<rbrakk>
   \<Longrightarrow> key k < rank s' \<and> lookup s' k = None"
  using ins_rank [of s a k' s'] ins_lookup [of s a k' s'] by auto

lemma stale_forever:
  "\<lbrakk>inv s; list_all (op_ok ok) ops; exec_ops ins del ops s = Some (ks, t);
    key k < rank s; lookup s k = None\<rbrakk>
   \<Longrightarrow> lookup t k = None"
proof (induction ops arbitrary: s ks)
  case (Cons op ops)
  show ?case
  proof (cases op)
    case (Ins a)
    then obtain k' s' ks' where step: "ins a s = Some (k', s')"
      "exec_ops ins del ops s' = Some (ks', t)"
      using Cons.prems(3) by (auto split: option.splits)
    then show ?thesis
      using Cons.IH [of s' ks'] Cons.prems Ins stale_step_ins [of s a k' s' k]
        ins_inv [of s a k' s'] by simp
  next
    case (Del k')
    then show ?thesis
      using Cons.IH [of "del k' s" ks] Cons.prems del_rank [of s k']
      by (simp add: del_inv del_lookup)
  qed
qed simp

lemma issued_increasing:
  "\<lbrakk>inv s; list_all (op_ok ok) ops; exec_ops ins del ops s = Some (ks, t)\<rbrakk>
   \<Longrightarrow> sorted_wrt (<) (map key ks) \<and> (\<forall>k \<in> set ks. rank s \<le> key k \<and> key k < rank t) \<and> rank s \<le> rank t"
proof (induction ops arbitrary: s ks)
  case (Cons op ops)
  show ?case
  proof (cases op)
    case (Ins a)
    then obtain k' s' ks' where step: "ins a s = Some (k', s')" "ks = k' # ks'"
      "exec_ops ins del ops s' = Some (ks', t)"
      using Cons.prems(3) by (auto split: option.splits)
    then show ?thesis
      using Cons.IH [of s' ks'] Cons.prems Ins ins_rank [of s a k' s']
        ins_inv [of s a k' s'] by fastforce
  next
    case (Del k')
    then show ?thesis
      using Cons.IH [of "del k' s" ks] Cons.prems del_rank [of s k'] del_inv [of s k']
      by fastforce
  qed
qed simp

end

end
