(* ===== verification/Handle.thy ===== *)
theory Handle
  imports Tables
begin

text \<open>
  The handle registry and the local name table of a node (\<^verbatim>\<open>rskynet-core/src/handle.rs\<close>).
  A handle is a monotone 64-bit number that is never reused; the physical slots are an array whose
  length is a power of two, addressed by the low bits of the handle, and doubled when a whole round
  of handles finds no free slot.  The lemmas show that this array with its rehashing implements a
  finite map from handles to contexts, that a handle is issued at most once, and that names only
  ever point to live services.
\<close>

section \<open>State\<close>

text \<open>
  The registry stores shared references to service contexts; the only field it reads is the handle,
  so contexts are any extension of this record.
\<close>

record svc_ref =
  ctx_handle :: u64

type_synonym 'c slots = "'c svc_ref_scheme option list"

record 'c handle_storage =
  hs_slots :: "'c slots"
  hs_names :: "(string, u64) btree"
  hs_next :: u64

definition DEFAULT_SLOT_SIZE :: nat where
  "DEFAULT_SLOT_SIZE = 4"

definition empty_slots :: "nat \<Rightarrow> 'c slots" where
  "empty_slots n = replicate n None"

definition new_storage :: "'c handle_storage" where
  "new_storage = \<lparr>hs_slots = empty_slots DEFAULT_SLOT_SIZE, hs_names = [], hs_next = 1\<rparr>"

section \<open>Operations\<close>

definition slot_of :: "u64 \<Rightarrow> nat \<Rightarrow> nat" where
  "slot_of handle len = unat (handle AND (of_nat len - 1))"

text \<open>One round of the \<^verbatim>\<open>for\<close> loop of \<^verbatim>\<open>register_with\<close>: the free handle and its successor.\<close>

fun scan_free :: "'c slots \<Rightarrow> u64 \<Rightarrow> nat \<Rightarrow> (u64 \<times> u64) option outcome" where
  "scan_free ss handle 0 = Inr None"
| "scan_free ss handle (Suc n) =
     (case checked_add handle 1 of
        None \<Rightarrow> Inl (Panic ''handle space exhausted'')
      | Some next_handle \<Rightarrow>
          if ss ! slot_of handle (length ss) = None then Inr (Some (handle, next_handle))
          else scan_free ss next_handle n)"

definition contexts :: "'c handle_storage \<Rightarrow> 'c svc_ref_scheme list" where
  "contexts s = List.map_filter id (hs_slots s)"

definition grow :: "'c handle_storage \<Rightarrow> 'c handle_storage outcome" where
  "grow s =
     (let new_size = length (hs_slots s) * 2 in
      if new_size \<le> 4294967295 then
        Inr (s\<lparr>hs_slots := foldl (\<lambda>ns ctx. ns[slot_of (ctx_handle ctx) new_size := Some ctx])
                          (empty_slots new_size) (contexts s)\<rparr>)
      else Inl (Panic ''slot array limit''))"

partial_function (option) register_with ::
  "(u64 \<Rightarrow> 'c svc_ref_scheme) \<Rightarrow> 'c handle_storage \<Rightarrow>
   ('c svc_ref_scheme \<times> 'c handle_storage) outcome option" where
  "register_with mk s =
     (case scan_free (hs_slots s) (hs_next s) (length (hs_slots s)) of
        Inl p \<Rightarrow> Some (Inl p)
      | Inr (Some (handle, next_handle)) \<Rightarrow>
          (let ctx = mk handle in
           Some (Inr (ctx, s\<lparr>hs_slots := (hs_slots s)[slot_of handle (length (hs_slots s)) := Some ctx],
                            hs_next := next_handle\<rparr>)))
      | Inr None \<Rightarrow>
          (case grow s of Inl p \<Rightarrow> Some (Inl p) | Inr s' \<Rightarrow> register_with mk s'))"

definition grab :: "'c handle_storage \<Rightarrow> u64 \<Rightarrow> 'c svc_ref_scheme option" where
  "grab s handle =
     (case hs_slots s ! slot_of handle (length (hs_slots s)) of
        Some ctx \<Rightarrow> if ctx_handle ctx = handle then Some ctx else None
      | None \<Rightarrow> None)"

definition retire ::
  "u64 \<Rightarrow> 'c handle_storage \<Rightarrow> 'c svc_ref_scheme option \<times> 'c handle_storage" where
  "retire handle s =
     (let hash = slot_of handle (length (hs_slots s)) in
      case hs_slots s ! hash of
        None \<Rightarrow> (None, s)
      | Some ctx \<Rightarrow>
          if ctx_handle ctx \<noteq> handle then (None, s)
          else (Some ctx,
            s\<lparr>hs_slots := (hs_slots s)[hash := None],
              hs_names := (if \<exists>owner \<in> set (map snd (hs_names s)). owner = handle
                        then bt_retain (\<lambda>_ owner. owner \<noteq> handle) (hs_names s) else hs_names s)\<rparr>))"

definition handles :: "'c handle_storage \<Rightarrow> u64 list" where
  "handles s = map ctx_handle (contexts s)"

definition entry_push :: "u64 \<Rightarrow> string \<Rightarrow> (u64, string list) btree \<Rightarrow> (u64, string list) btree" where
  "entry_push h n g = bt_insert h ((case bt_get g h of Some ns \<Rightarrow> ns | None \<Rightarrow> []) @ [n]) g"

definition snapshot ::
  "'c handle_storage \<Rightarrow> 'c svc_ref_scheme list \<times> (u64, string list) btree" where
  "snapshot s = (contexts s, foldl (\<lambda>g (n, h). entry_push h n g) [] (hs_names s))"

definition find_name :: "'c handle_storage \<Rightarrow> string \<Rightarrow> u64 option" where
  "find_name s n = bt_get (hs_names s) n"

definition register_name :: "u64 \<Rightarrow> string \<Rightarrow> 'c handle_storage \<Rightarrow> bool \<times> 'c handle_storage" where
  "register_name handle n s =
     (case hs_slots s ! slot_of handle (length (hs_slots s)) of
        None \<Rightarrow> (False, s)
      | Some ctx \<Rightarrow>
          if ctx_handle ctx \<noteq> handle then (False, s)
          else if bt_get (hs_names s) n \<noteq> None then (False, s)
          else (True, s\<lparr>hs_names := bt_insert n handle (hs_names s)\<rparr>))"

section \<open>Invariant\<close>

definition slots_ok :: "'c slots \<Rightarrow> u64 \<Rightarrow> bool" where
  "slots_ok ss nx =
     ((\<exists>k \<in> {2..31}. length ss = 2 ^ k) \<and>
      (\<forall>i < length ss. \<forall>c. ss ! i = Some c \<longrightarrow> slot_of (ctx_handle c) (length ss) = i \<and> ctx_handle c < nx))"

definition storage_inv :: "'c handle_storage \<Rightarrow> bool" where [inv_defs]:
  "storage_inv s =
     (slots_ok (hs_slots s) (hs_next s) \<and> 0 < hs_next s \<and> bt_wf (hs_names s) \<and>
      (\<forall>(n, h) \<in> set (hs_names s). grab s h \<noteq> None))"

text \<open>Registration and removal as the operations of an identifier table.\<close>

definition reg_ins ::
  "(u64 \<Rightarrow> 'c svc_ref_scheme) \<Rightarrow> 'c handle_storage \<Rightarrow> (u64 \<times> 'c handle_storage) option" where
  "reg_ins mk s =
     (case register_with mk s of Some (Inr (c, s')) \<Rightarrow> Some (ctx_handle c, s') | _ \<Rightarrow> None)"

definition reg_del :: "u64 \<Rightarrow> 'c handle_storage \<Rightarrow> 'c handle_storage" where
  "reg_del h s = snd (retire h s)"

definition mk_ok :: "(u64 \<Rightarrow> 'c svc_ref_scheme) \<Rightarrow> bool" where
  "mk_ok mk = (\<forall>h. ctx_handle (mk h) = h)"

section \<open>Addressing\<close>

lemma slot_of_mod: "k < 64 \<Longrightarrow> slot_of h (2 ^ k) = unat h mod 2 ^ k"
  using unat_and_mask [of k h] by (simp add: slot_of_def)

lemma slots_okE:
  assumes "slots_ok ss nx"
  obtains k where "2 \<le> k" "k \<le> 31" "length ss = 2 ^ k"
  using assms by (auto simp: slots_ok_def)

lemma slot_of_less:
  assumes "slots_ok ss nx"
  shows "slot_of h (length ss) < length ss"
  using assms by (auto elim!: slots_okE simp: slot_of_mod)

lemma slots_ok_hit:
  "\<lbrakk>slots_ok ss nx; i < length ss; ss ! i = Some c\<rbrakk>
   \<Longrightarrow> slot_of (ctx_handle c) (length ss) = i \<and> ctx_handle c < nx"
  by (simp add: slots_ok_def)

lemma slot_of_half:
  "k < 63 \<Longrightarrow> slot_of h (2 ^ k * 2) mod 2 ^ k = slot_of h (2 ^ k)"
  using slot_of_mod [of k h] slot_of_mod [of "Suc k" h]
  by (simp add: mult.commute mod_mod_cancel)

lemma storage_slots_ok: "storage_inv s \<Longrightarrow> slots_ok (hs_slots s) (hs_next s)"
  by (simp add: storage_inv_def)

lemma set_contexts: "set (contexts s) = {c. Some c \<in> set (hs_slots s)}"
  by (force simp: contexts_def List.map_filter_def)

lemma grab_iff:
  assumes "slots_ok (hs_slots s) nx"
  shows "grab s h = Some c \<longleftrightarrow> c \<in> set (contexts s) \<and> ctx_handle c = h"
proof
  assume "grab s h = Some c"
  then have "hs_slots s ! slot_of h (length (hs_slots s)) = Some c" "ctx_handle c = h"
    by (auto simp: grab_def split: option.splits if_splits)
  then show "c \<in> set (contexts s) \<and> ctx_handle c = h"
    using slot_of_less [OF assms, of h] by (metis mem_Collect_eq nth_mem set_contexts)
next
  assume "c \<in> set (contexts s) \<and> ctx_handle c = h"
  then show "grab s h = Some c"
    using slots_ok_hit [OF assms] by (auto simp: grab_def set_contexts in_set_conv_nth)
qed

lemma contexts_by_slot:
  "contexts s = map (\<lambda>i. the (hs_slots s ! i)) (filter (\<lambda>i. hs_slots s ! i \<noteq> None) [0..<length (hs_slots s)])"
proof -
  have "contexts s = List.map_filter id (map (\<lambda>i. hs_slots s ! i) [0..<length (hs_slots s)])"
    by (simp add: contexts_def map_nth)
  then show ?thesis
    by (simp add: List.map_filter_def filter_map o_def)
qed

lemma distinct_hashes:
  assumes "slots_ok (hs_slots s) nx"
  shows "distinct (map (\<lambda>c. slot_of (ctx_handle c) (length (hs_slots s))) (contexts s))"
proof -
  have "map (\<lambda>c. slot_of (ctx_handle c) (length (hs_slots s))) (contexts s)
        = filter (\<lambda>i. hs_slots s ! i \<noteq> None) [0..<length (hs_slots s)]"
    unfolding contexts_by_slot map_map using slots_ok_hit [OF assms] by (intro map_idI) auto
  then show ?thesis by simp
qed

section \<open>Growing keeps every service\<close>

lemma foldl_place:
  assumes "distinct (map f cs)" "\<forall>c \<in> set cs. f c < length ns"
  shows "length (foldl (\<lambda>ns c. ns[f c := Some c]) ns cs) = length ns"
    and "\<forall>c \<in> set cs. foldl (\<lambda>ns c. ns[f c := Some c]) ns cs ! f c = Some c"
    and "\<forall>i. i \<notin> f ` set cs \<longrightarrow> foldl (\<lambda>ns c. ns[f c := Some c]) ns cs ! i = ns ! i"
  using assms by (induction cs arbitrary: ns) auto

lemma grow_shape:
  assumes inv: "slots_ok (hs_slots s) nx" and g: "grow s = Inr s'"
  obtains k where "2 \<le> k" "k < 31" "length (hs_slots s) = 2 ^ k" "length (hs_slots s') = 2 ^ Suc k"
    "\<And>i c. i < 2 ^ Suc k \<Longrightarrow>
       hs_slots s' ! i = Some c \<longleftrightarrow> c \<in> set (contexts s) \<and> slot_of (ctx_handle c) (2 ^ Suc k) = i"
proof -
  obtain k where k: "2 \<le> k" "k \<le> 31" "length (hs_slots s) = 2 ^ k"
    using inv by (rule slots_okE)
  define f :: "'a svc_ref_scheme \<Rightarrow> nat" where "f = (\<lambda>c. slot_of (ctx_handle c) (2 ^ Suc k))"
  define ns where "ns = foldl (\<lambda>ns c. ns[f c := Some c]) (empty_slots (2 ^ Suc k)) (contexts s)"
  have small: "(2::nat) ^ k * 2 \<le> 4294967295" and s': "hs_slots s' = ns"
    using g k by (auto simp: grow_def Let_def f_def ns_def mult.commute split: if_splits)
  then have "k \<noteq> 31" by auto
  then have "k < 31" using k by simp
  have "distinct (map (\<lambda>c. f c mod 2 ^ k) (contexts s))"
    using distinct_hashes [OF inv] k slot_of_half [of k] by (simp add: f_def mult.commute)
  then have dist: "distinct (map f (contexts s))" "inj_on f (set (contexts s))"
    by (auto simp: distinct_map inj_on_def)
  have bound: "\<forall>c \<in> set (contexts s). f c < length (empty_slots (2 ^ Suc k) :: 'a slots)"
    using slot_of_mod [of "Suc k"] \<open>k < 31\<close> by (simp add: f_def empty_slots_def)
  note place = foldl_place [OF dist(1) bound, folded ns_def]
  have "ns ! i = Some c \<longleftrightarrow> c \<in> set (contexts s) \<and> f c = i" if "i < 2 ^ Suc k" for i c
  proof (cases "i \<in> f ` set (contexts s)")
    case True
    then show ?thesis using place(2) dist(2) by (auto dest: inj_onD)
  next
    case False
    then show ?thesis using place(3) that by (auto simp: empty_slots_def simp del: power_Suc)
  qed
  then show ?thesis
    using that [of k] k \<open>k < 31\<close> place(1) by (simp add: s' f_def empty_slots_def)
qed

lemma grow_ok:
  assumes inv: "slots_ok (hs_slots s) nx" and g: "grow s = Inr s'"
  shows "slots_ok (hs_slots s') nx" "length (hs_slots s') = 2 * length (hs_slots s)"
    "set (contexts s') = set (contexts s)"
proof -
  obtain k where k: "2 \<le> k" "k < 31" "length (hs_slots s) = 2 ^ k" "length (hs_slots s') = 2 ^ Suc k"
    and hit: "\<And>i c. i < 2 ^ Suc k \<Longrightarrow>
       hs_slots s' ! i = Some c \<longleftrightarrow> c \<in> set (contexts s) \<and> slot_of (ctx_handle c) (2 ^ Suc k) = i"
    using grow_shape [OF inv g] by blast
  have less: "slot_of h (2 ^ Suc k) < 2 ^ Suc k" for h
    using slot_of_mod [of "Suc k" h] k by simp
  show "length (hs_slots s') = 2 * length (hs_slots s)" using k by simp
  show "set (contexts s') = set (contexts s)"
  proof (intro set_eqI iffI)
    fix c assume "c \<in> set (contexts s')"
    then show "c \<in> set (contexts s)"
      using hit k(4) by (auto simp: set_contexts [of s'] in_set_conv_nth simp del: power_Suc)
  next
    fix c assume "c \<in> set (contexts s)"
    then have "hs_slots s' ! slot_of (ctx_handle c) (2 ^ Suc k) = Some c"
      using hit less by (simp del: power_Suc)
    then show "c \<in> set (contexts s')"
      using less k(4) by (metis mem_Collect_eq nth_mem set_contexts)
  qed
  have "ctx_handle c < nx" if "c \<in> set (contexts s)" for c
    using that slots_ok_hit [OF inv] by (auto simp: set_contexts in_set_conv_nth)
  then show "slots_ok (hs_slots s') nx"
    using hit k by (auto simp: slots_ok_def intro!: bexI [of _ "Suc k"])
qed

lemma grow_frame:
  "grow s = Inr s' \<Longrightarrow> hs_names s' = hs_names s \<and> hs_next s' = hs_next s"
  by (auto simp: grow_def Let_def split: if_splits)

lemma grow_grab:
  assumes "slots_ok (hs_slots s) nx" "grow s = Inr s'"
  shows "grab s' h = grab s h"
proof -
  have "grab s' h = Some c \<longleftrightarrow> grab s h = Some c" for c
    using grab_iff [OF assms(1)] grab_iff [OF grow_ok(1) [OF assms]] grow_ok(3) [OF assms] by simp
  then show ?thesis by (metis option.exhaust)
qed

section \<open>The search for a free slot\<close>

lemma scan_free_Some:
  "scan_free ss h n = Inr (Some (h', nx)) \<Longrightarrow>
   h \<le> h' \<and> unat h' + 1 < 2 ^ 64 \<and> nx = h' + 1 \<and> ss ! slot_of h' (length ss) = None"
proof (induction ss h n rule: scan_free.induct)
  case (2 ss h n)
  then show ?case
    by (auto simp: checked_add_Some word_le_nat_alt unat_add_no_wrap split: option.splits if_splits)
qed simp

lemma scan_free_None:
  "scan_free ss h n = Inr None \<Longrightarrow>
   unat h + n < 2 ^ 64 \<and> (\<forall>j < n. ss ! slot_of (h + of_nat j) (length ss) \<noteq> None)"
proof (induction ss h n rule: scan_free.induct)
  case (2 ss h n)
  then have IH: "unat (h + 1) + n < 2 ^ 64" "\<forall>j < n. ss ! slot_of (h + 1 + of_nat j) (length ss) \<noteq> None"
    and h: "unat h + 1 < 2 ^ 64" "ss ! slot_of h (length ss) \<noteq> None"
    by (auto simp: checked_add_Some split: option.splits if_splits)
  have "ss ! slot_of (h + of_nat j) (length ss) \<noteq> None" if "j < Suc n" for j
    using that IH(2) h(2) by (cases j) (auto simp: algebra_simps)
  then show ?case using IH(1) h(1) by (simp add: unat_add_no_wrap)
qed simp

lemma scan_free_Inl: "scan_free ss h n = Inl p \<Longrightarrow> 2 ^ 64 \<le> unat h + n"
proof (induction ss h n rule: scan_free.induct)
  case (2 ss h n)
  then show ?case
    by (auto simp: checked_add_Some checked_add_None unat_add_no_wrap split: option.splits if_splits)
qed simp

lemma scan_free_full:
  assumes ok: "slots_ok ss nx" and scan: "scan_free ss h (length ss) = Inr None" and i: "i < length ss"
  shows "ss ! i \<noteq> None"
proof -
  obtain k where k: "k \<le> 31" "length ss = 2 ^ k" using ok by (rule slots_okE)
  obtain j where j: "j < length ss" "(unat h + j) mod length ss = i"
    using residue_hit [OF i] by blast
  have none: "unat h + length ss < 2 ^ 64" "ss ! slot_of (h + of_nat j) (length ss) \<noteq> None"
    using scan_free_None [OF scan] j(1) by auto
  have "unat (of_nat j :: u64) = j"
    using j(1) none(1) by (intro unat_of_nat_less) simp
  then have "unat (h + of_nat j) = unat h + j"
    using none(1) j(1) by (simp add: unat_add_no_wrap)
  then have "slot_of (h + of_nat j) (length ss) = i"
    using k j(2) by (simp add: slot_of_mod)
  then show ?thesis using none(2) by simp
qed

lemma distinct_contexts: "slots_ok (hs_slots s) nx \<Longrightarrow> distinct (contexts s)"
  using distinct_hashes by (auto simp: distinct_map)

lemma length_contexts_le: "length (contexts s) \<le> length (hs_slots s)"
  by (simp add: contexts_def List.map_filter_def)

lemma length_contexts_full:
  "\<forall>i < length (hs_slots s). hs_slots s ! i \<noteq> None \<Longrightarrow> length (contexts s) = length (hs_slots s)"
  unfolding contexts_by_slot by simp

lemma grow_has_room:
  assumes ok: "slots_ok (hs_slots s) nx" and g: "grow s = Inr s'"
  shows "scan_free (hs_slots s') h (length (hs_slots s')) \<noteq> Inr None"
proof
  assume "scan_free (hs_slots s') h (length (hs_slots s')) = Inr None"
  then have "length (contexts s') = length (hs_slots s')"
    using scan_free_full [OF grow_ok(1) [OF ok g]] by (auto intro: length_contexts_full)
  moreover have "length (contexts s') = length (contexts s)"
    using grow_ok(3) [OF ok g] distinct_contexts [OF ok] distinct_contexts [OF grow_ok(1) [OF ok g]]
    by (metis distinct_card)
  ultimately show False
    using grow_ok(2) [OF ok g] length_contexts_le [of s] ok by (auto elim!: slots_okE)
qed

section \<open>Registration\<close>

definition put_ctx :: "'c svc_ref_scheme \<Rightarrow> u64 \<Rightarrow> 'c handle_storage \<Rightarrow> 'c handle_storage" where
  "put_ctx c h s = s\<lparr>hs_slots := (hs_slots s)[slot_of h (length (hs_slots s)) := Some c], hs_next := h + 1\<rparr>"

lemma put_ctx_ok:
  assumes ok: "slots_ok (hs_slots s) (hs_next s)"
    and free: "hs_slots s ! slot_of h (length (hs_slots s)) = None"
    and h: "hs_next s \<le> h" "unat h + 1 < 2 ^ 64" and c: "ctx_handle c = h"
  shows "slots_ok (hs_slots (put_ctx c h s)) (h + 1)" "grab (put_ctx c h s) = (grab s)(h \<mapsto> c)"
    "0 < h + 1"
proof -
  have h1: "h < h + 1" using h(2) by (simp add: word_less_nat_alt unat_add_no_wrap)
  then show "0 < h + 1" by (rule le_less_trans [rotated]) simp
  show ok': "slots_ok (hs_slots (put_ctx c h s)) (h + 1)"
    unfolding slots_ok_def
  proof (intro conjI allI impI)
    show "\<exists>k \<in> {2..31}. length (hs_slots (put_ctx c h s)) = 2 ^ k"
      using ok by (simp add: slots_ok_def put_ctx_def)
  next
    fix i c' assume i: "i < length (hs_slots (put_ctx c h s))" "hs_slots (put_ctx c h s) ! i = Some c'"
    then show "slot_of (ctx_handle c') (length (hs_slots (put_ctx c h s))) = i"
      using slots_ok_hit [OF ok, of i c'] c
      by (cases "i = slot_of h (length (hs_slots s))") (auto simp: put_ctx_def)
    show "ctx_handle c' < h + 1"
      using i slots_ok_hit [OF ok, of i c'] c h h1
      by (cases "i = slot_of h (length (hs_slots s))") (auto simp: put_ctx_def)
  qed
  have free': "grab s h' = None" if "slot_of h' (length (hs_slots s)) = slot_of h (length (hs_slots s))" for h'
    using free that by (simp add: grab_def)
  show "grab (put_ctx c h s) = (grab s)(h \<mapsto> c)"
    using c slot_of_less [OF ok, of h] free free'
    by (auto simp: fun_eq_iff grab_def put_ctx_def nth_list_update split: option.splits)
qed

lemma register_scan:
  assumes "scan_free (hs_slots s) (hs_next s) (length (hs_slots s)) \<noteq> Inr None"
  shows "(\<exists>p. register_with mk s = Some (Inl p) \<and> 2 ^ 64 \<le> unat (hs_next s) + length (hs_slots s)) \<or>
         (\<exists>h. hs_slots s ! slot_of h (length (hs_slots s)) = None \<and> hs_next s \<le> h \<and> unat h + 1 < 2 ^ 64 \<and>
            register_with mk s = Some (Inr (mk h, put_ctx (mk h) h s)))"
proof (cases "scan_free (hs_slots s) (hs_next s) (length (hs_slots s))")
  case (Inl p)
  then show ?thesis
    using scan_free_Inl [OF Inl] by (simp add: register_with.simps [of mk s])
next
  case (Inr r)
  then obtain h n where r: "r = Some (h, n)" using assms by (cases r) auto
  have "hs_next s \<le> h" "unat h + 1 < 2 ^ 64" "n = h + 1" "hs_slots s ! slot_of h (length (hs_slots s)) = None"
    using scan_free_Some Inr r by blast+
  moreover from this have "register_with mk s = Some (Inr (mk h, put_ctx (mk h) h s))"
    using Inr r by (simp add: register_with.simps [of mk s] put_ctx_def Let_def)
  ultimately show ?thesis by blast
qed

lemma grow_limit:
  assumes "slots_ok (hs_slots s) nx" "grow s = Inl p"
  shows "length (hs_slots s) = 2 ^ 31"
proof -
  obtain k where k: "k \<le> 31" "length (hs_slots s) = 2 ^ k"
    using assms(1) by (rule slots_okE)
  have "4294967295 < length (hs_slots s) * 2"
    using assms(2) by (auto simp: grow_def Let_def split: if_splits)
  then have "\<not> k \<le> 30"
    using k(2) power_increasing [of k 30 "2::nat"] by auto
  then have "k = 31" using k(1) by simp
  then show ?thesis using k by simp
qed

lemma register_with_cases:
  assumes ok: "slots_ok (hs_slots s) nx"
  shows "(\<exists>p. register_with mk s = Some (Inl p) \<and>
            (2 ^ 64 \<le> unat (hs_next s) + 2 * length (hs_slots s) \<or> length (contexts s) = 2 ^ 31)) \<or>
         (\<exists>s0 h. (s0 = s \<or> grow s = Inr s0) \<and> hs_slots s0 ! slot_of h (length (hs_slots s0)) = None \<and>
            hs_next s \<le> h \<and> unat h + 1 < 2 ^ 64 \<and>
            register_with mk s = Some (Inr (mk h, put_ctx (mk h) h s0)))"
proof (cases "scan_free (hs_slots s) (hs_next s) (length (hs_slots s)) = Inr None")
  case False
  then show ?thesis using register_scan [OF False, of mk] by fastforce
next
  case True
  then have full: "length (contexts s) = length (hs_slots s)"
    using scan_free_full [OF ok] by (auto intro: length_contexts_full)
  show ?thesis
  proof (cases "grow s")
    case (Inl p)
    then show ?thesis
      using True full grow_limit [OF ok Inl] by (simp add: register_with.simps [of mk s])
  next
    case (Inr s')
    have step: "register_with mk s = register_with mk s'"
      using True Inr by (simp add: register_with.simps [of mk s])
    have size: "length (hs_slots s') = 2 * length (hs_slots s)" and next': "hs_next s' = hs_next s"
      using grow_frame [OF Inr] grow_ok(2) [OF ok Inr] by simp_all
    show ?thesis
      using register_scan [OF grow_has_room [OF ok Inr], of mk, unfolded next']
    proof (elim disjE exE conjE)
      fix h assume "hs_slots s' ! slot_of h (length (hs_slots s')) = None" "hs_next s \<le> h"
        "unat h + 1 < 2 ^ 64" "register_with mk s' = Some (Inr (mk h, put_ctx (mk h) h s'))"
      then show ?thesis
        using Inr step by (intro disjI2 exI [of _ s'] exI [of _ h]) simp
    qed (simp add: step size)
  qed
qed

text \<open>What \<^verbatim>\<open>register_with\<close> does on a storage that satisfies the invariant, panics included.\<close>

lemma register_with_spec:
  assumes inv: "storage_inv s" and mk: "mk_ok mk"
  shows "case register_with mk s of
           None \<Rightarrow> False
         | Some (Inl p) \<Rightarrow> 2 ^ 64 \<le> unat (hs_next s) + 2 ^ 32 \<or> length (contexts s) = 2 ^ 31
         | Some (Inr (c, s')) \<Rightarrow>
             \<exists>h. c = mk h \<and> ctx_handle c = h \<and> hs_next s \<le> h \<and> h < hs_next s' \<and> grab s h = None \<and>
               grab s' = (grab s)(h \<mapsto> c) \<and> hs_names s' = hs_names s \<and> storage_inv s'"
proof -
  note ok = storage_slots_ok [OF inv]
  have len: "2 * length (hs_slots s) \<le> 2 ^ 32"
  proof -
    obtain k where k: "k \<le> 31" "length (hs_slots s) = 2 ^ k" using ok by (rule slots_okE)
    then have "(2::nat) ^ Suc k \<le> 2 ^ 32" by (intro power_increasing) auto
    then show ?thesis using k by simp
  qed
  have grab_below: "grab s h = None" if "hs_next s \<le> h" for h
  proof (rule ccontr)
    assume "grab s h \<noteq> None"
    then obtain c where "Some c \<in> set (hs_slots s)" "ctx_handle c = h"
      using grab_iff [OF ok] by (auto simp: set_contexts)
    then show False using slots_ok_hit [OF ok] that by (force simp: in_set_conv_nth)
  qed
  consider (fails) p where "register_with mk s = Some (Inl p)"
      "2 ^ 64 \<le> unat (hs_next s) + 2 * length (hs_slots s) \<or> length (contexts s) = 2 ^ 31"
    | (issues) s0 h where "s0 = s \<or> grow s = Inr s0" "hs_slots s0 ! slot_of h (length (hs_slots s0)) = None"
      "hs_next s \<le> h" "unat h + 1 < 2 ^ 64" "register_with mk s = Some (Inr (mk h, put_ctx (mk h) h s0))"
    using register_with_cases [OF ok, of mk] by blast
  then show ?thesis
  proof cases
    case fails
    then show ?thesis using len by auto
  next
    case issues
    have s0: "slots_ok (hs_slots s0) (hs_next s0)" "hs_next s0 = hs_next s" "hs_names s0 = hs_names s"
      "grab s0 = grab s"
      using issues(1) ok grow_ok(1) [OF ok, of s0] grow_frame [of s s0] grow_grab [OF ok, of s0]
      by (auto simp: fun_eq_iff)
    have c: "ctx_handle (mk h) = h" using mk by (simp add: mk_ok_def)
    note put = put_ctx_ok [OF s0(1) issues(2) _ issues(4) c]
    have new: "hs_next (put_ctx (mk h) h s0) = h + 1" "hs_names (put_ctx (mk h) h s0) = hs_names s"
      by (simp_all add: put_ctx_def s0)
    have "storage_inv (put_ctx (mk h) h s0)"
      using inv put s0 issues(3) by (auto simp: storage_inv_def new)
    moreover have "h < h + 1" using issues(4) by (simp add: word_less_nat_alt unat_add_no_wrap)
    ultimately show ?thesis
      using issues(3,5) put(2) s0 c grab_below new by auto
  qed
qed

section \<open>Removal and names\<close>

lemma retire_miss: "grab s h = None \<Longrightarrow> retire h s = (None, s)"
  by (auto simp: grab_def retire_def Let_def split: option.splits if_splits)

lemma retain_absent: "h \<notin> snd ` set m \<Longrightarrow> bt_retain (\<lambda>_ owner. owner \<noteq> h) m = m"
  unfolding bt_retain_def by (rule filter_True) force

lemma retire_hit:
  "grab s h = Some c \<Longrightarrow>
   retire h s = (Some c, s\<lparr>hs_slots := (hs_slots s)[slot_of h (length (hs_slots s)) := None],
                           hs_names := bt_retain (\<lambda>_ owner. owner \<noteq> h) (hs_names s)\<rparr>)"
  by (auto simp: grab_def retire_def Let_def retain_absent split: option.splits if_splits)

lemma retire_fst: "fst (retire h s) = grab s h"
  by (cases "grab s h") (simp_all add: retire_miss retire_hit)

lemma slots_ok_clear: "slots_ok ss nx \<Longrightarrow> slots_ok (ss[i := None]) nx"
  unfolding slots_ok_def by (cases "i < length ss") (auto simp: nth_list_update)

lemma retire_slots_ok:
  "slots_ok (hs_slots s) nx \<Longrightarrow> slots_ok (hs_slots (snd (retire h s))) nx"
  by (cases "grab s h") (auto simp: retire_miss retire_hit slots_ok_clear)

lemma retire_grab:
  assumes ok: "slots_ok (hs_slots s) nx"
  shows "grab (snd (retire h s)) = (grab s)(h := None)"
proof (cases "grab s h")
  case None
  then show ?thesis by (auto simp: retire_miss)
next
  case (Some c)
  have "grab s h' = None" if "h' \<noteq> h" "slot_of h' (length (hs_slots s)) = slot_of h (length (hs_slots s))" for h'
    using Some that by (auto simp: grab_def split: option.splits if_splits)
  then show ?thesis
    using slot_of_less [OF ok] unfolding retire_hit [OF Some]
    by (auto simp: fun_eq_iff grab_def nth_list_update)
qed

lemma retire_names:
  "snd (retire h s) = s \<or> hs_names (snd (retire h s)) = bt_retain (\<lambda>_ owner. owner \<noteq> h) (hs_names s)"
  by (cases "grab s h") (auto simp: retire_miss retire_hit)

lemma retire_inv:
  assumes inv: "storage_inv s"
  shows "storage_inv (snd (retire h s))"
proof (cases "grab s h")
  case None
  then show ?thesis using inv by (simp add: retire_miss)
next
  case (Some c)
  note ok = storage_slots_ok [OF inv]
  have "hs_next (snd (retire h s)) = hs_next s"
    "hs_names (snd (retire h s)) = bt_retain (\<lambda>_ owner. owner \<noteq> h) (hs_names s)"
    using Some by (simp_all add: retire_hit)
  then show ?thesis
    using inv retire_slots_ok [OF ok, of h]
    by (auto simp: storage_inv_def retire_grab [OF ok] bt_retain_def)
qed

lemma register_name_eq:
  "register_name h n s =
     (if grab s h \<noteq> None \<and> find_name s n = None
      then (True, s\<lparr>hs_names := bt_insert n h (hs_names s)\<rparr>) else (False, s))"
  by (auto simp: register_name_def grab_def find_name_def split: option.splits)

lemma grab_names_cong [simp]: "grab (s\<lparr>hs_names := ns\<rparr>) = grab s"
  by (simp add: grab_def fun_eq_iff)

lemma register_name_inv:
  assumes inv: "storage_inv s"
  shows "storage_inv (snd (register_name h n s))"
proof -
  have "grab s h' \<noteq> None"
    if "(n', h') \<in> set (bt_insert n h (hs_names s))" "grab s h \<noteq> None" for n' h'
  proof -
    have "bt_get (bt_insert n h (hs_names s)) n' = Some h'"
      using that(1) inv by (subst bt_get_iff) (auto simp: storage_inv_def)
    then have "h' = h \<or> (n', h') \<in> set (hs_names s)"
      using inv bt_get_iff [of "hs_names s" n' h'] by (auto simp: storage_inv_def split: if_splits)
    then show ?thesis using that(2) inv by (auto simp: storage_inv_def)
  qed
  then show ?thesis
    using inv by (auto simp: register_name_eq storage_inv_def)
qed

lemma new_storage_inv: "storage_inv new_storage"
  by (auto simp: storage_inv_def slots_ok_def new_storage_def empty_slots_def DEFAULT_SLOT_SIZE_def
      intro!: bexI [of _ 2])

lemma new_storage_grab [simp]: "grab new_storage = Map.empty"
proof
  fix h
  have "slots_ok (hs_slots new_storage :: 'a slots) 1"
    using new_storage_inv storage_slots_ok by (fastforce simp: new_storage_def)
  then have "hs_slots new_storage ! slot_of h (length (hs_slots new_storage :: 'a slots)) = (None :: 'a svc_ref_scheme option)"
    using slot_of_less [of "hs_slots new_storage :: 'a slots" 1 h] by (simp add: new_storage_def empty_slots_def)
  then show "grab (new_storage :: 'a handle_storage) h = None" by (simp add: grab_def)
qed

section \<open>The registry is an identifier table\<close>

lemma reg_ins_spec:
  assumes "storage_inv s" "mk_ok mk" "reg_ins mk s = Some (h, s')"
  shows "storage_inv s'" "grab s h = None" "grab s' = (grab s)(h \<mapsto> mk h)" "hs_next s \<le> h" "h < hs_next s'"
proof -
  obtain c where "register_with mk s = Some (Inr (c, s'))" "h = ctx_handle c"
    using assms(3) by (auto simp: reg_ins_def split: option.splits sum.splits prod.splits)
  then show "storage_inv s'" "grab s h = None" "grab s' = (grab s)(h \<mapsto> mk h)" "hs_next s \<le> h" "h < hs_next s'"
    using register_with_spec [OF assms(1,2)] by auto
qed

lemma reg_del_next: "hs_next (reg_del h s) = hs_next s"
  by (cases "grab s h") (simp_all add: reg_del_def retire_miss retire_hit)

interpretation registry: mono_id_table storage_inv grab mk_ok "\<lambda>h mk. mk h" reg_ins reg_del
  "\<lambda>s. unat (hs_next s)" unat
proof unfold_locales
  fix s :: "'a handle_storage" and h
  assume "storage_inv s"
  then show "storage_inv (reg_del h s)" "grab (reg_del h s) = (grab s)(h := None)"
    by (simp_all add: reg_del_def retire_inv retire_grab [OF storage_slots_ok])
  show "unat (hs_next s) \<le> unat (hs_next (reg_del h s))" by (simp add: reg_del_next)
qed (auto dest: reg_ins_spec simp: word_le_nat_alt word_less_nat_alt)

section \<open>Grouping names by handle\<close>

definition names_of :: "u64 \<Rightarrow> (string, u64) btree \<Rightarrow> string list" where
  "names_of h ns = map fst (filter (\<lambda>(n, h'). h' = h) ns)"

lemma group_names:
  "bt_get (foldl (\<lambda>g (n, h). entry_push h n g) g ns) h =
     (if bt_get g h = None \<and> names_of h ns = [] then None
      else Some ((case bt_get g h of Some xs \<Rightarrow> xs | None \<Rightarrow> []) @ names_of h ns))"
proof (induction ns arbitrary: g)
  case (Cons e ns)
  show ?case
    using Cons [of "entry_push (snd e) (fst e) g"]
    by (cases e) (auto simp: entry_push_def names_of_def split: option.splits)
qed (auto simp: names_of_def split: option.splits)

section \<open>Reachable registries\<close>

inductive storage_reach :: "'c handle_storage \<Rightarrow> bool" where
  init: "storage_reach new_storage"
| register: "\<lbrakk>storage_reach s; mk_ok mk; register_with mk s = Some (Inr (c, s'))\<rbrakk> \<Longrightarrow> storage_reach s'"
| retire: "storage_reach s \<Longrightarrow> storage_reach (snd (retire h s))"
| name: "storage_reach s \<Longrightarrow> storage_reach (snd (register_name h n s))"

lemma storage_reach_inv: "storage_reach s \<Longrightarrow> storage_inv s"
proof (induction rule: storage_reach.induct)
  case (register s mk c s')
  then show ?case using register_with_spec [of s mk] by auto
qed (auto simp: new_storage_inv retire_inv register_name_inv)

section \<open>A registry with one service\<close>

abbreviation bare :: "u64 \<Rightarrow> svc_ref" where
  "bare h \<equiv> \<lparr>ctx_handle = h\<rparr>"

lemma bare_ok: "mk_ok bare"
  by (simp add: mk_ok_def)

lemma register_found:
  "scan_free (hs_slots s) (hs_next s) (length (hs_slots s)) = Inr (Some (h, n)) \<Longrightarrow>
   register_with mk s = Some (Inr (mk h, s\<lparr>hs_slots := (hs_slots s)[slot_of h (length (hs_slots s)) := Some (mk h)],
                                          hs_next := n\<rparr>))"
  by (simp add: register_with.simps [of mk s] Let_def)

lemma register_first:
  "register_with bare new_storage =
    Some (Inr (bare 1, \<lparr>hs_slots = [None, Some (bare 1), None, None], hs_names = [], hs_next = 2\<rparr>))"
proof -
  let ?s = "new_storage :: unit handle_storage"
  have "scan_free (hs_slots ?s) (hs_next ?s) (length (hs_slots ?s)) = Inr (Some (1, 2))" by code_simp
  moreover have "?s\<lparr>hs_slots := (hs_slots ?s)[slot_of 1 (length (hs_slots ?s)) := Some (bare 1)], hs_next := 2\<rparr>
    = \<lparr>hs_slots = [None, Some (bare 1), None, None], hs_names = [], hs_next = 2\<rparr>" by code_simp
  ultimately show ?thesis by (simp add: register_found)
qed

lemma register_second:
  "register_with bare \<lparr>hs_slots = [None, None, None, None], hs_names = [], hs_next = 2\<rparr> =
    Some (Inr (bare 2, \<lparr>hs_slots = [None, None, Some (bare 2), None], hs_names = [], hs_next = 3\<rparr>))"
proof -
  let ?s = "\<lparr>hs_slots = [None, None, None, None], hs_names = [], hs_next = 2\<rparr> :: unit handle_storage"
  have "scan_free (hs_slots ?s) (hs_next ?s) (length (hs_slots ?s)) = Inr (Some (2, 3))" by code_simp
  moreover have "?s\<lparr>hs_slots := (hs_slots ?s)[slot_of 2 (length (hs_slots ?s)) := Some (bare 2)], hs_next := 3\<rparr>
    = \<lparr>hs_slots = [None, None, Some (bare 2), None], hs_names = [], hs_next = 3\<rparr>" by code_simp
  ultimately show ?thesis using register_found [of ?s 2 3 bare] by simp
qed

section \<open>Properties\<close>

text \<open>
  C16: On a registry that satisfies its invariant, \<^verbatim>\<open>register_with\<close> always returns.  It panics only
  when the 64-bit handle space is within $2^{32}$ of its end or $2^{31}$ services are live;
  otherwise it issues a handle that is not below the allocation counter and not in use, stores
  exactly the new context under it (growing and rehashing the slot array when it must), leaves every
  other service reachable, and advances the counter beyond the handle.
\<close>

theorem register_with_correct:
  assumes "storage_inv s" and "mk_ok mk"
  shows "case register_with mk s of
           None \<Rightarrow> False
         | Some (Inl p) \<Rightarrow> 2 ^ 64 \<le> unat (hs_next s) + 2 ^ 32 \<or> length (contexts s) = 2 ^ 31
         | Some (Inr (c, s')) \<Rightarrow>
             \<exists>h. c = mk h \<and> ctx_handle c = h \<and> hs_next s \<le> h \<and> h < hs_next s' \<and> grab s h = None \<and>
               grab s' = (grab s)(h \<mapsto> c) \<and> hs_names s' = hs_names s \<and> storage_inv s'"
  by (rule register_with_spec [OF assms])

theorem register_with_correct_witness:
  "\<exists>s'. register_with bare new_storage = Some (Inr (\<lparr>ctx_handle = 1\<rparr>, s')) \<and>
     grab s' = [1 \<mapsto> \<lparr>ctx_handle = 1\<rparr>]"
  using register_with_correct [of new_storage bare]
  by (auto simp: new_storage_inv bare_ok register_first)

text \<open>
  C17: Along any sequence of registrations and removals from an empty registry, the issued handles
  are strictly increasing, so none is ever reused, and looking a handle up gives exactly what the
  abstract map gives: the context registered under it unless it has been removed since.
\<close>

theorem handles_never_reused:
  assumes "exec_ops reg_ins reg_del ops new_storage = Some (hs, t)"
    and "list_all (op_ok mk_ok) ops"
  shows "sorted_wrt (<) hs \<and> grab t = spec_ops (\<lambda>h mk. mk h) ops hs Map.empty \<and> storage_inv t"
proof -
  have "sorted_wrt (\<lambda>a b. unat a < unat b) hs"
    using registry.issued_increasing [OF new_storage_inv assms(2,1)] by (simp add: sorted_wrt_map)
  then show ?thesis
    using registry.exec_refines [OF new_storage_inv assms(2,1)] registry.exec_inv [OF new_storage_inv assms(2,1)]
    by (simp add: word_less_def word_less_nat_alt [abs_def])
qed

theorem handles_never_reused_witness:
  "\<exists>t. exec_ops reg_ins reg_del
      [Ins bare, Del 1, Ins bare] new_storage = Some ([1, 2], t) \<and>
     grab t = [2 \<mapsto> \<lparr>ctx_handle = 2\<rparr>]"
proof -
  have eval: "exec_ops reg_ins reg_del
      [Ins bare, Del 1, Ins bare] new_storage =
    Some ([1, 2], \<lparr>hs_slots = [None, None, Some \<lparr>ctx_handle = 2\<rparr>, None], hs_names = [], hs_next = 3\<rparr>)"
  proof -
    have "reg_del 1 \<lparr>hs_slots = [None, Some (bare 1), None, None], hs_names = [], hs_next = 2\<rparr> =
      \<lparr>hs_slots = [None, None, None, None], hs_names = [], hs_next = 2\<rparr>" by code_simp
    then show ?thesis by (simp add: reg_ins_def register_first register_second)
  qed
  show ?thesis
    using handles_never_reused [OF eval] eval by (intro exI conjI) (assumption, simp add: bare_ok)
qed

text \<open>
  C29: In every registry reachable by registrations, removals and naming, a name that resolves
  resolves to a live service with that handle: removal drops the names of the removed service and
  a dead handle cannot be named.
\<close>

theorem names_point_to_live_services:
  assumes "storage_reach s" and "find_name s n = Some h"
  shows "\<exists>c. grab s h = Some c \<and> ctx_handle c = h \<and> h \<in> set (handles s)"
proof -
  have inv: "storage_inv s" using assms(1) by (rule storage_reach_inv)
  then have "(n, h) \<in> set (hs_names s)"
    using assms(2) bt_get_iff [of "hs_names s" n h] by (simp add: find_name_def storage_inv_def)
  then obtain c where "grab s h = Some c" using inv by (auto simp: storage_inv_def)
  then show ?thesis
    using grab_iff [OF storage_slots_ok [OF inv]] by (auto simp: handles_def)
qed

theorem names_point_to_live_services_witness:
  "let s = \<lparr>hs_slots = [None, Some (bare 1), None, None], hs_names = [(''logger'', 1)], hs_next = 2\<rparr> in
   storage_reach s \<and> find_name s ''logger'' = Some 1 \<and> 1 \<in> set (handles s)"
proof -
  let ?s = "\<lparr>hs_slots = [None, Some (bare 1), None, None], hs_names = [(''logger'', 1)], hs_next = 2\<rparr>"
  have "?s = snd (register_name 1 ''logger'' \<lparr>hs_slots = [None, Some (bare 1), None, None], hs_names = [], hs_next = 2\<rparr>)"
    by code_simp
  then have reach: "storage_reach ?s"
    using storage_reach.name [OF storage_reach.register [OF storage_reach.init bare_ok register_first]] by simp
  have found: "find_name ?s ''logger'' = Some 1" by code_simp
  show ?thesis
    using names_point_to_live_services [OF reach found] found reach unfolding Let_def by blast
qed

text \<open>
  The monitoring snapshot lists, under each handle, exactly the names registered for it, in
  name order, and handles without names have no entry.
\<close>

theorem snapshot_groups_names:
  "bt_get (snd (snapshot s)) h =
     (if names_of h (hs_names s) = [] then None else Some (names_of h (hs_names s)))"
  by (simp add: snapshot_def group_names)

end
