(* ===== verification/Message.thy ===== *)
theory Message
  imports Prelude
begin

text \<open>
  Message types, payloads, messages and addresses (\<^verbatim>\<open>rskynet-core/src/message.rs\<close>).  A Rust string
  is its UTF-8 bytes, here a list of characters.  A boxed object is a value of an arbitrary type
  \<^verbatim>\<open>'b\<close>; \<^verbatim>\<open>downcast\<close> takes the test whether it has the requested type.  The main results
  are that a printed address parses back, and that parsing an address never truncates a handle.
\<close>

section \<open>Errors\<close>

text \<open>
  \<^verbatim>\<open>Error\<close> of \<^verbatim>\<open>error.rs\<close>.  The errors of other crates that it wraps (I/O, TOML, JSON) are
  represented by their message.
\<close>

datatype error =
    NoService u64
  | UnknownService string
  | NameNotFound string
  | CallFailed u64
  | Canceled
  | InitError string string
  | ServiceError string
  | PayloadError string
  | ConfigError string
  | ConfigIo string string
  | ConfigParse string
  | MissingTimer
  | JsonError string
  | IoError string

type_synonym 'a result = "error + 'a"

section \<open>Message types\<close>

datatype msg_type = MsgType u8

definition TEXT :: msg_type where "TEXT = MsgType 0"
definition RESPONSE :: msg_type where "RESPONSE = MsgType 1"
definition MULTICAST :: msg_type where "MULTICAST = MsgType 2"
definition CLIENT :: msg_type where "CLIENT = MsgType 3"
definition SYSTEM :: msg_type where "SYSTEM = MsgType 4"
definition SOCKET :: msg_type where "SOCKET = MsgType 5"
definition ERROR :: msg_type where "ERROR = MsgType 6"
definition USER :: msg_type where "USER = MsgType 7"
definition TLS :: msg_type where "TLS = MsgType 8"
definition QUIC :: msg_type where "QUIC = MsgType 9"

fun raw_type :: "msg_type \<Rightarrow> u8" where
  "raw_type (MsgType n) = n"

definition is_reply :: "msg_type \<Rightarrow> bool" where
  "is_reply t = (raw_type t = raw_type RESPONSE \<or> raw_type t = raw_type ERROR)"

definition type_name :: "msg_type \<Rightarrow> string option" where
  "type_name t =
     (if t = TEXT then Some ''TEXT'' else if t = RESPONSE then Some ''RESPONSE''
      else if t = MULTICAST then Some ''MULTICAST'' else if t = CLIENT then Some ''CLIENT''
      else if t = SYSTEM then Some ''SYSTEM'' else if t = SOCKET then Some ''SOCKET''
      else if t = ERROR then Some ''ERROR'' else if t = USER then Some ''USER''
      else if t = TLS then Some ''TLS'' else if t = QUIC then Some ''QUIC'' else None)"

section \<open>Payloads and messages\<close>

datatype 'b payload = PNone | PBytes bytes | PBoxed 'b

definition payload_is_none :: "'b payload \<Rightarrow> bool" where
  "payload_is_none p = (case p of PNone \<Rightarrow> True | _ \<Rightarrow> False)"

definition downcast :: "('b \<Rightarrow> bool) \<Rightarrow> 'b payload \<Rightarrow> 'b payload + 'b" where
  "downcast is_T p =
     (case p of PBoxed any \<Rightarrow> if is_T any then Inr any else Inl (PBoxed any) | other \<Rightarrow> Inl other)"

definition as_bytes :: "'b payload \<Rightarrow> bytes option" where
  "as_bytes p = (case p of PBytes bs \<Rightarrow> Some bs | _ \<Rightarrow> None)"

definition payload_len :: "'b payload \<Rightarrow> nat" where
  "payload_len p = (case p of PBytes bs \<Rightarrow> length bs | _ \<Rightarrow> 0)"

definition payload_is_empty :: "'b payload \<Rightarrow> bool" where
  "payload_is_empty p = (payload_len p = 0)"

record 'b message =
  msg_source :: u64
  msg_session :: u64
  msg_mtype :: msg_type
  msg_payload :: "'b payload"

definition new_message :: "u64 \<Rightarrow> u64 \<Rightarrow> msg_type \<Rightarrow> 'b payload \<Rightarrow> 'b message" where
  "new_message source session mtype p =
     \<lparr>msg_source = source, msg_session = session, msg_mtype = mtype, msg_payload = p\<rparr>"

definition take_payload :: "'b message \<Rightarrow> 'b payload \<times> 'b message" where
  "take_payload m = (msg_payload m, m\<lparr>msg_payload := PNone\<rparr>)"

definition needs_reply :: "'b message \<Rightarrow> bool" where
  "needs_reply m = (msg_session m \<noteq> 0)"

section \<open>Addresses\<close>

datatype addr = AddrHandle u64 | AddrName string

text \<open>The digits that \<^verbatim>\<open>char::to_digit(16)\<close> accepts.\<close>

definition hex_val :: "char \<Rightarrow> nat option" where
  "hex_val c =
     (let n = of_char c :: nat in
      if 48 \<le> n \<and> n \<le> 57 then Some (n - 48)
      else if 97 \<le> n \<and> n \<le> 102 then Some (n - 87)
      else if 65 \<le> n \<and> n \<le> 70 then Some (n - 55)
      else None)"

text \<open>The digit loop of \<^verbatim>\<open>u64::from_str_radix(_, 16)\<close>; the guard is its overflow check.\<close>

fun hex_digits :: "nat \<Rightarrow> string \<Rightarrow> nat option" where
  "hex_digits acc [] = Some acc"
| "hex_digits acc (c # cs) =
     (case hex_val c of
        None \<Rightarrow> None
      | Some d \<Rightarrow> if acc * 16 + d < 2 ^ 64 then hex_digits (acc * 16 + d) cs else None)"

definition from_str_radix_16 :: "string \<Rightarrow> u64 option" where
  "from_str_radix_16 s =
     (case s of
        [] \<Rightarrow> None
      | c # cs \<Rightarrow>
          if cs = [] \<and> (c = CHR ''+'' \<or> c = CHR ''-'') then None
          else map_option of_nat (hex_digits 0 (if c = CHR ''+'' then cs else s)))"

definition addr_from :: "string \<Rightarrow> addr" where
  "addr_from v =
     (let name = AddrName (dropWhile (\<lambda>c. c = CHR ''.'') v) in
      case v of
        c # hex \<Rightarrow>
          if c = CHR '':'' then
            (case from_str_radix_16 hex of Some h \<Rightarrow> AddrHandle h | None \<Rightarrow> name)
          else name
      | [] \<Rightarrow> name)"

definition hex_char :: "nat \<Rightarrow> char" where
  "hex_char d = char_of (if d < 10 then 48 + d else 87 + d)"

fun hex_string :: "nat \<Rightarrow> string" where
  "hex_string n = (if n < 16 then [hex_char n] else hex_string (n div 16) @ [hex_char (n mod 16)])"

declare hex_string.simps [simp del]

fun dec_string :: "nat \<Rightarrow> string" where
  "dec_string n = (if n < 10 then [hex_char n] else dec_string (n div 10) @ [hex_char (n mod 10)])"

declare dec_string.simps [simp del]

text \<open>The format directive \<^verbatim>\<open>{:08x}\<close>: lower case, padded with zeros to eight digits.\<close>

definition pad_left :: "nat \<Rightarrow> string \<Rightarrow> string" where
  "pad_left w s = replicate (w - length s) (CHR ''0'') @ s"

definition addr_display :: "addr \<Rightarrow> string" where
  "addr_display a =
     (case a of
        AddrHandle h \<Rightarrow> CHR '':'' # pad_left 8 (hex_string (unat h))
      | AddrName n \<Rightarrow> CHR ''.'' # n)"

section \<open>Facts\<close>

lemma hex_val_char: "d < 16 \<Longrightarrow> hex_val (hex_char d) = Some d"
  by (auto simp: hex_val_def hex_char_def Let_def)

lemma hex_digits_append:
  "hex_digits acc (xs @ ys) = (case hex_digits acc xs of None \<Rightarrow> None | Some a \<Rightarrow> hex_digits a ys)"
  by (induction acc xs rule: hex_digits.induct) (auto split: option.splits)

lemma hex_digits_string: "n < 2 ^ 64 \<Longrightarrow> hex_digits 0 (hex_string n) = Some n"
proof (induction n rule: hex_string.induct)
  case (1 n)
  show ?case
  proof (cases "n < 16")
    case True
    then show ?thesis by (subst hex_string.simps) (simp add: hex_val_char)
  next
    case False
    then have "hex_digits 0 (hex_string (n div 16)) = Some (n div 16)"
      using 1 by simp
    then show ?thesis
      using False 1(2) by (subst hex_string.simps) (simp add: hex_digits_append hex_val_char)
  qed
qed

lemma hex_digits_zeros: "hex_digits 0 (replicate k (CHR ''0'') @ s) = hex_digits 0 s"
  by (induction k) (simp_all add: hex_val_def)

lemma pad_left_length: "w \<le> length (pad_left w s)"
  by (simp add: pad_left_def)

lemma hex_string_set: "c \<in> set (hex_string n) \<Longrightarrow> \<exists>d < 16. c = hex_char d"
proof (induction n rule: hex_string.induct)
  case (1 n)
  then show ?case
    by (subst (asm) (2) hex_string.simps) (auto split: if_splits intro: exI [of _ "n mod 16"])
qed

lemma hex_char_not_plus: "d < 16 \<Longrightarrow> hex_char d \<noteq> CHR ''+''"
  using hex_val_char [of d] by (auto simp: hex_val_def)

lemma pad_left_no_plus: "CHR ''+'' \<notin> set (pad_left w (hex_string n))"
  using hex_string_set hex_char_not_plus by (fastforce simp: pad_left_def)

lemma from_str_radix_printed: "from_str_radix_16 (pad_left 8 (hex_string (unat h))) = Some h"
proof -
  let ?s = "pad_left 8 (hex_string (unat h))"
  obtain c cs where s: "?s = c # cs" "cs \<noteq> []"
    using pad_left_length [of 8 "hex_string (unat h)"] by (cases ?s; cases "tl ?s") auto
  have "c \<noteq> CHR ''+''" using s pad_left_no_plus [of 8 "unat h"] by auto
  moreover have "hex_digits 0 ?s = Some (unat h)"
    by (simp add: pad_left_def hex_digits_zeros hex_digits_string)
  ultimately show ?thesis
    using s by (simp add: from_str_radix_16_def)
qed

text \<open>The number a digit string denotes, without any bound.\<close>

definition hex_value :: "nat \<Rightarrow> string \<Rightarrow> nat" where
  "hex_value acc cs = foldl (\<lambda>a c. a * 16 + (case hex_val c of Some d \<Rightarrow> d | None \<Rightarrow> 0)) acc cs"

lemma hex_value_ge: "acc \<le> hex_value acc cs"
proof (induction cs arbitrary: acc)
  case (Cons c cs)
  show ?case
    using Cons [of "acc * 16 + (case hex_val c of Some d \<Rightarrow> d | None \<Rightarrow> 0)"] by (simp add: hex_value_def)
qed (simp add: hex_value_def)

lemma hex_digits_iff:
  "acc < 2 ^ 64 \<Longrightarrow>
   hex_digits acc cs = Some v \<longleftrightarrow>
     list_all (\<lambda>c. hex_val c \<noteq> None) cs \<and> v = hex_value acc cs \<and> v < 2 ^ 64"
proof (induction acc cs rule: hex_digits.induct)
  case (2 acc c cs)
  show ?case
  proof (cases "hex_val c")
    case None
    then show ?thesis by simp
  next
    case (Some d)
    then show ?thesis
      using 2 hex_value_ge [of "acc * 16 + d" cs] by (auto simp: hex_value_def)
  qed
qed (auto simp: hex_value_def)

lemma hex_digits_word:
  "map_option of_nat (hex_digits 0 ds) = Some (h :: u64) \<longleftrightarrow>
     list_all (\<lambda>c. hex_val c \<noteq> None) ds \<and> hex_value 0 ds = unat h"
proof
  assume "map_option of_nat (hex_digits 0 ds) = Some h"
  then obtain v where v: "hex_digits 0 ds = Some v" "h = of_nat v" by auto
  then have "v < 2 ^ 64" "list_all (\<lambda>c. hex_val c \<noteq> None) ds" "v = hex_value 0 ds"
    using hex_digits_iff [of 0 ds v] by simp_all
  then show "list_all (\<lambda>c. hex_val c \<noteq> None) ds \<and> hex_value 0 ds = unat h"
    using v(2) unat_of_nat_less [where 'a = 64, of v] by simp
next
  assume "list_all (\<lambda>c. hex_val c \<noteq> None) ds \<and> hex_value 0 ds = unat h"
  then show "map_option of_nat (hex_digits 0 ds) = Some h"
    using hex_digits_iff [of 0 ds "unat h"] by simp
qed

lemma from_str_radix_16_iff:
  "from_str_radix_16 s = Some h \<longleftrightarrow>
      (\<exists>ds. (s = ds \<or> s = CHR ''+'' # ds) \<and> ds \<noteq> [] \<and> list_all (\<lambda>c. hex_val c \<noteq> None) ds \<and>
        hex_value 0 ds = unat h)"
proof (cases s)
  case (Cons c cs)
  have plus: "hex_val (CHR ''+'') = None" "hex_val (CHR ''-'') = None" by (simp_all add: hex_val_def)
  show ?thesis
  proof (cases "c = CHR ''+''")
    case True
    then show ?thesis
      unfolding Cons from_str_radix_16_def using hex_digits_word [of cs] plus by (cases "cs = []") auto
  next
    case False
    then show ?thesis
      unfolding Cons from_str_radix_16_def using hex_digits_word [of "c # cs"] plus
      by (cases "cs = [] \<and> c = CHR ''-''") auto
  qed
qed (simp add: from_str_radix_16_def)

section \<open>Properties\<close>

text \<open>
  C30: Printing an address and parsing it gives the address back for every 64-bit handle, and for a
  name exactly when the name does not itself start with a dot (parsing strips all leading dots).
\<close>

theorem addr_round_trip:
  "addr_from (addr_display a) = a \<longleftrightarrow>
     (case a of AddrHandle h \<Rightarrow> True
      | AddrName n \<Rightarrow> (case n of [] \<Rightarrow> True | c # cs \<Rightarrow> c \<noteq> CHR ''.''))"
proof (cases a)
  case (AddrHandle h)
  then show ?thesis
    using from_str_radix_printed [of h] by (simp add: addr_from_def addr_display_def)
next
  case (AddrName n)
  have "length (dropWhile P cs) \<le> length cs" for P and cs :: string by (rule length_dropWhile_le)
  then have "dropWhile P cs \<noteq> c # cs" for P c and cs :: string
    by (metis impossible_Cons)
  then show ?thesis
    using AddrName by (auto simp: addr_from_def addr_display_def split: list.splits)
qed

text \<open>
  A string is parsed as a handle exactly when it is a colon, an optional plus sign and a
  non-empty sequence of hexadecimal digits whose value fits 64 bits; the handle then is that value,
  so an address is never truncated.
\<close>

theorem addr_from_handle_iff:
  "addr_from v = AddrHandle h \<longleftrightarrow>
     (\<exists>s ds. v = CHR '':'' # s \<and> (s = ds \<or> s = CHR ''+'' # ds) \<and> ds \<noteq> [] \<and>
       list_all (\<lambda>c. hex_val c \<noteq> None) ds \<and> hex_value 0 ds = unat h)"
proof -
  have "addr_from v = AddrHandle h \<longleftrightarrow> (\<exists>s. v = CHR '':'' # s \<and> from_str_radix_16 s = Some h)"
    by (auto simp: addr_from_def Let_def split: list.splits if_splits option.splits)
  then show ?thesis unfolding from_str_radix_16_iff by blast
qed

end
