(* ===== verification/Session.thy ===== *)
theory Session
  imports Tables Message
begin

text \<open>
  The session table of a service (\<^verbatim>\<open>rskynet-core/src/session.rs\<close>): a pending call or sleep is a
  session that waits for its reply.  Wakers are values of a type \<^verbatim>\<open>'w\<close>; \<^verbatim>\<open>Waker::will_wake\<close> is the
  parameter \<^verbatim>\<open>will_wake\<close>, and the wakers an operation wakes are part of its result.  The lemmas show
  that allocation terminates and issues a non-zero free number, that the gauge \<^verbatim>\<open>active\<close> counts the
  table exactly, and that a waiting session receives its first reply once and only once.
\<close>

section \<open>State\<close>

text \<open>The type \<^verbatim>\<open>'b\<close> is that of the objects a reply payload may box.\<close>

datatype ('b, 'w) slot = Waiting "'w option" | Done "'b payload result"

record ('b, 'w) session_table =
  st_next :: u64
  st_slots :: "u64 \<Rightarrow> ('b, 'w) slot option"
  st_active :: u64

datatype 'r poll = Pending | Ready 'r

definition new_sessions :: "('b, 'w) session_table" where
  "new_sessions = \<lparr>st_next = 0, st_slots = Map.empty, st_active = 0\<rparr>"

section \<open>Operations\<close>

definition bump :: "u64 \<Rightarrow> u64" where
  "bump n = (if n + 1 = 0 then 1 else n + 1)"

partial_function (option) alloc_loop ::
  "u64 \<Rightarrow> (u64 \<Rightarrow> ('b, 'w) slot option) \<Rightarrow> u64 option" where
  "alloc_loop nx m =
     (let session = bump nx in if m session = None then Some session else alloc_loop session m)"

definition alloc_session ::
  "('b, 'w) session_table \<Rightarrow> (u64 \<times> ('b, 'w) session_table) option" where
  "alloc_session t =
     map_option
       (\<lambda>session. (session, t\<lparr>st_next := session, st_slots := (st_slots t)(session \<mapsto> Waiting None),
                              st_active := st_active t + 1\<rparr>))
       (alloc_loop (st_next t) (st_slots t))"

definition complete ::
  "u64 \<Rightarrow> 'b payload result \<Rightarrow> ('b, 'w) session_table \<Rightarrow> bool \<times> 'w list \<times> ('b, 'w) session_table" where
  "complete session result t =
     (case st_slots t session of
        None \<Rightarrow> (False, [], t)
      | Some (Done r) \<Rightarrow> (False, [], t)
      | Some (Waiting w) \<Rightarrow>
          (True, (case w of Some waker \<Rightarrow> [waker] | None \<Rightarrow> []),
           t\<lparr>st_slots := (st_slots t)(session \<mapsto> Done result)\<rparr>))"

definition poll_session ::
  "('w \<Rightarrow> 'w \<Rightarrow> bool) \<Rightarrow> u64 \<Rightarrow> 'w \<Rightarrow> ('b, 'w) session_table \<Rightarrow>
   'b payload result poll \<times> ('b, 'w) session_table" where
  "poll_session will_wake session waker t =
     (case st_slots t session of
        Some (Waiting old) \<Rightarrow>
          (Pending,
           if (case old of Some o' \<Rightarrow> will_wake o' waker | None \<Rightarrow> False) then t
           else t\<lparr>st_slots := (st_slots t)(session \<mapsto> Waiting (Some waker))\<rparr>)
      | Some (Done result) \<Rightarrow>
          (Ready result, t\<lparr>st_slots := (st_slots t)(session := None), st_active := st_active t - 1\<rparr>)
      | None \<Rightarrow> (Ready (Inl Canceled), t))"

definition abandon :: "u64 \<Rightarrow> ('b, 'w) session_table \<Rightarrow> ('b, 'w) session_table" where
  "abandon session t =
     (if st_slots t session \<noteq> None
      then t\<lparr>st_slots := (st_slots t)(session := None), st_active := st_active t - 1\<rparr>
      else t)"

definition clear_sessions :: "('b, 'w) session_table \<Rightarrow> ('b, 'w) session_table" where
  "clear_sessions t = t\<lparr>st_slots := Map.empty, st_active := 0\<rparr>"

definition pending_sessions :: "('b, 'w) session_table \<Rightarrow> u64" where
  "pending_sessions t = st_active t"

section \<open>Invariant\<close>

text \<open>Zero stands for ``no reply wanted'' and is never issued; the gauge is the table's size.\<close>

definition session_inv :: "('b, 'w) session_table \<Rightarrow> bool" where [inv_defs]:
  "session_inv t = (0 \<notin> dom (st_slots t) \<and> unat (st_active t) = card (dom (st_slots t)))"

text \<open>Before the counter wraps, every live session is at most the last one issued.\<close>

definition session_young :: "('b, 'w) session_table \<Rightarrow> bool" where [inv_defs]:
  "session_young t = (session_inv t \<and> (\<forall>k \<in> dom (st_slots t). k \<le> st_next t))"

definition young_alloc ::
  "unit \<Rightarrow> ('b, 'w) session_table \<Rightarrow> (u64 \<times> ('b, 'w) session_table) option" where
  "young_alloc _ t = (if st_next t = - 1 then None else alloc_session t)"

lemma finite_u64_set [simp]: "finite (A :: u64 set)"
  by (rule finite_subset [OF subset_UNIV]) simp

section \<open>Allocation terminates\<close>

definition distance :: "u64 \<Rightarrow> u64 \<Rightarrow> nat" where
  "distance n f = (if n < f then unat f - unat n else unat f + (2 ^ 64 - 1 - unat n))"

lemma bump_nonzero: "bump n \<noteq> 0"
  by (simp add: bump_def)

lemma unat_succ_nonzero: "n + 1 \<noteq> 0 \<Longrightarrow> unat (n + 1) = unat n + 1" for n :: u64
  by (metis add.commute unatSuc Suc_eq_plus1)

lemma word_succ_zero: "n + 1 = 0 \<Longrightarrow> unat n = 2 ^ 64 - 1" for n :: u64
proof -
  assume "n + 1 = 0"
  then have "n = - 1" by (metis add.commute add_eq_0_iff)
  then show ?thesis by simp
qed

lemma distance_bump:
  assumes "f \<noteq> 0" "bump n \<noteq> f"
  shows "distance (bump n) f < distance n f"
proof (cases "n + 1 = 0")
  case True
  then have "bump n = 1" "unat n = 2 ^ 64 - 1" by (simp_all add: bump_def word_succ_zero)
  moreover have "unat f \<noteq> 0" "unat f \<noteq> 1"
    using assms \<open>bump n = 1\<close> unat_eq_iff [of f 1] by (auto simp: unat_eq_zero)
  ultimately show ?thesis
    using unat_less_u64 [of f] by (auto simp: distance_def word_less_nat_alt simp del: unat_less_u64)
next
  case False
  then have b: "unat (bump n) = unat n + 1" by (simp add: bump_def unat_succ_nonzero)
  then have "unat f \<noteq> unat n + 1" using assms(2) unat_eq_iff [of "bump n" f] by simp
  then show ?thesis
    using b unat_less_u64 [of "bump n"] by (auto simp: distance_def word_less_nat_alt simp del: unat_less_u64)
qed

lemma alloc_loop_finds:
  assumes "f \<noteq> 0" "m f = None"
  shows "\<exists>k. alloc_loop n m = Some k \<and> k \<noteq> 0 \<and> m k = None"
proof (induction "distance n f" arbitrary: n rule: less_induct)
  case less
  show ?case
  proof (cases "m (bump n) = None")
    case True
    then show ?thesis by (subst alloc_loop.simps) (simp add: bump_nonzero)
  next
    case False
    then obtain y where y: "m (bump n) = Some y" by auto
    then have "bump n \<noteq> f" using assms by auto
    then have "\<exists>k. alloc_loop (bump n) m = Some k \<and> k \<noteq> 0 \<and> m k = None"
      using less distance_bump assms by blast
    then show ?thesis using y by (simp add: alloc_loop.simps [of n] Let_def)
  qed
qed

lemma alloc_loop_first: "m (bump n) = None \<Longrightarrow> alloc_loop n m = Some (bump n)"
  by (subst alloc_loop.simps) simp

section \<open>Every operation keeps the invariant\<close>

lemma unat_inc_u64: "unat a + 1 < 2 ^ 64 \<Longrightarrow> unat (a + 1) = unat a + 1" for a :: u64
  using unat_add_no_wrap [of a 1] by simp

lemma unat_dec_u64: "0 < unat a \<Longrightarrow> unat (a - 1) = unat a - 1" for a :: u64
  by (simp add: unat_sub word_le_nat_alt)

lemma card_dom_bound:
  fixes m :: "u64 \<Rightarrow> 'a option"
  assumes "0 \<notin> dom m"
  shows "card (dom m) \<le> 2 ^ 64 - 1"
proof -
  have "card (dom m) \<le> card (UNIV - {0 :: u64})"
    using assms by (intro card_mono) auto
  then show ?thesis by (simp add: card_Diff_singleton card_word)
qed

lemma alloc_session_Some:
  assumes "alloc_session t = Some (k, t')"
  shows "alloc_loop (st_next t) (st_slots t) = Some k"
    "t' = t\<lparr>st_next := k, st_slots := (st_slots t)(k \<mapsto> Waiting None), st_active := st_active t + 1\<rparr>"
  using assms by (auto simp: alloc_session_def)

lemma free_session_exists:
  assumes "session_inv t" "unat (st_active t) < 2 ^ 64 - 1"
  shows "\<exists>f. f \<noteq> 0 \<and> st_slots t f = None"
proof (rule ccontr)
  assume "\<not> ?thesis"
  then have "dom (st_slots t) = UNIV - {0}" using assms(1) by (auto simp: session_inv_def)
  then show False using assms by (simp add: session_inv_def card_Diff_singleton card_word)
qed

lemma alloc_loop_fresh: "alloc_loop n m = Some k \<Longrightarrow> m k = None \<and> k \<noteq> 0"
  by (erule alloc_loop.raw_induct [rotated]) (auto simp: Let_def bump_nonzero split: if_splits)

lemma alloc_session_spec:
  assumes inv: "session_inv t" and room: "unat (st_active t) < 2 ^ 64 - 1"
  obtains k where "alloc_session t = Some (k, t\<lparr>st_next := k,
      st_slots := (st_slots t)(k \<mapsto> Waiting None), st_active := st_active t + 1\<rparr>)"
    "k \<noteq> 0" "st_slots t k = None"
  using alloc_loop_finds [of _ "st_slots t" "st_next t"] free_session_exists [OF inv room]
  by (auto simp: alloc_session_def)

lemma alloc_session_inv:
  assumes inv: "session_inv t" and a: "alloc_session t = Some (k, t')"
  shows "session_inv t'"
proof -
  note t' = alloc_session_Some(2) [OF a]
  have k: "st_slots t k = None" "k \<noteq> 0"
    using alloc_loop_fresh [OF alloc_session_Some(1) [OF a]] by auto
  then have dom: "dom (st_slots t') = insert k (dom (st_slots t))" "k \<notin> dom (st_slots t)"
    by (auto simp: t')
  then have "card (dom (st_slots t')) = card (dom (st_slots t)) + 1" by simp
  moreover have "card (dom (st_slots t')) \<le> 2 ^ 64 - 1"
    using inv k dom by (intro card_dom_bound) (auto simp: session_inv_def)
  ultimately show ?thesis
    using inv k dom by (auto simp: session_inv_def t' unat_inc_u64)
qed

lemma remove_session_inv:
  assumes inv: "session_inv t" and k: "st_slots t k \<noteq> None"
  shows "session_inv (t\<lparr>st_slots := (st_slots t)(k := None), st_active := st_active t - 1\<rparr>)"
proof -
  have "k \<in> dom (st_slots t)" using k by auto
  then have "0 < card (dom (st_slots t))" by (auto simp: card_gt_0_iff)
  then show ?thesis
    using inv \<open>k \<in> dom (st_slots t)\<close> by (auto simp: session_inv_def unat_dec_u64 card_Diff_singleton)
qed

lemma replace_session_inv:
  "\<lbrakk>session_inv t; st_slots t k \<noteq> None\<rbrakk> \<Longrightarrow> session_inv (t\<lparr>st_slots := (st_slots t)(k \<mapsto> v)\<rparr>)"
  by (auto simp: session_inv_def insert_absorb domIff dom_fun_upd)

lemma complete_inv: "session_inv t \<Longrightarrow> session_inv (snd (snd (complete k r t)))"
  by (auto simp: complete_def replace_session_inv split: option.splits slot.splits)

lemma poll_session_inv: "session_inv t \<Longrightarrow> session_inv (snd (poll_session ww k w t))"
  by (auto simp: poll_session_def replace_session_inv remove_session_inv split: option.splits slot.splits)

lemma abandon_inv: "session_inv t \<Longrightarrow> session_inv (abandon k t)"
  by (auto simp: abandon_def remove_session_inv)

lemma clear_sessions_inv: "session_inv (clear_sessions t)"
  by (simp add: clear_sessions_def session_inv_def)

lemma new_sessions_inv: "session_inv new_sessions"
  by (simp add: new_sessions_def session_inv_def)

lemma abandon_slots [simp]: "st_slots (abandon k t) = (st_slots t)(k := None)"
  by (auto simp: abandon_def)

section \<open>The session table is an identifier table\<close>

lemma alloc_session_table:
  assumes "session_inv t" "alloc_session t = Some (k, t')"
  shows "session_inv t'" "st_slots t k = None" "st_slots t' = (st_slots t)(k \<mapsto> Waiting None)"
  using alloc_session_inv [OF assms] alloc_session_Some [OF assms(2)]
    alloc_loop_fresh [of "st_next t" "st_slots t" k] by simp_all

interpretation sessions: id_table session_inv st_slots "\<lambda>_. True" "\<lambda>_ _. Waiting None" "\<lambda>_. alloc_session" abandon
  by unfold_locales (auto dest: alloc_session_table abandon_inv)

lemma young_alloc_spec:
  assumes y: "session_young t" and a: "young_alloc u t = Some (k, t')"
  shows "k = st_next t + 1" "unat k = unat (st_next t) + 1" "session_young t'" "st_next t' = k"
proof -
  have n: "st_next t \<noteq> - 1" and al: "alloc_session t = Some (k, t')"
    using a by (auto simp: young_alloc_def split: if_splits)
  have nz: "st_next t + 1 \<noteq> 0" using n by (metis add.commute add_eq_0_iff)
  then have succ: "unat (st_next t + 1) = unat (st_next t) + 1" by (rule unat_succ_nonzero)
  have "st_slots t (bump (st_next t)) = None"
  proof (rule ccontr)
    assume "st_slots t (bump (st_next t)) \<noteq> None"
    then have "st_next t + 1 \<le> st_next t"
      using y nz by (auto simp: session_young_def bump_def)
    then show False using succ by (simp add: word_le_nat_alt)
  qed
  then show k: "k = st_next t + 1"
    using alloc_session_Some(1) [OF al] nz alloc_loop_first [of "st_slots t" "st_next t"] by (simp add: bump_def)
  show "unat k = unat (st_next t) + 1" using k succ by simp
  show next': "st_next t' = k" using alloc_session_Some(2) [OF al] by simp
  have "st_next t \<le> st_next t + 1" using succ by (simp add: word_le_nat_alt)
  then show "session_young t'"
    using y k alloc_session_inv [OF _ al] unfolding session_young_def alloc_session_Some(2) [OF al]
    by (auto intro: order_trans)
qed

lemma young_alloc_table:
  assumes "session_young t" "young_alloc u t = Some (k, t')"
  shows "session_young t'" "st_slots t k = None" "st_slots t' = (st_slots t)(k \<mapsto> Waiting None)"
    "unat k = unat (st_next t) + 1 \<and> unat k = unat (st_next t')"
proof -
  have al: "alloc_session t = Some (k, t')" "session_inv t"
    using assms by (auto simp: young_alloc_def session_young_def split: if_splits)
  show "session_young t'" "st_slots t k = None" "st_slots t' = (st_slots t)(k \<mapsto> Waiting None)"
    "unat k = unat (st_next t) + 1 \<and> unat k = unat (st_next t')"
    using young_alloc_spec [OF assms] alloc_session_table [OF al(2,1)] by simp_all
qed

lemma abandon_next [simp]: "st_next (abandon k t) = st_next t"
  by (simp add: abandon_def)

lemma abandon_young: "session_young t \<Longrightarrow> session_young (abandon k t)"
  using abandon_inv [of t k] by (auto simp: session_young_def)

interpretation young: mono_id_table session_young st_slots "\<lambda>_. True" "\<lambda>_ _. Waiting None" young_alloc abandon
  "\<lambda>t. unat (st_next t) + 1" unat
  by unfold_locales (auto dest: young_alloc_table simp: abandon_young)

section \<open>Traces of a service's session operations\<close>

datatype ('b, 'w) session_op =
  OpAlloc | OpComplete u64 "'b payload result" | OpPoll u64 'w | OpAbandon u64 | OpClear

text \<open>The wakers woken and the table after one operation; a full table never allocates.\<close>

fun session_step ::
  "('w \<Rightarrow> 'w \<Rightarrow> bool) \<Rightarrow> ('b, 'w) session_op \<Rightarrow> ('b, 'w) session_table \<Rightarrow> 'w list \<times> ('b, 'w) session_table" where
  "session_step ww OpAlloc t = (case alloc_session t of Some (k, t') \<Rightarrow> ([], t') | None \<Rightarrow> ([], t))"
| "session_step ww (OpComplete k r) t = snd (complete k r t)"
| "session_step ww (OpPoll k w) t = ([], snd (poll_session ww k w t))"
| "session_step ww (OpAbandon k) t = ([], abandon k t)"
| "session_step ww OpClear t = ([], clear_sessions t)"

fun session_run ::
  "('w \<Rightarrow> 'w \<Rightarrow> bool) \<Rightarrow> ('b, 'w) session_op list \<Rightarrow> ('b, 'w) session_table \<Rightarrow> 'w list \<times> ('b, 'w) session_table" where
  "session_run ww [] t = ([], t)"
| "session_run ww (op # ops) t =
     (let (ws, t') = session_step ww op t; (ws', t'') = session_run ww ops t' in (ws @ ws', t''))"

declare session_run.simps(2) [simp del]

lemma session_run_Cons [simp]:
  "session_run ww (op # ops) t =
     (fst (session_step ww op t) @ fst (session_run ww ops (snd (session_step ww op t))),
      snd (session_run ww ops (snd (session_step ww op t))))"
  by (simp add: session_run.simps(2) split: prod.splits)

fun quiet_for :: "u64 \<Rightarrow> ('b, 'w) session_op \<Rightarrow> bool" where
  "quiet_for k (OpPoll k' w) = (k' \<noteq> k)"
| "quiet_for k (OpAbandon k') = (k' \<noteq> k)"
| "quiet_for k OpClear = False"
| "quiet_for k _ = True"

fun first_reply :: "u64 \<Rightarrow> ('b, 'w) session_op list \<Rightarrow> 'b payload result option" where
  "first_reply k [] = None"
| "first_reply k (OpComplete k' r # ops) = (if k' = k then Some r else first_reply k ops)"
| "first_reply k (_ # ops) = first_reply k ops"

lemma session_step_other:
  assumes "quiet_for k op" "\<And>r. op \<noteq> OpComplete k r" "st_slots t k \<noteq> None"
  shows "st_slots (snd (session_step ww op t)) k = st_slots t k"
proof (cases op)
  case OpAlloc
  then show ?thesis
    using assms(3) alloc_session_Some [of t] alloc_loop_fresh [of "st_next t" "st_slots t"]
    by (fastforce split: option.splits)
qed (use assms in \<open>auto simp: complete_def poll_session_def split: option.splits slot.splits\<close>)

lemma session_step_done:
  assumes "quiet_for k op" "st_slots t k = Some (Done r)"
  shows "st_slots (snd (session_step ww op t)) k = Some (Done r)"
proof (cases "\<exists>r'. op = OpComplete k r'")
  case True
  then show ?thesis using assms(2) by (auto simp: complete_def)
next
  case False
  then show ?thesis using session_step_other [of k op t ww] assms by auto
qed

lemma session_run_done:
  "\<lbrakk>list_all (quiet_for k) ops; st_slots t k = Some (Done r)\<rbrakk>
   \<Longrightarrow> st_slots (snd (session_run ww ops t)) k = Some (Done r)"
proof (induction ops arbitrary: t)
  case (Cons op ops)
  then have "st_slots (snd (session_step ww op t)) k = Some (Done r)"
    by (intro session_step_done) simp_all
  then show ?case
    using Cons by simp
qed simp

lemma session_run_reply:
  "\<lbrakk>list_all (quiet_for k) ops; st_slots t k = Some (Waiting (Some w)); first_reply k ops = Some r\<rbrakk>
   \<Longrightarrow> st_slots (snd (session_run ww ops t)) k = Some (Done r) \<and> w \<in> set (fst (session_run ww ops t))"
proof (induction ops arbitrary: t)
  case (Cons op ops)
  show ?case
  proof (cases "\<exists>r'. op = OpComplete k r'")
    case True
    then have op: "op = OpComplete k r" using Cons.prems by auto
    then have "st_slots (snd (session_step ww op t)) k = Some (Done r)" "w \<in> set (fst (session_step ww op t))"
      using Cons.prems by (auto simp: complete_def)
    then show ?thesis
      using session_run_done [of k ops "snd (session_step ww op t)" r ww] Cons.prems
      by simp
  next
    case False
    then have "st_slots (snd (session_step ww op t)) k = Some (Waiting (Some w))" "first_reply k ops = Some r"
      using session_step_other [of k op t ww] Cons.prems by (cases op; auto)+
    then show ?thesis
      using Cons by simp
  qed
qed simp

section \<open>A session that is gone stays gone\<close>

lemma complete_slots: "dom (st_slots (snd (snd (complete k r t)))) = dom (st_slots t)"
  "st_next (snd (snd (complete k r t))) = st_next t"
  by (auto simp: complete_def split: option.splits slot.splits)

lemma poll_slots: "dom (st_slots (snd (poll_session ww k w t))) \<subseteq> dom (st_slots t)"
  "st_next (snd (poll_session ww k w t)) = st_next t"
  by (auto simp: poll_session_def split: option.splits slot.splits if_splits)

lemma session_step_young:
  assumes y: "session_young t" and n: "st_next t \<noteq> - 1"
  shows "session_young (snd (session_step ww op t))"
    "unat (st_next (snd (session_step ww op t))) \<in> {unat (st_next t), unat (st_next t) + 1}"
    "dom (st_slots (snd (session_step ww op t))) \<subseteq> dom (st_slots t) \<union> {k. st_next t < k}"
proof -
  have inv: "session_inv t" and le: "\<forall>k \<in> dom (st_slots t). k \<le> st_next t"
    using y by (simp_all add: session_young_def)
  have "session_young (snd (session_step ww op t)) \<and>
    unat (st_next (snd (session_step ww op t))) \<in> {unat (st_next t), unat (st_next t) + 1} \<and>
    dom (st_slots (snd (session_step ww op t))) \<subseteq> dom (st_slots t) \<union> {k. st_next t < k}"
  proof (cases op)
    case OpAlloc
    show ?thesis
    proof (cases "alloc_session t")
      case (Some kt)
      then have "young_alloc () t = Some (fst kt, snd kt)" using n by (simp add: young_alloc_def)
      from young_alloc_table [OF y this] show ?thesis
        using OpAlloc Some by (auto simp: word_less_nat_alt split: prod.splits if_splits)
    qed (use OpAlloc y in simp)
  next
    case (OpComplete k r)
    then show ?thesis
      using complete_inv [OF inv, of k r] complete_slots [of k r t] le by (auto simp: session_young_def)
  next
    case (OpPoll k w)
    then show ?thesis
      using poll_session_inv [OF inv, of ww k w] poll_slots [of ww k w t] le by (auto simp: session_young_def)
  next
    case (OpAbandon k)
    then show ?thesis using abandon_young [OF y] by auto
  next
    case OpClear
    then show ?thesis
      using clear_sessions_inv [of t] by (auto simp: session_young_def clear_sessions_def)
  qed
  then show "session_young (snd (session_step ww op t))"
    "unat (st_next (snd (session_step ww op t))) \<in> {unat (st_next t), unat (st_next t) + 1}"
    "dom (st_slots (snd (session_step ww op t))) \<subseteq> dom (st_slots t) \<union> {k. st_next t < k}" by blast+
qed

lemma session_run_stale:
  "\<lbrakk>session_young t; unat (st_next t) + length ops < 2 ^ 64; k \<le> st_next t; st_slots t k = None\<rbrakk>
   \<Longrightarrow> st_slots (snd (session_run ww ops t)) k = None \<and> session_inv (snd (session_run ww ops t))"
proof (induction ops arbitrary: t)
  case (Cons op ops)
  let ?t = "snd (session_step ww op t)"
  have "st_next t \<noteq> - 1" using Cons.prems(2) by (auto simp del: unat_less_u64)
  note step = session_step_young [OF Cons.prems(1) this, of ww op]
  have "unat k \<le> unat (st_next ?t)" "unat (st_next ?t) + length ops < 2 ^ 64"
    using step(2) Cons.prems(2,3) by (auto simp: word_le_nat_alt)
  moreover have "k \<notin> dom (st_slots ?t)" using step(3) Cons.prems(3,4) by auto
  ultimately show ?case
    using Cons.IH [OF step(1)] by (auto simp: word_le_nat_alt)
qed (simp add: session_young_def)

section \<open>Properties\<close>

text \<open>
  C20: As long as fewer than $2^{64}-1$ sessions are live, allocating a session terminates, also when
  the counter wraps around and has to skip live numbers: it returns a non-zero number that was not
  live, registers it as waiting, and the table stays well formed with its gauge one higher.
\<close>

theorem alloc_session_total:
  assumes "session_inv t" and "unat (st_active t) < 2 ^ 64 - 1"
  shows "\<exists>k t'. alloc_session t = Some (k, t') \<and> k \<noteq> 0 \<and> st_slots t k = None \<and>
           st_slots t' = (st_slots t)(k \<mapsto> Waiting None) \<and> session_inv t' \<and>
           unat (pending_sessions t') = unat (pending_sessions t) + 1"
proof -
  obtain k where k: "alloc_session t = Some (k, t\<lparr>st_next := k,
      st_slots := (st_slots t)(k \<mapsto> Waiting None), st_active := st_active t + 1\<rparr>)" "k \<noteq> 0" "st_slots t k = None"
    using alloc_session_spec [OF assms] .
  then show ?thesis
    using alloc_session_inv [OF assms(1) k(1)] assms(2) by (auto simp: pending_sessions_def unat_inc_u64)
qed

theorem alloc_session_total_witness:
  "\<exists>k t' :: (unit, unit) session_table.
     alloc_session \<lparr>st_next = - 1, st_slots = [1 \<mapsto> Waiting None], st_active = 1\<rparr> = Some (k, t') \<and>
     k \<noteq> 0 \<and> k \<noteq> 1 \<and> pending_sessions t' = 2"
proof -
  let ?t = "\<lparr>st_next = - 1, st_slots = [1 \<mapsto> Waiting None], st_active = 1\<rparr> ::
    (unit, unit) session_table"
  obtain k t' where "alloc_session ?t = Some (k, t')" "k \<noteq> 0" "st_slots ?t k = None"
    "unat (pending_sessions t') = 2"
    using alloc_session_total [of ?t] by (auto simp: session_inv_def pending_sessions_def)
  moreover from this have "pending_sessions t' = 2" using unat_eq_iff [of "pending_sessions t'" 2] by simp
  ultimately show ?thesis by (auto split: if_splits)
qed

text \<open>
  C18: A session that waits with a registered waker and whose reply arrives while the waiter neither
  polls nor gives up receives exactly the first reply: the waker is woken, later replies and every
  operation on other sessions leave it untouched, the next poll returns that reply, and the poll
  after it reports cancellation because the entry is gone.
\<close>

theorem session_receives_first_reply:
  assumes "st_slots t k = Some (Waiting (Some w))" and "list_all (quiet_for k) ops"
    and "first_reply k ops = Some r"
  shows "w \<in> set (fst (session_run ww ops t)) \<and>
     (case poll_session ww k w' (snd (session_run ww ops t)) of
        (p, t') \<Rightarrow> p = Ready r \<and> fst (poll_session ww k w' t') = Ready (Inl Canceled))"
  using session_run_reply [OF assms(2,1,3), of ww] by (auto simp: poll_session_def)

theorem session_receives_first_reply_witness:
  "fst (poll_session (=) 1 (7 :: nat)
      (snd (session_run (=) [OpComplete 1 (Inr (PBoxed True)), OpAlloc, OpComplete 1 (Inr PNone)]
         \<lparr>st_next = 1, st_slots = [1 \<mapsto> Waiting (Some 7)], st_active = 1\<rparr>))) = Ready (Inr (PBoxed True))"
  using session_receives_first_reply [of "\<lparr>st_next = 1, st_slots = [1 \<mapsto> Waiting (Some 7)], st_active = 1\<rparr>" 1 "7 :: nat"
      "[OpComplete 1 (Inr (PBoxed True)), OpAlloc, OpComplete 1 (Inr PNone)]" "Inr (PBoxed True)" "(=)" 7]
  by (simp add: case_prod_beta del: session_run_Cons)

text \<open>
  C19: Until the 64-bit counter is exhausted, a session number that has been issued and is no longer
  in the table is never answered again: after any further operations a late reply to it is
  dropped without effect, and polling it reports cancellation.
\<close>

theorem stale_session_is_dead:
  assumes "session_young t" and "unat (st_next t) + length ops < 2 ^ 64"
    and "k \<le> st_next t" and "st_slots t k = None"
  shows "let t' = snd (session_run ww ops t) in
    complete k r t' = (False, [], t') \<and> poll_session ww k w t' = (Ready (Inl Canceled), t')"
  using session_run_stale [OF assms, of ww] by (simp add: complete_def poll_session_def Let_def)

theorem stale_session_is_dead_witness:
  "let t' = snd (session_run (=) [OpAlloc, OpAlloc]
       \<lparr>st_next = 1, st_slots = Map.empty, st_active = 0\<rparr>) in
   complete 1 (Inr (PBoxed ())) t' = (False, [] :: nat list, t')"
  using stale_session_is_dead [of "\<lparr>st_next = 1, st_slots = Map.empty, st_active = 0\<rparr> :: (unit, nat) session_table"
      "[OpAlloc, OpAlloc]" 1 "(=)" "Inr (PBoxed ())" 0]
  by (simp add: session_young_def session_inv_def Let_def)

text \<open>
  Along any sequence of allocations and abandonments that does not exhaust the counter, the
  issued session numbers are strictly increasing, and the table equals the abstract map of the
  sessions issued and not abandoned.
\<close>

theorem sessions_issued_increasing:
  assumes "exec_ops young_alloc abandon ops new_sessions = Some (ks, t)"
  shows "sorted_wrt (<) ks \<and> st_slots t = spec_ops (\<lambda>_ _. Waiting None) ops ks Map.empty"
proof -
  have y: "session_young new_sessions" by (simp add: session_young_def new_sessions_inv) (simp add: new_sessions_def)
  have all: "list_all (op_ok (\<lambda>_. True)) ops"
    unfolding list_all_iff by (metis op_ok.simps table_op.exhaust)
  show ?thesis
    using young.issued_increasing [OF y all assms] young.exec_refines [OF y all assms]
    by (simp add: sorted_wrt_map word_less_nat_alt [abs_def] new_sessions_def)
qed

theorem sessions_issued_increasing_witness:
  "\<exists>t :: (unit, unit) session_table. exec_ops young_alloc abandon [Ins (), Del 1] new_sessions = Some ([1], t) \<and>
     st_slots t = Map.empty"
proof -
  have eval: "exec_ops young_alloc abandon [Ins (), Del 1] new_sessions =
    Some ([1], abandon 1 \<lparr>st_next = 1, st_slots = [1 \<mapsto> Waiting None], st_active = 1\<rparr> :: (unit, unit) session_table)"
    by (simp add: young_alloc_def alloc_session_def new_sessions_def alloc_loop_first bump_def)
  show ?thesis
    using sessions_issued_increasing [OF eval] eval by auto
qed

end
