(* ===== verification/Task.thy ===== *)
theory Task
  imports Tables
begin

text \<open>
  The task set of a service and the cell that guards single-threaded service state
  (\<^verbatim>\<open>rskynet-core/src/task.rs\<close>).  Futures are values of a type \<^verbatim>\<open>'f\<close>.  The slab crate is a list of
  entries whose choice of a vacant key is the parameter \<^verbatim>\<open>vk\<close>; what is used of it is that the key
  is vacant or the end of the list.  The wake-up flag that a task slot shares with its wakers is a
  cell of the store \<^verbatim>\<open>ts_signals\<close> addressed by the task's generation.  The lemmas show that a task
  identifier, a slot number with a generation, is never answered by a later task in the same slot.
\<close>

section \<open>The cell of single-threaded state\<close>

record 'a svc_cell =
  cell_inner :: 'a
  cell_borrowed :: bool

definition new_cell :: "'a \<Rightarrow> 'a svc_cell" where
  "new_cell v = \<lparr>cell_inner = v, cell_borrowed = False\<rparr>"

text \<open>A guard is represented by the right to drop it; taking one while another is out panics.\<close>

definition lease :: "'a svc_cell \<Rightarrow> 'a svc_cell outcome" where
  "lease c = (if cell_borrowed c then Inl (Panic ''SvcCell already borrowed'')
              else Inr (c\<lparr>cell_borrowed := True\<rparr>))"

definition drop_lease :: "'a svc_cell \<Rightarrow> 'a svc_cell" where
  "drop_lease c = c\<lparr>cell_borrowed := False\<rparr>"

definition cell_replace :: "'a \<Rightarrow> 'a svc_cell \<Rightarrow> ('a \<times> 'a svc_cell) outcome" where
  "cell_replace v c =
     (case lease c of Inl p \<Rightarrow> Inl p | Inr c' \<Rightarrow> Inr (cell_inner c', drop_lease (c'\<lparr>cell_inner := v\<rparr>)))"

definition cell_get :: "'a svc_cell \<Rightarrow> ('a \<times> 'a svc_cell) outcome" where
  "cell_get c = (case lease c of Inl p \<Rightarrow> Inl p | Inr c' \<Rightarrow> Inr (cell_inner c', drop_lease c'))"

definition cell_set :: "'a \<Rightarrow> 'a svc_cell \<Rightarrow> 'a svc_cell outcome" where
  "cell_set v c = (case lease c of Inl p \<Rightarrow> Inl p | Inr c' \<Rightarrow> Inr (drop_lease (c'\<lparr>cell_inner := v\<rparr>)))"

section \<open>Tasks\<close>

record task_id =
  tid_index :: nat
  tid_generation :: u64

record 'f task_slot =
  slot_future :: "'f option"
  slot_generation :: u64
  slot_request :: "(u64 \<times> u64) option"
  slot_source :: u64

record 'f task_set =
  ts_slots :: "'f task_slot option list"
  ts_signals :: "u64 \<Rightarrow> bool"
  ts_next_generation :: u64
  ts_count :: nat

definition new_tasks :: "'f task_set" where
  "new_tasks = \<lparr>ts_slots = [], ts_signals = (\<lambda>_. False), ts_next_generation = 0, ts_count = 0\<rparr>"

section \<open>The slab\<close>

definition slab_get :: "'a option list \<Rightarrow> nat \<Rightarrow> 'a option" where
  "slab_get es i = (if i < length es then es ! i else None)"

definition slab_put :: "nat \<Rightarrow> 'a \<Rightarrow> 'a option list \<Rightarrow> 'a option list" where
  "slab_put i x es = (if i < length es then es[i := Some x] else es @ [Some x])"

definition slab_len :: "'a option list \<Rightarrow> nat" where
  "slab_len es = length (filter (\<lambda>e. e \<noteq> None) es)"

text \<open>The documented behaviour of \<^verbatim>\<open>Slab::vacant_entry\<close>: its key is not occupied.\<close>

definition vacant_ok :: "('a option list \<Rightarrow> nat) \<Rightarrow> bool" where
  "vacant_ok vk = (\<forall>es. vk es \<le> length es \<and> slab_get es (vk es) = None)"

section \<open>Operations\<close>

definition insert_task ::
  "('f task_slot option list \<Rightarrow> nat) \<Rightarrow> 'f \<Rightarrow> (u64 \<times> u64) option \<Rightarrow> u64 \<Rightarrow> 'f task_set \<Rightarrow> task_id \<times> 'f task_set" where
  "insert_task vk fut request source ts =
     (let generation = ts_next_generation ts + 1;
          index = vk (ts_slots ts);
          slots = slab_put index \<lparr>slot_future = Some fut, slot_generation = generation,
                                  slot_request = request, slot_source = source\<rparr> (ts_slots ts)
      in (\<lparr>tid_index = index, tid_generation = generation\<rparr>,
          \<lparr>ts_slots = slots, ts_signals = (ts_signals ts)(generation := True),
           ts_next_generation = generation, ts_count = slab_len slots\<rparr>))"

definition find_task :: "'f task_set \<Rightarrow> task_id \<Rightarrow> 'f task_slot option" where
  "find_task ts task =
     (case slab_get (ts_slots ts) (tid_index task) of
        Some sl \<Rightarrow> if slot_generation sl = tid_generation task then Some sl else None
      | None \<Rightarrow> None)"

definition take_task :: "task_id \<Rightarrow> 'f task_set \<Rightarrow> ('f \<times> u64) option \<times> 'f task_set" where
  "take_task task ts =
     (case slab_get (ts_slots ts) (tid_index task) of
        None \<Rightarrow> (None, ts)
      | Some sl \<Rightarrow>
          if slot_generation sl \<noteq> tid_generation task then (None, ts)
          else (case slot_future sl of
                  None \<Rightarrow> (None, ts)
                | Some fut \<Rightarrow>
                    (Some (fut, slot_source sl),
                     ts\<lparr>ts_slots := (ts_slots ts)[tid_index task := Some (sl\<lparr>slot_future := None\<rparr>)],
                        ts_signals := (ts_signals ts)(slot_generation sl := False)\<rparr>)))"

definition restore_task :: "task_id \<Rightarrow> 'f \<Rightarrow> 'f task_set \<Rightarrow> 'f task_set" where
  "restore_task task fut ts =
     (case slab_get (ts_slots ts) (tid_index task) of
        None \<Rightarrow> ts
      | Some sl \<Rightarrow>
          if slot_generation sl \<noteq> tid_generation task then ts
          else ts\<lparr>ts_slots := (ts_slots ts)[tid_index task := Some (sl\<lparr>slot_future := Some fut\<rparr>)]\<rparr>)"

definition remove_task :: "task_id \<Rightarrow> 'f task_set \<Rightarrow> 'f task_set" where
  "remove_task task ts =
     (if (case slab_get (ts_slots ts) (tid_index task) of
            Some sl \<Rightarrow> slot_generation sl = tid_generation task | None \<Rightarrow> False)
      then (let slots = (ts_slots ts)[tid_index task := None]
            in ts\<lparr>ts_slots := slots, ts_count := slab_len slots\<rparr>)
      else ts)"

definition task_len :: "'f task_set \<Rightarrow> nat" where
  "task_len ts = ts_count ts"

definition take_requests :: "'f task_set \<Rightarrow> (u64 \<times> u64) list \<times> 'f task_set" where
  "take_requests ts =
     (List.map_filter (\<lambda>e. case e of Some sl \<Rightarrow> slot_request sl | None \<Rightarrow> None) (ts_slots ts),
      ts\<lparr>ts_slots := map (map_option (\<lambda>sl. sl\<lparr>slot_request := None\<rparr>)) (ts_slots ts)\<rparr>)"

definition drain_tasks :: "'f task_set \<Rightarrow> 'f list \<times> 'f task_set" where
  "drain_tasks ts =
     (List.map_filter (\<lambda>e. case e of Some sl \<Rightarrow> slot_future sl | None \<Rightarrow> None) (ts_slots ts),
      ts\<lparr>ts_slots := [], ts_count := 0\<rparr>)"

text \<open>
  \<^verbatim>\<open>TaskWaker::wake_by_ref\<close>: the flag of the task decides whether the identifier is handed to the
  service again; the result says whether the caller goes on to \<^verbatim>\<open>wake_task\<close>.
\<close>

definition wake_by_ref :: "task_id \<Rightarrow> 'f task_set \<Rightarrow> bool \<times> 'f task_set" where
  "wake_by_ref task ts =
     (if ts_signals ts (tid_generation task) then (False, ts)
      else (True, ts\<lparr>ts_signals := (ts_signals ts)(tid_generation task := True)\<rparr>))"

section \<open>Invariant\<close>

definition task_inv :: "'f task_set \<Rightarrow> bool" where [inv_defs]:
  "task_inv ts =
     (ts_count ts = slab_len (ts_slots ts) \<and>
      (\<forall>i < length (ts_slots ts). \<forall>sl. ts_slots ts ! i = Some sl \<longrightarrow>
         0 < slot_generation sl \<and> slot_generation sl \<le> ts_next_generation ts) \<and>
      (\<forall>i < length (ts_slots ts). \<forall>j < length (ts_slots ts). \<forall>sl sl'.
         ts_slots ts ! i = Some sl \<longrightarrow> ts_slots ts ! j = Some sl' \<longrightarrow>
         slot_generation sl = slot_generation sl' \<longrightarrow> i = j))"

text \<open>Insertion while the generation counter has not reached its end.\<close>

definition task_ins ::
  "('f task_slot option list \<Rightarrow> nat) \<Rightarrow> 'f \<times> (u64 \<times> u64) option \<times> u64 \<Rightarrow> 'f task_set \<Rightarrow>
   (task_id \<times> 'f task_set) option" where
  "task_ins vk a ts =
     (if ts_next_generation ts = - 1 then None
      else (case a of (fut, request, source) \<Rightarrow> Some (insert_task vk fut request source ts)))"

definition task_val :: "task_id \<Rightarrow> 'f \<times> (u64 \<times> u64) option \<times> u64 \<Rightarrow> 'f task_slot" where
  "task_val task a =
     (case a of (fut, request, source) \<Rightarrow>
        \<lparr>slot_future = Some fut, slot_generation = tid_generation task,
         slot_request = request, slot_source = source\<rparr>)"

text \<open>A vacant-key choice that satisfies the assumption: the first vacant entry.\<close>

fun first_vacant :: "'a option list \<Rightarrow> nat" where
  "first_vacant [] = 0"
| "first_vacant (None # es) = 0"
| "first_vacant (Some x # es) = Suc (first_vacant es)"

text \<open>
  The cell shared by several threads: each step is one atomic operation, and the threads that hold
  a guard are recorded.
\<close>

inductive cell_reach :: "'a svc_cell \<Rightarrow> nat set \<Rightarrow> bool" where
  cell_init: "cell_reach (new_cell v) {}"
| cell_lease: "\<lbrakk>cell_reach c H; lease c = Inr c'\<rbrakk> \<Longrightarrow> cell_reach c' (insert t H)"
| cell_write: "\<lbrakk>cell_reach c H; t \<in> H\<rbrakk> \<Longrightarrow> cell_reach (c\<lparr>cell_inner := v\<rparr>) H"
| cell_drop: "\<lbrakk>cell_reach c H; t \<in> H\<rbrakk> \<Longrightarrow> cell_reach (drop_lease c) (H - {t})"

section \<open>Slab facts\<close>

lemma slab_get_put:
  "i \<le> length es \<Longrightarrow> slab_get (slab_put i x es) j = (if j = i then Some x else slab_get es j)"
  by (auto simp: slab_get_def slab_put_def nth_append nth_list_update)

lemma slab_get_update:
  "slab_get (es[i := e]) j = (if j = i \<and> i < length es then e else slab_get es j)"
  by (auto simp: slab_get_def nth_list_update)

lemma slab_get_Some: "slab_get es i = Some x \<longleftrightarrow> i < length es \<and> es ! i = Some x"
  by (auto simp: slab_get_def)

lemma slab_len_update_same:
  "slab_get es i = Some x \<Longrightarrow> slab_len (es[i := Some y]) = slab_len es"
  using length_filter_update [of i es "\<lambda>e. e \<noteq> None" "Some y"] by (auto simp: slab_len_def slab_get_Some)

lemma slab_len_remove:
  "slab_get es i = Some x \<Longrightarrow> slab_len (es[i := None]) + 1 = slab_len es"
  using length_filter_update [of i es "\<lambda>e. e \<noteq> None" None] by (auto simp: slab_len_def slab_get_Some)

lemma slab_len_put:
  "\<lbrakk>i \<le> length es; slab_get es i = None\<rbrakk> \<Longrightarrow> slab_len (slab_put i x es) = slab_len es + 1"
  using length_filter_update [of i es "\<lambda>e. e \<noteq> None" "Some x"]
  by (auto simp: slab_len_def slab_get_def slab_put_def)

lemma vacant_okD: "vacant_ok vk \<Longrightarrow> vk es \<le> length es \<and> slab_get es (vk es) = None"
  by (simp add: vacant_ok_def)

text \<open>The invariant read through \<^verbatim>\<open>slab_get\<close>.\<close>

lemma task_inv_slab:
  "task_inv ts \<longleftrightarrow>
     ts_count ts = slab_len (ts_slots ts) \<and>
     (\<forall>i sl. slab_get (ts_slots ts) i = Some sl \<longrightarrow> 0 < slot_generation sl \<and> slot_generation sl \<le> ts_next_generation ts) \<and>
     (\<forall>i j sl sl'. slab_get (ts_slots ts) i = Some sl \<longrightarrow> slab_get (ts_slots ts) j = Some sl' \<longrightarrow>
        slot_generation sl = slot_generation sl' \<longrightarrow> i = j)"
  unfolding task_inv_def slab_get_Some by blast

lemma find_task_eq:
  "find_task ts task = Some sl \<longleftrightarrow>
     slab_get (ts_slots ts) (tid_index task) = Some sl \<and> slot_generation sl = tid_generation task"
  by (auto simp: find_task_def split: option.splits)

section \<open>Every operation keeps the invariant\<close>

lemma gen_succ:
  "n \<noteq> - 1 \<Longrightarrow> unat (n + 1) = unat n + 1" for n :: u64
proof -
  assume "n \<noteq> - 1"
  then have "1 + n \<noteq> 0" by (metis add_eq_0_iff)
  then show ?thesis by (metis add.commute unatSuc Suc_eq_plus1)
qed

lemma insert_task_inv:
  assumes vk: "vacant_ok vk" and inv: "task_inv ts" and room: "ts_next_generation ts \<noteq> - 1"
  shows "task_inv (snd (insert_task vk fut req src ts))"
proof -
  note vacant = vacant_okD [OF vk, of "ts_slots ts"]
  have gen: "ts_next_generation ts < ts_next_generation ts + 1" "0 < ts_next_generation ts + 1"
    using gen_succ [OF room] by (simp_all add: word_less_nat_alt)
  have old: "slot_generation sl < ts_next_generation ts + 1 \<and> 0 < slot_generation sl"
    if "slab_get (ts_slots ts) i = Some sl" for i sl
    using inv that gen(1) unfolding task_inv_slab by (meson le_less_trans)
  show ?thesis
    using vacant gen old inv unfolding task_inv_slab insert_task_def Let_def
    by (auto simp: slab_get_put slab_len_put split: if_splits) (fastforce dest: old)+
qed

lemma replace_slot_inv:
  assumes inv: "task_inv ts" and sl: "slab_get (ts_slots ts) i = Some sl"
    and gen: "slot_generation sl' = slot_generation sl"
  shows "task_inv (ts\<lparr>ts_slots := (ts_slots ts)[i := Some sl'], ts_signals := sg\<rparr>)"
proof -
  have "i < length (ts_slots ts)" using sl by (simp add: slab_get_Some)
  then show ?thesis
    using inv sl gen unfolding task_inv_slab
    by (auto simp: slab_get_update slab_len_update_same split: if_splits)
qed

lemma take_task_inv: "task_inv ts \<Longrightarrow> task_inv (snd (take_task task ts))"
  using replace_slot_inv [of ts "tid_index task"]
  by (auto simp: take_task_def split: option.splits)

lemma restore_task_inv: "task_inv ts \<Longrightarrow> task_inv (restore_task task fut ts)"
  using replace_slot_inv [of ts "tid_index task" _ _ "ts_signals ts"]
  by (fastforce simp: restore_task_def split: option.splits)

lemma remove_task_hit:
  "find_task ts task = Some sl \<Longrightarrow>
   remove_task task ts = ts\<lparr>ts_slots := (ts_slots ts)[tid_index task := None],
     ts_count := slab_len ((ts_slots ts)[tid_index task := None])\<rparr>"
  by (simp add: find_task_eq remove_task_def Let_def)

lemma remove_task_miss: "find_task ts task = None \<Longrightarrow> remove_task task ts = ts"
  by (auto simp: find_task_def remove_task_def split: option.splits)

lemma remove_task_inv: "task_inv ts \<Longrightarrow> task_inv (remove_task task ts)"
proof (cases "find_task ts task")
  case (Some sl)
  assume "task_inv ts"
  then show ?thesis
    unfolding task_inv_slab remove_task_hit [OF Some] by (auto simp: slab_get_update split: if_splits)
qed (simp add: remove_task_miss)

lemma slab_len_map_option [simp]: "slab_len (map (map_option f) es) = slab_len es"
  by (induction es) (auto simp: slab_len_def)

lemma slab_get_map_option: "slab_get (map (map_option f) es) i = map_option f (slab_get es i)"
  by (simp add: slab_get_def)

lemma take_requests_inv: "task_inv ts \<Longrightarrow> task_inv (snd (take_requests ts))"
  unfolding task_inv_slab take_requests_def by (auto simp: slab_get_map_option)

lemma drain_tasks_inv: "task_inv (snd (drain_tasks ts))"
  by (simp add: drain_tasks_def task_inv_def slab_len_def)

lemma new_tasks_inv: "task_inv new_tasks"
  by (simp add: new_tasks_def task_inv_def slab_len_def)

section \<open>The task set is an identifier table\<close>

lemma insert_task_find:
  assumes vk: "vacant_ok vk" and inv: "task_inv ts" and room: "ts_next_generation ts \<noteq> - 1"
    and ins: "insert_task vk fut req src ts = (task, ts')"
  shows "find_task ts task = None"
    "find_task ts' = (find_task ts)(task \<mapsto> task_val task (fut, req, src))"
    "unat (tid_generation task) = unat (ts_next_generation ts) + 1"
    "ts_next_generation ts' = tid_generation task"
proof -
  note vacant = vacant_okD [OF vk, of "ts_slots ts"]
  have task: "task = \<lparr>tid_index = vk (ts_slots ts), tid_generation = ts_next_generation ts + 1\<rparr>"
    and slots: "ts_slots ts' = slab_put (vk (ts_slots ts)) (task_val task (fut, req, src)) (ts_slots ts)"
    using ins by (auto simp: insert_task_def task_val_def Let_def)
  show "find_task ts task = None" using vacant by (simp add: task find_task_def)
  show "find_task ts' = (find_task ts)(task \<mapsto> task_val task (fut, req, src))"
    using vacant slots by (auto simp: fun_eq_iff find_task_def slab_get_put task task_val_def split: if_splits)
  show "unat (tid_generation task) = unat (ts_next_generation ts) + 1"
    using gen_succ [OF room] by (simp add: task)
  show "ts_next_generation ts' = tid_generation task"
    using ins by (auto simp: insert_task_def Let_def)
qed

lemma remove_task_find:
  assumes "task_inv ts"
  shows "find_task (remove_task task ts) = (find_task ts)(task := None)"
proof (cases "find_task ts task")
  case (Some sl)
  then have "tid_index task < length (ts_slots ts)" by (simp add: find_task_eq slab_get_Some)
  then show ?thesis
    using Some unfolding remove_task_hit [OF Some] find_task_eq
    by (auto simp: fun_eq_iff find_task_def slab_get_update split: option.splits)
qed (auto simp: remove_task_miss)

lemma remove_task_gen [simp]: "ts_next_generation (remove_task task ts) = ts_next_generation ts"
  by (simp add: remove_task_def Let_def)

lemma task_table:
  assumes vk: "vacant_ok vk"
  shows "mono_id_table task_inv find_task (\<lambda>_. True) task_val (task_ins vk) remove_task
    (\<lambda>ts. unat (ts_next_generation ts) + 1) (\<lambda>task. unat (tid_generation task))"
proof
  fix ts :: "'a task_set" and a task ts'
  assume inv: "task_inv ts" and "task_ins vk a ts = Some (task, ts')"
  then obtain fut req src where room: "ts_next_generation ts \<noteq> - 1" and a: "a = (fut, req, src)"
    and ins: "insert_task vk fut req src ts = (task, ts')"
    by (auto simp: task_ins_def split: if_splits prod.splits)
  note found = insert_task_find [OF vk inv room ins]
  show "task_inv ts'" using insert_task_inv [OF vk inv room, of fut req src] ins by simp
  show "find_task ts task = None" by (rule found)
  show "find_task ts' = (find_task ts)(task \<mapsto> task_val task a)" using found a by simp
  show "unat (ts_next_generation ts) + 1 \<le> unat (tid_generation task) \<and>
      unat (tid_generation task) < unat (ts_next_generation ts') + 1" using found by simp
qed (simp_all add: remove_task_inv remove_task_find)

lemma first_vacant_ok: "vacant_ok first_vacant"
proof -
  have "first_vacant es \<le> length es \<and> slab_get es (first_vacant es) = None" for es :: "'a option list"
    by (induction es rule: first_vacant.induct) (auto simp: slab_get_def)
  then show ?thesis by (simp add: vacant_ok_def)
qed

interpretation tasks: mono_id_table task_inv find_task "\<lambda>_. True" task_val "task_ins first_vacant" remove_task
  "\<lambda>ts. unat (ts_next_generation ts) + 1" "\<lambda>task. unat (tid_generation task)"
  by (rule task_table [OF first_vacant_ok])

lemma all_ops_ok: "list_all (op_ok (\<lambda>_. True)) ops"
  unfolding list_all_iff by (metis op_ok.simps table_op.exhaust)

lemma new_tasks_find [simp]: "find_task new_tasks = Map.empty"
  by (simp add: fun_eq_iff find_task_def new_tasks_def slab_get_def)

lemma take_task_dead: "find_task ts task = None \<Longrightarrow> take_task task ts = (None, ts)"
  by (auto simp: find_task_def take_task_def split: option.splits if_splits)

lemma restore_task_dead: "find_task ts task = None \<Longrightarrow> restore_task task fut ts = ts"
  by (auto simp: find_task_def restore_task_def split: option.splits if_splits)

section \<open>Properties\<close>

text \<open>
  C21: Along any sequence of task insertions and removals that does not exhaust the generation
  counter, whatever vacant slots the slab chooses, task identifiers carry strictly increasing
  generations and looking one up gives the task inserted under it unless it was removed: a slot
  that is reused never answers an identifier of its former task.
\<close>

theorem task_ids_never_reused:
  assumes "vacant_ok vk" and "exec_ops (task_ins vk) remove_task ops new_tasks = Some (ids, ts)"
  shows "sorted_wrt (\<lambda>a b. tid_generation a < tid_generation b) ids \<and>
    find_task ts = spec_ops task_val ops ids Map.empty \<and> task_len ts = slab_len (ts_slots ts)"
proof -
  note table = task_table [OF assms(1)]
  show ?thesis
    using mono_id_table.issued_increasing [OF table new_tasks_inv all_ops_ok assms(2)]
      id_table.exec_refines [OF mono_id_table.axioms(1) [OF table] new_tasks_inv all_ops_ok assms(2)]
      id_table.exec_inv [OF mono_id_table.axioms(1) [OF table] new_tasks_inv all_ops_ok assms(2)]
    by (simp add: sorted_wrt_map word_less_nat_alt task_inv_def task_len_def)
qed

theorem task_ids_never_reused_witness:
  "\<exists>ts. exec_ops (task_ins first_vacant) remove_task
      [Ins (True, None, 0), Del \<lparr>tid_index = 0, tid_generation = 1\<rparr>, Ins (False, None, 0)] new_tasks =
      Some ([\<lparr>tid_index = 0, tid_generation = 1\<rparr>, \<lparr>tid_index = 0, tid_generation = 2\<rparr>], ts) \<and>
    find_task ts \<lparr>tid_index = 0, tid_generation = 1\<rparr> = None \<and> task_len ts = 1"
proof -
  let ?ts = "\<lparr>ts_slots = [Some \<lparr>slot_future = Some False, slot_generation = 2, slot_request = None, slot_source = 0\<rparr>],
    ts_signals = (\<lambda>_. False)(1 := True, 2 := True), ts_next_generation = 2, ts_count = 1\<rparr>"
  have eval: "exec_ops (task_ins first_vacant) remove_task
      [Ins (True, None, 0), Del \<lparr>tid_index = 0, tid_generation = 1\<rparr>, Ins (False, None, 0)] new_tasks =
      Some ([\<lparr>tid_index = 0, tid_generation = 1\<rparr>, \<lparr>tid_index = 0, tid_generation = 2\<rparr>], ?ts)"
    by (simp add: task_ins_def insert_task_def remove_task_def new_tasks_def slab_put_def slab_get_def slab_len_def Let_def)
  show ?thesis
    using task_ids_never_reused [OF first_vacant_ok eval] eval by (auto simp: slab_len_def)
qed

text \<open>
  An identifier that no longer matches its slot is inert: taking it yields no future, restoring a
  future under it and removing it change nothing; a matching identifier that is not being polled
  yields its future exactly once until the future is restored, and clears the task's wake-up flag.
\<close>

theorem take_task_exact:
  "(case find_task ts task of
      None \<Rightarrow> take_task task ts = (None, ts) \<and> restore_task task fut ts = ts \<and> remove_task task ts = ts
    | Some sl \<Rightarrow>
        (case slot_future sl of
           None \<Rightarrow> take_task task ts = (None, ts)
         | Some f \<Rightarrow>
             fst (take_task task ts) = Some (f, slot_source sl) \<and>
             fst (take_task task (snd (take_task task ts))) = None \<and>
             \<not> ts_signals (snd (take_task task ts)) (tid_generation task) \<and>
             find_task (restore_task task f (snd (take_task task ts))) = find_task ts))"
proof (cases "find_task ts task")
  case None
  then show ?thesis by (simp add: take_task_dead restore_task_dead remove_task_miss)
next
  case (Some sl)
  then have i: "tid_index task < length (ts_slots ts)" and g: "slot_generation sl = tid_generation task"
    and get: "slab_get (ts_slots ts) (tid_index task) = Some sl"
    by (simp_all add: find_task_eq slab_get_Some)
  have same: "sl\<lparr>slot_future := Some f\<rparr> = sl" if "slot_future sl = Some f" for f
    using that by (cases sl) simp
  have "find_task (ts\<lparr>ts_signals := sg, ts_slots := (ts_slots ts)[tid_index task := Some sl]\<rparr>) = find_task ts" for sg
    using get i by (simp add: fun_eq_iff find_task_def slab_get_update)
  then show ?thesis
    using Some i g get
    by (auto simp: take_task_def restore_task_def slab_get_update same split: option.splits)
qed

text \<open>
  The cell that holds a service's state never has two guards outstanding, however the threads
  interleave: taking a second guard panics instead.
\<close>

theorem cell_guards_exclusive:
  assumes "cell_reach c H" and "t \<in> H"
  shows "H = {t} \<and> cell_borrowed c \<and> (\<exists>p. lease c = Inl p)"
proof -
  have "(cell_borrowed c \<longleftrightarrow> H \<noteq> {}) \<and> (\<forall>a \<in> H. \<forall>b \<in> H. a = b)"
    using assms(1) by induction (auto simp: new_cell_def lease_def drop_lease_def split: if_splits)
  then show ?thesis using assms(2) by (auto simp: lease_def)
qed

theorem cell_guards_exclusive_witness:
  "cell_reach \<lparr>cell_inner = True, cell_borrowed = True\<rparr> {3} \<and> (\<exists>p. lease \<lparr>cell_inner = True, cell_borrowed = True\<rparr> = Inl p)"
proof -
  have "lease (new_cell True) = Inr \<lparr>cell_inner = True, cell_borrowed = True\<rparr>"
    by (simp add: lease_def new_cell_def)
  from cell_reach.cell_lease [OF cell_reach.cell_init this, of 3]
  have r: "cell_reach \<lparr>cell_inner = True, cell_borrowed = True\<rparr> {3}" by simp
  then show ?thesis using cell_guards_exclusive [OF r, of 3] by simp
qed

end
