(* ===== verification/Mailbox.thy ===== *)
theory Mailbox
  imports Task
begin

text \<open>
  The mailbox of a service (\<^verbatim>\<open>Mailbox\<close> in \<^verbatim>\<open>rskynet-core/src/mq.rs\<close>), each method as the atomic
  operation it is when nobody interferes.  The lock-free queue of the crossbeam crate is a list with
  its documented behaviour: a push appends, a pop takes the oldest element.  Counters are natural
  numbers; the subtraction that Rust checks is checked here too.  The lemmas show that \<^verbatim>\<open>take_work\<close>
  returns in every state an owner can be in, hands out each queue in order, lets a waiting message
  wait for at most 64 ready tasks, and that overload reports double their threshold.
\<close>

section \<open>State\<close>

datatype mbstate = IDLE | QUEUED | RUNNING | NOTIFIED

datatype 'm work = WMessage 'm | WReady task_id

record 'm mailbox =
  mb_queue :: "'m list"
  mb_ready :: "task_id list"
  mb_len :: nat
  mb_state :: mbstate
  mb_overload :: nat
  mb_threshold :: nat
  mb_streak :: nat

definition OVERLOAD_THRESHOLD :: nat where "OVERLOAD_THRESHOLD = 1024"
definition READY_BURST :: nat where "READY_BURST = 64"

definition new_mailbox :: "'m mailbox" where
  "new_mailbox = \<lparr>mb_queue = [], mb_ready = [], mb_len = 0, mb_state = QUEUED, mb_overload = 0,
     mb_threshold = OVERLOAD_THRESHOLD, mb_streak = 0\<rparr>"

section \<open>Operations\<close>

text \<open>The state a notification aims at, \<^verbatim>\<open>None\<close> when there is nothing to do.\<close>

fun notify_target :: "mbstate \<Rightarrow> mbstate option" where
  "notify_target IDLE = Some QUEUED"
| "notify_target RUNNING = Some NOTIFIED"
| "notify_target _ = None"

definition notify :: "'m mailbox \<Rightarrow> bool \<times> 'm mailbox" where
  "notify mb =
     (case notify_target (mb_state mb) of
        None \<Rightarrow> (False, mb)
      | Some nx \<Rightarrow> (nx = QUEUED, mb\<lparr>mb_state := nx\<rparr>))"

definition push_message :: "'m \<Rightarrow> 'm mailbox \<Rightarrow> bool \<times> 'm mailbox" where
  "push_message m mb = notify (mb\<lparr>mb_len := mb_len mb + 1, mb_queue := mb_queue mb @ [m]\<rparr>)"

definition push_ready :: "task_id \<Rightarrow> 'm mailbox \<Rightarrow> bool \<times> 'm mailbox" where
  "push_ready r mb = notify (mb\<lparr>mb_ready := mb_ready mb @ [r]\<rparr>)"

text \<open>The doubling loop of \<^verbatim>\<open>check_overload\<close>.\<close>

partial_function (option) raise_threshold :: "nat \<Rightarrow> nat \<Rightarrow> nat option" where
  "raise_threshold len threshold =
     (if threshold < len then raise_threshold len (threshold * 2) else Some threshold)"

definition check_overload :: "'m mailbox \<Rightarrow> 'm mailbox outcome option" where
  "check_overload mb =
     (if mb_len mb = 0 then Some (Inl (Panic ''attempt to subtract with overflow''))
      else (let len = mb_len mb - 1; mb' = mb\<lparr>mb_len := len\<rparr> in
            if len \<le> mb_threshold mb then Some (Inr mb')
            else map_option (\<lambda>t. Inr (mb'\<lparr>mb_overload := len, mb_threshold := t\<rparr>))
                   (raise_threshold len (mb_threshold mb))))"

definition take_message :: "'m \<Rightarrow> 'm list \<Rightarrow> 'm mailbox \<Rightarrow> ('m work option \<times> 'm mailbox) outcome option" where
  "take_message m ms mb =
     map_option (\<lambda>r. case r of Inl p \<Rightarrow> Inl p | Inr mb' \<Rightarrow> Inr (Some (WMessage m), mb'))
       (check_overload (mb\<lparr>mb_queue := ms, mb_streak := 0\<rparr>))"

partial_function (option) take_work :: "'m mailbox \<Rightarrow> ('m work option \<times> 'm mailbox) outcome option" where
  "take_work mb =
     (case (if READY_BURST \<le> mb_streak mb then mb_queue mb else []) of
        m # ms \<Rightarrow> take_message m ms mb
      | [] \<Rightarrow>
          (case mb_ready mb of
             r # rs \<Rightarrow>
               Some (Inr (Some (WReady r),
                          mb\<lparr>mb_ready := rs, mb_streak := min (mb_streak mb + 1) READY_BURST\<rparr>))
           | [] \<Rightarrow>
               (case mb_queue mb of
                  m # ms \<Rightarrow> take_message m ms mb
                | [] \<Rightarrow>
                    (case mb_state mb of
                       RUNNING \<Rightarrow> Some (Inr (None, mb\<lparr>mb_state := IDLE, mb_threshold := OVERLOAD_THRESHOLD\<rparr>))
                     | NOTIFIED \<Rightarrow> take_work (mb\<lparr>mb_state := RUNNING\<rparr>)
                     | _ \<Rightarrow> Some (Inl (Panic ''unexpected mailbox state when taking work''))))))"

definition mark_queued :: "'m mailbox \<Rightarrow> 'm mailbox" where
  "mark_queued mb = mb\<lparr>mb_state := QUEUED\<rparr>"

definition mark_running :: "'m mailbox \<Rightarrow> 'm mailbox" where
  "mark_running mb = mb\<lparr>mb_state := RUNNING\<rparr>"

definition release :: "'m mailbox \<Rightarrow> (bool \<times> 'm mailbox) outcome" where
  "release mb =
     (case mb_state mb of
        RUNNING \<Rightarrow> Inr (True, mb\<lparr>mb_state := IDLE\<rparr>)
      | NOTIFIED \<Rightarrow> Inr (False, mb\<lparr>mb_state := RUNNING\<rparr>)
      | _ \<Rightarrow> Inl (Panic ''unexpected mailbox state when releasing''))"

definition mailbox_len :: "'m mailbox \<Rightarrow> nat" where
  "mailbox_len mb = mb_len mb"

definition take_overload :: "'m mailbox \<Rightarrow> nat \<times> 'm mailbox" where
  "take_overload mb = (mb_overload mb, mb\<lparr>mb_overload := 0\<rparr>)"

definition drain_mailbox :: "'m mailbox \<Rightarrow> 'm list \<times> 'm mailbox" where
  "drain_mailbox mb =
     (mb_queue mb, mb\<lparr>mb_ready := [], mb_queue := [], mb_len := mb_len mb - length (mb_queue mb)\<rparr>)"

section \<open>Invariant\<close>

text \<open>The gauge covers the queue (a producer counts before it pushes) and the threshold is positive.\<close>

definition mailbox_inv :: "'m mailbox \<Rightarrow> bool" where [inv_defs]:
  "mailbox_inv mb =
     (length (mb_queue mb) \<le> mb_len mb \<and> (\<exists>k. mb_threshold mb = OVERLOAD_THRESHOLD * 2 ^ k) \<and>
      mb_streak mb \<le> READY_BURST)"

text \<open>What one \<^verbatim>\<open>take_work\<close> may do: the abstract step of a two-queue server.\<close>

definition takes :: "'m mailbox \<Rightarrow> 'm work option \<Rightarrow> 'm mailbox \<Rightarrow> bool" where
  "takes mb w mb' =
     (case w of
        Some (WReady r) \<Rightarrow>
          mb_ready mb = r # mb_ready mb' \<and> mb_queue mb' = mb_queue mb \<and> mb_len mb' = mb_len mb \<and>
          mb_state mb' = mb_state mb \<and> mb_streak mb' = min (mb_streak mb + 1) READY_BURST \<and>
          (mb_queue mb = [] \<or> mb_streak mb < READY_BURST)
      | Some (WMessage m) \<Rightarrow>
          mb_queue mb = m # mb_queue mb' \<and> mb_ready mb' = mb_ready mb \<and> mb_len mb' = mb_len mb - 1 \<and>
          mb_state mb' = mb_state mb \<and> mb_streak mb' = 0 \<and>
          (mb_ready mb = [] \<or> READY_BURST \<le> mb_streak mb)
      | None \<Rightarrow>
          mb_queue mb = [] \<and> mb_ready mb = [] \<and> mb_queue mb' = [] \<and> mb_ready mb' = [] \<and>
          mb_state mb' = IDLE \<and> mb_threshold mb' = OVERLOAD_THRESHOLD)"

text \<open>The works handed out by \<^verbatim>\<open>n\<close> consecutive calls of one owner.\<close>

fun take_many :: "nat \<Rightarrow> 'm mailbox \<Rightarrow> 'm work list" where
  "take_many 0 mb = []"
| "take_many (Suc n) mb =
     (case take_work mb of Some (Inr (Some w, mb')) \<Rightarrow> w # take_many n mb' | _ \<Rightarrow> [])"

section \<open>Facts\<close>

lemma raise_threshold_returns:
  assumes "0 < t"
  shows "\<exists>k. raise_threshold len t = Some (t * 2 ^ k) \<and> len \<le> t * 2 ^ k \<and> (0 < k \<longrightarrow> t * 2 ^ k < 2 * len)"
  using assms
proof (induction "len - t" arbitrary: t rule: less_induct)
  case less
  show ?case
  proof (cases "t < len")
    case False
    then show ?thesis by (intro exI [of _ 0]) (simp add: raise_threshold.simps [of len t])
  next
    case True
    then have "len - t * 2 < len - t" using less.prems by simp
    then obtain k where k: "raise_threshold len (t * 2) = Some (t * 2 * 2 ^ k)" "len \<le> t * 2 * 2 ^ k"
      "0 < k \<longrightarrow> t * 2 * 2 ^ k < 2 * len"
      using less.hyps [of "t * 2"] less.prems by auto
    have "t * 2 ^ Suc k = t * 2 * 2 ^ k" "raise_threshold len t = raise_threshold len (t * 2)"
      using True by (simp_all add: raise_threshold.simps [of len t])
    moreover have "t * 2 * 2 ^ k < 2 * len" using k(3) True by (cases "k = 0") auto
    ultimately show ?thesis using k by (intro exI [of _ "Suc k"]) simp
  qed
qed

lemma check_overload_spec:
  assumes "mailbox_inv mb" "0 < mb_len mb"
  shows "\<exists>mb'. check_overload mb = Some (Inr mb') \<and> mb_len mb' = mb_len mb - 1 \<and>
    mb_len mb' \<le> mb_threshold mb' \<and> mb_queue mb' = mb_queue mb \<and> mb_ready mb' = mb_ready mb \<and>
    mb_state mb' = mb_state mb \<and> mb_streak mb' = mb_streak mb \<and>
    (\<exists>k. mb_threshold mb' = OVERLOAD_THRESHOLD * 2 ^ k) \<and>
    (mb_len mb - 1 \<le> mb_threshold mb \<longrightarrow> mb_overload mb' = mb_overload mb \<and> mb_threshold mb' = mb_threshold mb) \<and>
    (mb_threshold mb < mb_len mb - 1 \<longrightarrow> mb_overload mb' = mb_len mb - 1 \<and> mb_threshold mb' < 2 * (mb_len mb - 1))"
proof -
  obtain j where j: "mb_threshold mb = OVERLOAD_THRESHOLD * 2 ^ j"
    using assms(1) by (auto simp: mailbox_inv_def)
  then have "0 < mb_threshold mb" by (simp add: OVERLOAD_THRESHOLD_def)
  then obtain k where k: "raise_threshold (mb_len mb - 1) (mb_threshold mb) = Some (mb_threshold mb * 2 ^ k)"
    "mb_len mb - 1 \<le> mb_threshold mb * 2 ^ k" "0 < k \<longrightarrow> mb_threshold mb * 2 ^ k < 2 * (mb_len mb - 1)"
    using raise_threshold_returns by blast
  have pow: "\<exists>i. mb_threshold mb * 2 ^ k = OVERLOAD_THRESHOLD * 2 ^ i"
    using j by (intro exI [of _ "j + k"]) (simp add: power_add)
  show ?thesis
  proof (cases "mb_len mb - 1 \<le> mb_threshold mb")
    case True
    then show ?thesis using assms(2) j by (auto simp: check_overload_def Let_def)
  next
    case False
    then have "0 < k" using k(2) by (cases k) auto
    then show ?thesis using False assms(2) k pow by (simp add: check_overload_def Let_def)
  qed
qed

lemma take_message_spec:
  assumes inv: "mailbox_inv mb" and q: "mb_queue mb = m # ms"
    and turn: "mb_ready mb = [] \<or> READY_BURST \<le> mb_streak mb"
  shows "\<exists>mb'. take_message m ms mb = Some (Inr (Some (WMessage m), mb')) \<and>
    takes mb (Some (WMessage m)) mb' \<and> mailbox_inv mb'"
proof -
  let ?mb = "mb\<lparr>mb_queue := ms, mb_streak := 0\<rparr>"
  have "mailbox_inv ?mb" "0 < mb_len ?mb" using inv q by (auto simp: mailbox_inv_def)
  from check_overload_spec [OF this] obtain mb' where
    "check_overload ?mb = Some (Inr mb')" "mb_len mb' = mb_len mb - 1" "mb_queue mb' = ms"
    "mb_ready mb' = mb_ready mb" "mb_state mb' = mb_state mb" "mb_streak mb' = 0"
    "\<exists>k. mb_threshold mb' = OVERLOAD_THRESHOLD * 2 ^ k" by auto
  then show ?thesis
    using inv q turn by (auto simp: take_message_def takes_def mailbox_inv_def)
qed

lemma take_work_ready:
  assumes "mailbox_inv mb" "mb_queue mb = [] \<or> mb_streak mb < READY_BURST" "mb_ready mb = r # rs"
  shows "\<exists>mb'. take_work mb = Some (Inr (Some (WReady r), mb')) \<and> takes mb (Some (WReady r)) mb' \<and> mailbox_inv mb'"
  using assms by (subst take_work.simps) (auto simp: takes_def mailbox_inv_def)

lemma take_work_message:
  assumes "mailbox_inv mb" "mb_queue mb = m # ms" "mb_ready mb = [] \<or> READY_BURST \<le> mb_streak mb"
  shows "\<exists>mb'. take_work mb = Some (Inr (Some (WMessage m), mb')) \<and> takes mb (Some (WMessage m)) mb' \<and> mailbox_inv mb'"
  using assms take_message_spec [OF assms] by (subst take_work.simps) auto

lemma take_work_empty:
  assumes inv: "mailbox_inv mb" and e: "mb_queue mb = []" "mb_ready mb = []"
    and st: "mb_state mb \<in> {RUNNING, NOTIFIED}"
  shows "\<exists>mb'. take_work mb = Some (Inr (None, mb')) \<and> takes mb None mb' \<and> mailbox_inv mb'"
proof -
  have run: "\<exists>mb'. take_work x = Some (Inr (None, mb')) \<and> takes x None mb' \<and> mailbox_inv mb'"
    if "mailbox_inv x" "mb_queue x = []" "mb_ready x = []" "mb_state x = RUNNING" for x :: "'a mailbox"
    using that by (subst take_work.simps) (auto simp: takes_def mailbox_inv_def intro: exI [of _ 0])
  show ?thesis
  proof (cases "mb_state mb = RUNNING")
    case False
    then have "take_work mb = take_work (mb\<lparr>mb_state := RUNNING\<rparr>)"
      using e st by (subst take_work.simps) auto
    moreover have "takes mb None mb' \<longleftrightarrow> takes (mb\<lparr>mb_state := RUNNING\<rparr>) None mb'" for mb'
      by (simp add: takes_def)
    ultimately show ?thesis
      using run [of "mb\<lparr>mb_state := RUNNING\<rparr>"] inv e by (simp add: mailbox_inv_def)
  qed (use run inv e in blast)
qed

lemma take_work_spec:
  assumes inv: "mailbox_inv mb" and st: "mb_state mb \<in> {RUNNING, NOTIFIED}"
  shows "\<exists>w mb'. take_work mb = Some (Inr (w, mb')) \<and> takes mb w mb' \<and> mailbox_inv mb'"
proof (cases "mb_ready mb")
  case Nil
  then show ?thesis
    using take_work_empty [OF inv _ _ st] take_work_message [OF inv] by (cases "mb_queue mb") blast+
next
  case (Cons r rs)
  show ?thesis
  proof (cases "mb_queue mb = [] \<or> mb_streak mb < READY_BURST")
    case True
    then show ?thesis using take_work_ready [OF inv True Cons] by blast
  next
    case False
    then obtain m ms where "mb_queue mb = m # ms" "READY_BURST \<le> mb_streak mb"
      by (cases "mb_queue mb") auto
    then show ?thesis using take_work_message [OF inv] by blast
  qed
qed

lemma notify_inv: "mailbox_inv mb \<Longrightarrow> mailbox_inv (snd (notify mb))"
  by (auto simp: notify_def mailbox_inv_def split: option.splits)

lemma push_message_inv: "mailbox_inv mb \<Longrightarrow> mailbox_inv (snd (push_message m mb))"
  unfolding push_message_def by (rule notify_inv) (auto simp: mailbox_inv_def)

lemma push_ready_inv: "mailbox_inv mb \<Longrightarrow> mailbox_inv (snd (push_ready r mb))"
  unfolding push_ready_def by (rule notify_inv) (auto simp: mailbox_inv_def)

lemma new_mailbox_inv: "mailbox_inv new_mailbox"
  by (auto simp: mailbox_inv_def new_mailbox_def intro: exI [of _ 0])

lemma drain_mailbox_inv: "mailbox_inv mb \<Longrightarrow> mailbox_inv (snd (drain_mailbox mb))"
  by (auto simp: mailbox_inv_def drain_mailbox_def)

lemma notify_awake: "mb_state (snd (notify mb)) \<in> {QUEUED, NOTIFIED}"
  by (cases "mb_state mb") (auto simp: notify_def)

section \<open>Fairness\<close>

lemma message_within_burst:
  "\<lbrakk>mailbox_inv mb; mb_state mb \<in> {RUNNING, NOTIFIED}; mb_queue mb = m # ms; READY_BURST < n + mb_streak mb\<rbrakk>
   \<Longrightarrow> WMessage m \<in> set (take_many n mb)"
proof (induction n arbitrary: mb)
  case 0
  then show ?case by (simp add: mailbox_inv_def)
next
  case (Suc n)
  obtain w mb' where w: "take_work mb = Some (Inr (w, mb'))" "takes mb w mb'" "mailbox_inv mb'"
    using take_work_spec [OF Suc.prems(1,2)] by blast
  show ?case
  proof (cases w)
    case None
    then show ?thesis using w(2) Suc.prems(3) by (simp add: takes_def)
  next
    case (Some x)
    show ?thesis
    proof (cases x)
      case (WMessage m')
      then show ?thesis using w Some Suc.prems(3) by (simp add: takes_def)
    next
      case (WReady r)
      then have "mb_queue mb' = m # ms" "mb_state mb' = mb_state mb" "mb_streak mb' = mb_streak mb + 1"
        using w(2) Some Suc.prems(3) by (auto simp: takes_def)
      then show ?thesis
        using Suc.IH [of mb'] Suc.prems w Some by simp
    qed
  qed
qed

section \<open>Properties\<close>

text \<open>
  C28: An owner of a service (its mailbox state is running or notified) can always take work: the call
  returns without panicking and without looping; it hands out the oldest ready task, or the oldest
  message when no task is ready or 64 tasks have run in a row, and reports idleness, putting the
  mailbox in the idle state, exactly when both queues are empty.
\<close>

theorem take_work_total:
  assumes "mailbox_inv mb" and "mb_state mb \<in> {RUNNING, NOTIFIED}"
  shows "\<exists>w mb'. take_work mb = Some (Inr (w, mb')) \<and> takes mb w mb' \<and> mailbox_inv mb' \<and>
    (w = None \<longleftrightarrow> mb_queue mb = [] \<and> mb_ready mb = [])"
proof -
  obtain w mb' where "take_work mb = Some (Inr (w, mb'))" "takes mb w mb'" "mailbox_inv mb'"
    using take_work_spec [OF assms] by blast
  then show ?thesis
    by (auto simp: takes_def split: option.splits work.splits)
qed

theorem take_work_total_witness:
  "\<exists>w mb'. take_work ((new_mailbox :: nat mailbox)\<lparr>mb_state := NOTIFIED, mb_queue := [5], mb_len := 1\<rparr>) =
     Some (Inr (Some w, mb'))"
proof -
  let ?mb = "(new_mailbox :: nat mailbox)\<lparr>mb_state := NOTIFIED, mb_queue := [5], mb_len := 1\<rparr>"
  have "mailbox_inv ?mb" using new_mailbox_inv [where 'a = nat] by (simp add: mailbox_inv_def)
  then obtain w mb' where "take_work ?mb = Some (Inr (w, mb'))" "w = None \<longleftrightarrow> mb_queue ?mb = [] \<and> mb_ready ?mb = []"
    using take_work_total [of ?mb] by auto
  then show ?thesis by auto
qed

text \<open>
  C27: A waiting message is not starved by self-waking tasks: whatever is ready, the oldest message
  of a mailbox is handed out within the next 65 calls of \<^verbatim>\<open>take_work\<close>.
\<close>

theorem message_not_starved:
  assumes "mailbox_inv mb" and "mb_state mb \<in> {RUNNING, NOTIFIED}" and "mb_queue mb = m # ms"
  shows "WMessage m \<in> set (take_many 65 mb)"
  using message_within_burst [OF assms, of 65] by (simp add: READY_BURST_def)

theorem message_not_starved_witness:
  "WMessage 5 \<in> set (take_many 65 ((new_mailbox :: nat mailbox)\<lparr>mb_state := RUNNING, mb_queue := [5], mb_len := 1,
     mb_ready := replicate 100 \<lparr>tid_index = 0, tid_generation = 1\<rparr>\<rparr>))"
  using new_mailbox_inv [where 'a = nat] by (intro message_not_starved [of _ 5 "[]"]) (simp_all add: mailbox_inv_def)



end
