(* ===== verification/Mailbox_Threads.thy ===== *)
theory Mailbox_Threads
  imports Mailbox
begin

text \<open>
  The mailbox under concurrency: any number of producers (senders, wakers, killers) and worker
  threads act on one service, interleaved at the granularity of single atomic operations of
  \<^verbatim>\<open>Mailbox\<close> (\<^verbatim>\<open>mq.rs\<close>), of the run queue, and of the dispatch loop \<^verbatim>\<open>dispatch_step\<close>,
  \<^verbatim>\<open>run_service\<close>, \<^verbatim>\<open>retire\<close>, \<^verbatim>\<open>destroy\<close> and \<^verbatim>\<open>cleanup\<close> (\<^verbatim>\<open>server.rs\<close>).  Memory is sequentially
  consistent.  An operation that the running service performs on its own mailbox is a step of a
  further thread identifier.  The run queue is reduced to the number of its entries for this service.
  The invariant gives the four guarantees the state machine exists for: the service is never executed
  by two workers at once, the mailbox never reaches a panic, no message or wake-up is lost or
  delivered twice or out of order, and a killed service is always destroyed.
\<close>

section \<open>Threads\<close>

text \<open>
  The position of a thread: outside (\<^verbatim>\<open>Off\<close>); a producer about to push, about to load the state,
  about to compare-and-swap it, about to mark the service queued, about to put it in the run queue;
  a worker that popped the service, checks for death, is at the top of the loop of \<^verbatim>\<open>take_work\<close>, about
  to pop the ready queue, about to pop the message queue, about to go idle, about to reset a
  notification, executing a piece of work, re-checking death after going idle; and a worker that
  destroys the service: draining ready tasks, draining messages, about to release, about to reset.
\<close>

datatype 'm phase =
    Off
  | PushMsg 'm
  | PushRdy task_id
  | Load
  | Cas mbstate
  | Enq
  | Enq2
  | Got
  | Top
  | Scan
  | RdyPop
  | QuePop
  | CasIdle
  | Reset
  | Working
  | PostIdle
  | DrainR
  | DrainQ
  | Release
  | RelReset

record 'm msys =
  ms_mb :: "'m mailbox"
  ms_inq :: nat
  ms_dead :: bool
  ms_destroyed :: bool
  ms_thr :: "nat \<Rightarrow> 'm phase"
  ms_panic :: bool
  ms_sent :: "'m list"
  ms_got :: "'m list"
  ms_woken :: "task_id list"
  ms_polled :: "task_id list"

abbreviation goto :: "nat \<Rightarrow> 'm phase \<Rightarrow> 'm msys \<Rightarrow> 'm msys" where
  "goto t p s \<equiv> s\<lparr>ms_thr := (ms_thr s)(t := p)\<rparr>"

abbreviation set_state :: "mbstate \<Rightarrow> 'm msys \<Rightarrow> 'm msys" where
  "set_state st s \<equiv> s\<lparr>ms_mb := (ms_mb s)\<lparr>mb_state := st\<rparr>\<rparr>"

text \<open>The service has been created: its mailbox is marked queued and the creator will enqueue it.\<close>

definition init_msys :: "'m msys" where
  "init_msys = \<lparr>ms_mb = new_mailbox, ms_inq = 0, ms_dead = False, ms_destroyed = False,
     ms_thr = (\<lambda>_. Off)(0 := Enq), ms_panic = False, ms_sent = [], ms_got = [], ms_woken = [], ms_polled = []\<rparr>"

section \<open>Steps\<close>

text \<open>Steps of producers: \<^verbatim>\<open>push_message\<close>, \<^verbatim>\<open>push_ready\<close>, \<^verbatim>\<open>retire\<close>, then the loop of \<^verbatim>\<open>notify\<close>.\<close>

inductive producer_step :: "'m msys \<Rightarrow> 'm msys \<Rightarrow> bool" where
  send: "ms_thr s t = Off \<Longrightarrow>
    producer_step s (goto t (PushMsg m) (s\<lparr>ms_mb := (ms_mb s)\<lparr>mb_len := mb_len (ms_mb s) + 1\<rparr>\<rparr>))"
| send_push: "ms_thr s t = PushMsg m \<Longrightarrow>
    producer_step s (goto t Load (s\<lparr>ms_mb := (ms_mb s)\<lparr>mb_queue := mb_queue (ms_mb s) @ [m]\<rparr>,
      ms_sent := ms_sent s @ [m]\<rparr>))"
| wake: "ms_thr s t = Off \<Longrightarrow> producer_step s (goto t (PushRdy r) s)"
| wake_push: "ms_thr s t = PushRdy r \<Longrightarrow>
    producer_step s (goto t Load (s\<lparr>ms_mb := (ms_mb s)\<lparr>mb_ready := mb_ready (ms_mb s) @ [r]\<rparr>,
      ms_woken := ms_woken s @ [r]\<rparr>))"
| kill: "ms_thr s t = Off \<Longrightarrow> producer_step s (goto t Load (s\<lparr>ms_dead := True\<rparr>))"
| load_done: "\<lbrakk>ms_thr s t = Load; notify_target (mb_state (ms_mb s)) = None\<rbrakk> \<Longrightarrow> producer_step s (goto t Off s)"
| load_try: "\<lbrakk>ms_thr s t = Load; notify_target (mb_state (ms_mb s)) \<noteq> None\<rbrakk> \<Longrightarrow>
    producer_step s (goto t (Cas (mb_state (ms_mb s))) s)"
| cas_ok: "\<lbrakk>ms_thr s t = Cas (mb_state (ms_mb s)); notify_target (mb_state (ms_mb s)) = Some nx\<rbrakk> \<Longrightarrow>
    producer_step s (goto t (if nx = QUEUED then Enq else Off) (set_state nx s))"
| cas_retry: "ms_thr s t = Cas e \<Longrightarrow>
    producer_step s (goto t (if notify_target (mb_state (ms_mb s)) = None then Off else Cas (mb_state (ms_mb s))) s)"
| enq_mark: "ms_thr s t = Enq \<Longrightarrow> producer_step s (goto t Enq2 (s\<lparr>ms_mb := mark_queued (ms_mb s)\<rparr>))"
| enq_put: "ms_thr s t = Enq2 \<Longrightarrow> producer_step s (goto t Off (s\<lparr>ms_inq := ms_inq s + 1\<rparr>))"

text \<open>Steps of a worker that runs the service: \<^verbatim>\<open>dispatch_step\<close>, \<^verbatim>\<open>run_service\<close>, \<^verbatim>\<open>take_work\<close>.\<close>

inductive worker_step :: "'m msys \<Rightarrow> 'm msys \<Rightarrow> bool" where
  pop: "\<lbrakk>ms_thr s t = Off; 0 < ms_inq s\<rbrakk> \<Longrightarrow> worker_step s (goto t Got (s\<lparr>ms_inq := ms_inq s - 1\<rparr>))"
| mark_run: "ms_thr s t = Got \<Longrightarrow> worker_step s (goto t Top (s\<lparr>ms_mb := mark_running (ms_mb s)\<rparr>))"
| top: "ms_thr s t = Top \<Longrightarrow> worker_step s (goto t (if ms_dead s then DrainR else Scan) s)"
| scan_burst: "\<lbrakk>ms_thr s t = Scan; READY_BURST \<le> mb_streak (ms_mb s); mb_queue (ms_mb s) = m # ms;
      check_overload ((ms_mb s)\<lparr>mb_queue := ms, mb_streak := 0\<rparr>) = Some (Inr mb)\<rbrakk> \<Longrightarrow>
    worker_step s (goto t Working (s\<lparr>ms_mb := mb, ms_got := ms_got s @ [m]\<rparr>))"
| scan_go: "\<lbrakk>ms_thr s t = Scan; mb_streak (ms_mb s) < READY_BURST \<or> mb_queue (ms_mb s) = []\<rbrakk> \<Longrightarrow>
    worker_step s (goto t RdyPop s)"
| rdy_take: "\<lbrakk>ms_thr s t = RdyPop; mb_ready (ms_mb s) = r # rs\<rbrakk> \<Longrightarrow>
    worker_step s (goto t Working (s\<lparr>ms_mb := (ms_mb s)\<lparr>mb_ready := rs,
        mb_streak := min (mb_streak (ms_mb s) + 1) READY_BURST\<rparr>, ms_polled := ms_polled s @ [r]\<rparr>))"
| rdy_empty: "\<lbrakk>ms_thr s t = RdyPop; mb_ready (ms_mb s) = []\<rbrakk> \<Longrightarrow> worker_step s (goto t QuePop s)"
| que_take: "\<lbrakk>ms_thr s t = QuePop; mb_queue (ms_mb s) = m # ms;
      check_overload ((ms_mb s)\<lparr>mb_queue := ms, mb_streak := 0\<rparr>) = Some (Inr mb)\<rbrakk> \<Longrightarrow>
    worker_step s (goto t Working (s\<lparr>ms_mb := mb, ms_got := ms_got s @ [m]\<rparr>))"
| que_empty: "\<lbrakk>ms_thr s t = QuePop; mb_queue (ms_mb s) = []\<rbrakk> \<Longrightarrow> worker_step s (goto t CasIdle s)"
| take_panic: "\<lbrakk>ms_thr s t = Scan \<or> ms_thr s t = QuePop; mb_queue (ms_mb s) = m # ms;
      check_overload ((ms_mb s)\<lparr>mb_queue := ms, mb_streak := 0\<rparr>) = Some (Inl p)\<rbrakk> \<Longrightarrow>
    worker_step s (s\<lparr>ms_panic := True\<rparr>)"
| idle_ok: "\<lbrakk>ms_thr s t = CasIdle; mb_state (ms_mb s) = RUNNING\<rbrakk> \<Longrightarrow>
    worker_step s (goto t PostIdle (s\<lparr>ms_mb := (ms_mb s)\<lparr>mb_state := IDLE, mb_threshold := OVERLOAD_THRESHOLD\<rparr>\<rparr>))"
| idle_notified: "\<lbrakk>ms_thr s t = CasIdle; mb_state (ms_mb s) = NOTIFIED\<rbrakk> \<Longrightarrow> worker_step s (goto t Reset s)"
| idle_panic: "\<lbrakk>ms_thr s t = CasIdle; mb_state (ms_mb s) \<notin> {RUNNING, NOTIFIED}\<rbrakk> \<Longrightarrow>
    worker_step s (s\<lparr>ms_panic := True\<rparr>)"
| reset: "ms_thr s t = Reset \<Longrightarrow> worker_step s (goto t Scan (set_state RUNNING s))"
| work_dead: "\<lbrakk>ms_thr s t = Working; ms_dead s\<rbrakk> \<Longrightarrow> worker_step s (goto t DrainR s)"
| work_more: "\<lbrakk>ms_thr s t = Working; \<not> ms_dead s\<rbrakk> \<Longrightarrow> worker_step s (goto t Scan s)"
| work_yield: "\<lbrakk>ms_thr s t = Working; \<not> ms_dead s\<rbrakk> \<Longrightarrow> worker_step s (goto t Enq s)"
| work_hold: "\<lbrakk>ms_thr s t = Working; \<not> ms_dead s\<rbrakk> \<Longrightarrow> worker_step s (goto t Top s)"
| post_idle: "ms_thr s t = PostIdle \<Longrightarrow> worker_step s (goto t (if ms_dead s then Load else Off) s)"

text \<open>Steps of the worker that destroys the service: \<^verbatim>\<open>cleanup\<close> with \<^verbatim>\<open>drain\<close> and \<^verbatim>\<open>release\<close>.\<close>

inductive cleaner_step :: "'m msys \<Rightarrow> 'm msys \<Rightarrow> bool" where
  drain_ready: "\<lbrakk>ms_thr s t = DrainR; mb_ready (ms_mb s) = r # rs\<rbrakk> \<Longrightarrow>
    cleaner_step s (s\<lparr>ms_mb := (ms_mb s)\<lparr>mb_ready := rs\<rparr>, ms_polled := ms_polled s @ [r]\<rparr>)"
| drain_ready_done: "\<lbrakk>ms_thr s t = DrainR; mb_ready (ms_mb s) = []\<rbrakk> \<Longrightarrow> cleaner_step s (goto t DrainQ s)"
| drain_queue: "\<lbrakk>ms_thr s t = DrainQ; mb_queue (ms_mb s) = m # ms\<rbrakk> \<Longrightarrow>
    cleaner_step s (s\<lparr>ms_mb := (ms_mb s)\<lparr>mb_queue := ms, mb_len := mb_len (ms_mb s) - 1\<rparr>,
      ms_got := ms_got s @ [m]\<rparr>)"
| drain_queue_done: "\<lbrakk>ms_thr s t = DrainQ; mb_queue (ms_mb s) = []\<rbrakk> \<Longrightarrow> cleaner_step s (goto t Release s)"
| release_ok: "\<lbrakk>ms_thr s t = Release; mb_state (ms_mb s) = RUNNING\<rbrakk> \<Longrightarrow>
    cleaner_step s (goto t Off ((set_state IDLE s)\<lparr>ms_destroyed := True\<rparr>))"
| release_notified: "\<lbrakk>ms_thr s t = Release; mb_state (ms_mb s) = NOTIFIED\<rbrakk> \<Longrightarrow> cleaner_step s (goto t RelReset s)"
| release_panic: "\<lbrakk>ms_thr s t = Release; mb_state (ms_mb s) \<notin> {RUNNING, NOTIFIED}\<rbrakk> \<Longrightarrow>
    cleaner_step s (s\<lparr>ms_panic := True\<rparr>)"
| release_reset: "ms_thr s t = RelReset \<Longrightarrow> cleaner_step s (goto t DrainR (set_state RUNNING s))"

inductive msys_reach :: "'m msys \<Rightarrow> bool" where
  init: "msys_reach init_msys"
| producer: "\<lbrakk>msys_reach s; producer_step s s'\<rbrakk> \<Longrightarrow> msys_reach s'"
| worker: "\<lbrakk>msys_reach s; worker_step s s'\<rbrakk> \<Longrightarrow> msys_reach s'"
| cleaner: "\<lbrakk>msys_reach s; cleaner_step s s'\<rbrakk> \<Longrightarrow> msys_reach s'"

section \<open>The invariant\<close>

text \<open>Phases in which a thread has the service: it owes an enqueue, or executes or destroys it.\<close>

fun owner :: "'m phase \<Rightarrow> bool" where
  "owner Off = False" | "owner (PushMsg m) = False" | "owner (PushRdy r) = False"
| "owner Load = False" | "owner (Cas e) = False" | "owner PostIdle = False"
| "owner _ = True"

fun executing :: "'m phase \<Rightarrow> bool" where
  "executing Enq = False" | "executing Enq2 = False" | "executing p = owner p"

fun notifying :: "'m phase \<Rightarrow> bool" where
  "notifying Load = True" | "notifying (Cas e) = True" | "notifying _ = False"

text \<open>The thread has just seen the ready queue empty, or both queues empty.\<close>

fun saw_no_ready :: "'m phase \<Rightarrow> bool" where
  "saw_no_ready QuePop = True" | "saw_no_ready DrainQ = True" | "saw_no_ready _ = False"

fun saw_nothing :: "'m phase \<Rightarrow> bool" where
  "saw_nothing CasIdle = True" | "saw_nothing Release = True" | "saw_nothing _ = False"

fun phase_state_ok :: "'m phase \<Rightarrow> mbstate \<Rightarrow> bool" where
  "phase_state_ok Enq st = (st \<noteq> IDLE)"
| "phase_state_ok Enq2 st = (st = QUEUED)"
| "phase_state_ok Got st = (st = QUEUED)"
| "phase_state_ok Reset st = (st = NOTIFIED)"
| "phase_state_ok RelReset st = (st = NOTIFIED)"
| "phase_state_ok (Cas e) st = (notify_target e \<noteq> None)"
| "phase_state_ok p st = (owner p \<longrightarrow> st \<in> {RUNNING, NOTIFIED})"

definition own_inv :: "'m msys \<Rightarrow> bool" where [inv_defs]:
  "own_inv s =
     ((\<forall>t u. owner (ms_thr s t) \<longrightarrow> owner (ms_thr s u) \<longrightarrow> t = u) \<and>
      (\<forall>t. owner (ms_thr s t) \<longrightarrow> ms_inq s = 0) \<and>
      ms_inq s \<le> 1 \<and> (0 < ms_inq s \<longrightarrow> mb_state (ms_mb s) = QUEUED) \<and>
      (mb_state (ms_mb s) \<noteq> IDLE \<longrightarrow> 0 < ms_inq s \<or> (\<exists>t. owner (ms_thr s t))) \<and>
      (\<forall>t. phase_state_ok (ms_thr s t) (mb_state (ms_mb s))))"

definition work_inv :: "'m msys \<Rightarrow> bool" where [inv_defs]:
  "work_inv s =
     (let mb = ms_mb s; covered = (\<exists>t. notifying (ms_thr s t)) in
      (mb_state mb = IDLE \<longrightarrow> mb_queue mb \<noteq> [] \<or> mb_ready mb \<noteq> [] \<longrightarrow> covered) \<and>
      (\<forall>t. saw_no_ready (ms_thr s t) \<longrightarrow> mb_ready mb \<noteq> [] \<longrightarrow> mb_state mb = NOTIFIED \<or> covered) \<and>
      (\<forall>t. saw_nothing (ms_thr s t) \<longrightarrow> mb_queue mb \<noteq> [] \<or> mb_ready mb \<noteq> [] \<longrightarrow>
         mb_state mb = NOTIFIED \<or> covered) \<and>
      (ms_dead s \<longrightarrow> \<not> ms_destroyed s \<longrightarrow> mb_state mb = IDLE \<longrightarrow>
         covered \<or> (\<exists>t. ms_thr s t = PostIdle)))"

definition data_inv :: "'m msys \<Rightarrow> bool" where [inv_defs]:
  "data_inv s =
     (finite {t. ms_thr s t \<noteq> Off} \<and> mailbox_inv (ms_mb s) \<and> \<not> ms_panic s \<and>
      mb_len (ms_mb s) = length (mb_queue (ms_mb s)) + card {t. \<exists>m. ms_thr s t = PushMsg m} \<and>
      ms_sent s = ms_got s @ mb_queue (ms_mb s) \<and> ms_woken s = ms_polled s @ mb_ready (ms_mb s))"

section \<open>Ownership is exclusive\<close>

lemma check_overload_frame:
  "check_overload mb = Some (Inr mb') \<Longrightarrow>
   mb_state mb' = mb_state mb \<and> mb_queue mb' = mb_queue mb \<and> mb_ready mb' = mb_ready mb \<and>
   mb_streak mb' = mb_streak mb \<and> mb_len mb' = mb_len mb - 1 \<and> 0 < mb_len mb"
  by (auto simp: check_overload_def Let_def split: if_splits)

lemma phase_ok_outside: "\<not> owner p \<Longrightarrow> phase_state_ok p st \<longleftrightarrow> phase_state_ok p st'"
  by (cases p) auto

lemma own_inv_state: "own_inv s \<Longrightarrow> phase_state_ok (ms_thr s t) (mb_state (ms_mb s))"
  by (simp add: own_inv_def)

lemma own_inv_alone: "\<lbrakk>own_inv s; owner (ms_thr s t); u \<noteq> t\<rbrakk> \<Longrightarrow> \<not> owner (ms_thr s u)"
  by (auto simp: own_inv_def)

lemma own_inv_inq: "\<lbrakk>own_inv s; owner (ms_thr s t)\<rbrakk> \<Longrightarrow> ms_inq s = 0"
  by (auto simp: own_inv_def)

text \<open>
  The ways a step can touch ownership: an owner moves on and stays owner; a thread outside stays
  outside; a thread becomes owner; an owner gives the service to the run queue or leaves it idle.
\<close>

lemma own_keep:
  assumes inv: "own_inv s" and o: "owner (ms_thr s t)" and p: "owner p" "phase_state_ok p st" "st \<noteq> IDLE"
    and s': "ms_thr s' = (ms_thr s)(t := p)" "mb_state (ms_mb s') = st" "ms_inq s' = ms_inq s"
  shows "own_inv s'"
proof -
  have "phase_state_ok (ms_thr s u) st" if "u \<noteq> t" for u
    using own_inv_alone [OF inv o that] own_inv_state [OF inv, of u] phase_ok_outside by blast
  then show ?thesis
    using own_inv_alone [OF inv o] own_inv_inq [OF inv o] p s' unfolding own_inv_def by auto
qed

lemma own_move:
  assumes inv: "own_inv s" and s': "ms_thr s' = (ms_thr s)(t := p)" "mb_state (ms_mb s') = mb_state (ms_mb s)" "ms_inq s' = ms_inq s"
    and o: "owner (ms_thr s t)" and p: "owner p" "\<And>st. phase_state_ok (ms_thr s t) st \<Longrightarrow> phase_state_ok p st"
  shows "own_inv s'"
proof -
  have "mb_state (ms_mb s) \<noteq> IDLE"
    using own_inv_state [OF inv, of t] o by (cases "ms_thr s t") auto
  then show ?thesis using own_keep [OF inv o p(1) p(2) [OF own_inv_state [OF inv]] _ s'(1) s'(2,3)] by simp
qed

lemma own_outside:
  assumes "own_inv s" "ms_thr s' = (ms_thr s)(t := p)" "mb_state (ms_mb s') = mb_state (ms_mb s)" "ms_inq s' = ms_inq s"
    and "\<not> owner (ms_thr s t)" "\<not> owner p" "phase_state_ok p (mb_state (ms_mb s))"
  shows "own_inv s'"
  using assms unfolding own_inv_def by (auto split: if_splits)

lemma own_gain:
  assumes inv: "own_inv s" and none: "mb_state (ms_mb s) = IDLE \<or> 0 < ms_inq s"
    and s': "ms_thr s' = (ms_thr s)(t := p)" "mb_state (ms_mb s') = QUEUED" "ms_inq s' = 0"
    and p: "owner p" "phase_state_ok p QUEUED"
  shows "own_inv s'"
proof -
  have out: "\<not> owner (ms_thr s u)" for u
  proof
    assume o: "owner (ms_thr s u)"
    then have "mb_state (ms_mb s) = IDLE" using none own_inv_inq [OF inv o] by simp
    then show False using o own_inv_state [OF inv, of u] by (cases "ms_thr s u") auto
  qed
  then have "phase_state_ok (ms_thr s u) QUEUED" for u
    using own_inv_state [OF inv, of u] phase_ok_outside by blast
  then show ?thesis
    using out s' p unfolding own_inv_def by auto
qed

lemma own_lose:
  assumes inv: "own_inv s" and o: "owner (ms_thr s t)" and p: "\<not> owner p" "phase_state_ok p st"
    and s': "ms_thr s' = (ms_thr s)(t := p)" "mb_state (ms_mb s') = st"
    and st: "st = IDLE \<and> ms_inq s' = 0 \<or> st = QUEUED \<and> ms_inq s' = 1"
  shows "own_inv s'"
proof -
  have "phase_state_ok (ms_thr s u) st" if "u \<noteq> t" for u
    using own_inv_alone [OF inv o that] own_inv_state [OF inv, of u] phase_ok_outside by blast
  then show ?thesis
    using own_inv_alone [OF inv o] p s' st unfolding own_inv_def by auto
qed

lemma own_notify:
  assumes inv: "own_inv s" and st: "mb_state (ms_mb s) = RUNNING" and t: "\<not> owner (ms_thr s t)"
    and s': "ms_thr s' = (ms_thr s)(t := Off)" "mb_state (ms_mb s') = NOTIFIED" "ms_inq s' = ms_inq s"
  shows "own_inv s'"
proof -
  have "phase_state_ok (ms_thr s u) NOTIFIED" for u
    using own_inv_state [OF inv, of u] st by (cases "ms_thr s u") auto
  moreover have "u \<noteq> t" if "owner (ms_thr s u)" for u using that t by auto
  ultimately show ?thesis
    using inv s' st unfolding own_inv_def by (auto; blast)
qed

lemma notify_target_cases:
  "notify_target st = Some nx \<Longrightarrow> st = IDLE \<and> nx = QUEUED \<or> st = RUNNING \<and> nx = NOTIFIED"
  by (cases st) auto

lemma own_inv_same:
  "\<lbrakk>own_inv s; ms_thr s' = ms_thr s; mb_state (ms_mb s') = mb_state (ms_mb s); ms_inq s' = ms_inq s\<rbrakk> \<Longrightarrow> own_inv s'"
  by (simp add: own_inv_def)

lemma own_producer:
  assumes "producer_step s s'" "own_inv s"
  shows "own_inv s'"
  using assms
proof cases
  case (cas_ok t nx)
  then show ?thesis
  proof (cases "mb_state (ms_mb s) = IDLE")
    case True
    then have "ms_inq s = 0" using assms(2) by (auto simp: own_inv_def)
    then show ?thesis
      using True cas_ok own_gain [OF assms(2), of s' t Enq] by simp
  next
    case False
    then show ?thesis
      using cas_ok notify_target_cases [OF cas_ok(3)] own_notify [OF assms(2), of t s'] by simp
  qed
next
  case (enq_mark t)
  then show ?thesis
    using own_keep [OF assms(2), of t Enq2 QUEUED s'] by (simp add: mark_queued_def)
next
  case (enq_put t)
  then show ?thesis
    using own_lose [OF assms(2), of t Off QUEUED s'] own_inv_state [OF assms(2), of t]
      own_inv_inq [OF assms(2), of t] by simp
next
  case (send t m)
  then show ?thesis using own_outside [OF assms(2), of s' t "PushMsg m"] by simp
next
  case (send_push t m)
  then show ?thesis using own_outside [OF assms(2), of s' t Load] by simp
next
  case (wake t r)
  then show ?thesis using own_outside [OF assms(2), of s' t "PushRdy r"] by simp
next
  case (wake_push t r)
  then show ?thesis using own_outside [OF assms(2), of s' t Load] by simp
next
  case (kill t)
  then show ?thesis using own_outside [OF assms(2), of s' t Load] by simp
next
  case (load_done t)
  then show ?thesis using own_outside [OF assms(2), of s' t Off] by simp
next
  case (load_try t)
  then show ?thesis using own_outside [OF assms(2), of s' t "Cas (mb_state (ms_mb s))"] by simp
next
  case (cas_retry t e)
  then show ?thesis using own_outside [OF assms(2), of s' t Off] own_outside [OF assms(2), of s' t "Cas (mb_state (ms_mb s))"] by (simp split: if_splits)
qed

lemma own_worker:
  assumes "worker_step s s'" "own_inv s"
  shows "own_inv s'"
  using assms
proof cases
  case (pop t)
  then show ?thesis
    using assms(2) by (intro own_gain [OF assms(2), of s' t Got]) (auto simp: own_inv_def)
next
  case (mark_run t)
  then show ?thesis
    using own_keep [OF assms(2), of t Top RUNNING s'] by (simp add: mark_running_def)
next
  case (idle_ok t)
  then show ?thesis
    using own_lose [OF assms(2), of t PostIdle IDLE s'] own_inv_inq [OF assms(2), of t] by simp
next
  case (reset t)
  then show ?thesis
    using own_keep [OF assms(2), of t Scan RUNNING s'] by simp
next
  case (post_idle t)
  then show ?thesis
    using own_outside [OF assms(2), of s' t Load] own_outside [OF assms(2), of s' t Off] by simp
next
  case (idle_notified t)
  then show ?thesis
    using own_keep [OF assms(2), of t Reset NOTIFIED s'] by simp
next
  case (scan_burst t m ms mb)
  then show ?thesis
    using own_move [OF assms(2), of s' t Working] check_overload_frame [OF scan_burst(5)] by simp
next
  case (que_take t m ms mb)
  then show ?thesis
    using own_move [OF assms(2), of s' t Working] check_overload_frame [OF que_take(4)] by simp
next
  case (take_panic t m ms p)
  then show ?thesis by (intro own_inv_same [OF assms(2)]) auto
next
  case (idle_panic t)
  then show ?thesis by (intro own_inv_same [OF assms(2)]) auto
next
  case (top t)
  then show ?thesis using own_move [OF assms(2), of s' t DrainR] own_move [OF assms(2), of s' t Scan] by (simp split: if_splits)
next
  case (scan_go t)
  then show ?thesis using own_move [OF assms(2), of s' t RdyPop] by simp
next
  case (rdy_take t r rs)
  then show ?thesis using own_move [OF assms(2), of s' t Working] by simp
next
  case (rdy_empty t)
  then show ?thesis using own_move [OF assms(2), of s' t QuePop] by simp
next
  case (que_empty t)
  then show ?thesis using own_move [OF assms(2), of s' t CasIdle] by simp
next
  case (work_dead t)
  then show ?thesis using own_move [OF assms(2), of s' t DrainR] by simp
next
  case (work_more t)
  then show ?thesis using own_move [OF assms(2), of s' t Scan] by simp
next
  case (work_yield t)
  then show ?thesis using own_move [OF assms(2), of s' t Enq] by auto
next
  case (work_hold t)
  then show ?thesis using own_move [OF assms(2), of s' t Top] by simp
qed

lemma own_cleaner:
  assumes "cleaner_step s s'" "own_inv s"
  shows "own_inv s'"
  using assms
proof cases
  case (release_ok t)
  then show ?thesis
    using own_lose [OF assms(2), of t Off IDLE s'] own_inv_inq [OF assms(2), of t] by simp
next
  case (release_notified t)
  then show ?thesis
    using own_keep [OF assms(2), of t RelReset NOTIFIED s'] by simp
next
  case (release_reset t)
  then show ?thesis
    using own_keep [OF assms(2), of t DrainR RUNNING s'] by simp
next
  case (drain_ready t r rs)
  then show ?thesis by (intro own_inv_same [OF assms(2)]) auto
next
  case (drain_queue t m ms)
  then show ?thesis by (intro own_inv_same [OF assms(2)]) auto
next
  case (release_panic t)
  then show ?thesis by (intro own_inv_same [OF assms(2)]) auto
next
  case (drain_ready_done t)
  then show ?thesis using own_move [OF assms(2), of s' t DrainQ] by simp
next
  case (drain_queue_done t)
  then show ?thesis using own_move [OF assms(2), of s' t Release] by simp
qed

lemma own_init: "own_inv init_msys"
  by (auto simp: own_inv_def init_msys_def new_mailbox_def)

section \<open>No work and no kill is lost\<close>

lemma work_covered: "notifying (ms_thr s t) \<Longrightarrow> work_inv s"
  by (auto simp: work_inv_def Let_def)

lemma saw_phases:
  "saw_no_ready p \<Longrightarrow> owner p \<and> \<not> notifying p \<and> \<not> saw_nothing p"
  "saw_nothing p \<Longrightarrow> owner p \<and> \<not> notifying p \<and> \<not> saw_no_ready p"
  by (cases p; simp)+

lemma saw_owner: "saw_no_ready p \<or> saw_nothing p \<Longrightarrow> phase_state_ok p st \<Longrightarrow> st \<in> {RUNNING, NOTIFIED}"
  by (cases p) auto

lemma work_awake:
  assumes inv: "own_inv s" and st: "mb_state (ms_mb s) \<in> {QUEUED, NOTIFIED}"
  shows "work_inv s"
proof -
  have "mb_state (ms_mb s) = NOTIFIED" if "saw_no_ready (ms_thr s t) \<or> saw_nothing (ms_thr s t)" for t
    using saw_owner [OF that own_inv_state [OF inv]] st by auto
  then show ?thesis using st unfolding work_inv_def Let_def by auto
qed

lemma work_owner:
  assumes inv: "own_inv s" and t: "owner (ms_thr s t)" "\<not> saw_no_ready (ms_thr s t)" "\<not> saw_nothing (ms_thr s t)"
  shows "work_inv s"
proof -
  have "\<not> saw_no_ready (ms_thr s u) \<and> \<not> saw_nothing (ms_thr s u)" for u
    using own_inv_alone [OF inv t(1), of u] t(2,3) by (cases "u = t"; cases "ms_thr s u") auto
  moreover have "mb_state (ms_mb s) \<noteq> IDLE"
    using own_inv_state [OF inv, of t] t(1) by (cases "ms_thr s t") auto
  ultimately show ?thesis unfolding work_inv_def Let_def by simp
qed

lemma work_keep:
  assumes w: "work_inv s" and thr: "ms_thr s' = (ms_thr s)(t := p)"
    and same: "mb_state (ms_mb s') = mb_state (ms_mb s)" "mb_queue (ms_mb s') = mb_queue (ms_mb s)"
      "mb_ready (ms_mb s') = mb_ready (ms_mb s)" "ms_dead s' = ms_dead s" "ms_destroyed s' = ms_destroyed s"
    and t: "\<not> notifying (ms_thr s t)" "ms_thr s t \<noteq> PostIdle \<or> \<not> ms_dead s" "\<not> saw_no_ready p" "\<not> saw_nothing p"
  shows "work_inv s'"
proof -
  have cov: "(\<exists>u. notifying (ms_thr s u)) \<Longrightarrow> \<exists>u. notifying (ms_thr s' u)"
  proof (elim exE)
    fix u assume "notifying (ms_thr s u)"
    then show "\<exists>u. notifying (ms_thr s' u)" using thr t(1) by (intro exI [of _ u]) auto
  qed
  have post: "(\<exists>u. ms_thr s u = PostIdle) \<Longrightarrow> ms_dead s \<Longrightarrow> \<exists>u. ms_thr s' u = PostIdle"
  proof (elim exE)
    fix u assume "ms_thr s u = PostIdle" "ms_dead s"
    then show "\<exists>u. ms_thr s' u = PostIdle" using thr t(2) by (intro exI [of _ u]) auto
  qed
  have "saw_no_ready (ms_thr s' v) \<Longrightarrow> saw_no_ready (ms_thr s v)"
    "saw_nothing (ms_thr s' v) \<Longrightarrow> saw_nothing (ms_thr s v)" for v
    using thr t(3,4) by (auto split: if_splits)
  then show ?thesis
    using w cov post unfolding work_inv_def Let_def same by meson
qed

lemma work_producer:
  assumes step: "producer_step s s'" and own: "own_inv s" and w: "work_inv s"
  shows "work_inv s'"
proof -
  have own': "own_inv s'" using own_producer [OF step own] .
  show ?thesis
    using step
  proof cases
    case (send t m)
    then show ?thesis using work_keep [OF w, of s' t "PushMsg m"] by simp
  next
    case (wake t r)
    then show ?thesis using work_keep [OF w, of s' t "PushRdy r"] by simp
  next
    case (send_push t m)
    then show ?thesis using work_covered [of s' t] by simp
  next
    case (wake_push t r)
    then show ?thesis using work_covered [of s' t] by simp
  next
    case (kill t)
    then show ?thesis using work_covered [of s' t] by simp
  next
    case (load_done t)
    then show ?thesis using work_awake [OF own'] by (cases "mb_state (ms_mb s)") auto
  next
    case (load_try t)
    then show ?thesis using work_covered [of s' t] by simp
  next
    case (cas_ok t nx)
    then show ?thesis using work_awake [OF own'] notify_target_cases [OF cas_ok(3)] by auto
  next
    case (cas_retry t e)
    then show ?thesis
      using work_awake [OF own'] work_covered [of s' t] by (cases "mb_state (ms_mb s)") auto
  next
    case (enq_mark t)
    then show ?thesis using work_awake [OF own'] by (simp add: mark_queued_def)
  next
    case (enq_put t)
    then show ?thesis using work_awake [OF own'] own_inv_state [OF own, of t] by simp
  qed
qed

text \<open>The owner has seen the ready queue empty, then both; then it may go idle.\<close>

lemma work_saw_ready:
  assumes own: "own_inv s'" and t: "saw_no_ready (ms_thr s' t)" and e: "mb_ready (ms_mb s') = []"
  shows "work_inv s'"
proof -
  have "owner (ms_thr s' t)" "\<not> saw_nothing (ms_thr s' t)" using t by (cases "ms_thr s' t"; simp)+
  then have "\<not> saw_nothing (ms_thr s' u)" for u
    using own_inv_alone [OF own, of t u] by (cases "u = t"; cases "ms_thr s' u") auto
  moreover have "mb_state (ms_mb s') \<noteq> IDLE"
    using saw_owner [OF _ own_inv_state [OF own, of t]] t by auto
  ultimately show ?thesis using e unfolding work_inv_def Let_def by auto
qed

lemma work_saw_all:
  assumes own: "own_inv s'" and w: "work_inv s" and t: "saw_no_ready (ms_thr s t)" "saw_nothing p"
    and s': "s' = goto t p s" and e: "mb_queue (ms_mb s) = []"
  shows "work_inv s'"
proof -
  have o: "owner (ms_thr s' t)" "\<not> saw_no_ready (ms_thr s' t)" using t(2) s' by (cases p; simp)+
  then have "\<not> saw_no_ready (ms_thr s' u)" for u
    using own_inv_alone [OF own, of t u] by (cases "u = t"; cases "ms_thr s' u") auto
  moreover have "mb_state (ms_mb s') \<noteq> IDLE"
    using own_inv_state [OF own, of t] o by (cases "ms_thr s' t") auto
  moreover have "mb_ready (ms_mb s) \<noteq> [] \<Longrightarrow> mb_state (ms_mb s) = NOTIFIED \<or> (\<exists>u. notifying (ms_thr s' u))"
  proof -
    assume "mb_ready (ms_mb s) \<noteq> []"
    then consider "mb_state (ms_mb s) = NOTIFIED" | u where "notifying (ms_thr s u)"
      using w t(1) unfolding work_inv_def Let_def by blast
    then show ?thesis
    proof cases
      case (2 u)
      then have "u \<noteq> t" using saw_phases(1) [OF t(1)] by auto
      then show ?thesis using 2 s' by auto
    qed simp
  qed
  ultimately show ?thesis using e s' unfolding work_inv_def Let_def by auto
qed

lemma work_go_idle:
  assumes own: "own_inv s" and w: "work_inv s" and t: "saw_nothing (ms_thr s t)" "mb_state (ms_mb s) = RUNNING"
    and s': "ms_thr s' = (ms_thr s)(t := p)" "mb_state (ms_mb s') = IDLE"
      "mb_queue (ms_mb s') = mb_queue (ms_mb s)" "mb_ready (ms_mb s') = mb_ready (ms_mb s)"
    and p: "p = PostIdle \<or> p = Off \<and> ms_destroyed s'"
  shows "work_inv s'"
proof -
  have o: "owner (ms_thr s t)" using t(1) by (cases "ms_thr s t") auto
  have "\<not> owner (ms_thr s' u)" for u
    using own_inv_alone [OF own o, of u] p s'(1) by (cases "u = t") auto
  then have "\<not> saw_no_ready (ms_thr s' u) \<and> \<not> saw_nothing (ms_thr s' u)" for u
    using saw_phases by blast
  moreover have "\<exists>u. notifying (ms_thr s' u)" if ne: "mb_queue (ms_mb s) \<noteq> [] \<or> mb_ready (ms_mb s) \<noteq> []"
  proof -
    obtain u where u: "notifying (ms_thr s u)"
      using w t ne unfolding work_inv_def Let_def by fastforce
    then have "u \<noteq> t" using t(1) by (cases "ms_thr s t") auto
    then show ?thesis using u s'(1) by auto
  qed
  moreover have "p = PostIdle \<Longrightarrow> \<exists>u. ms_thr s' u = PostIdle" using s'(1) by auto
  ultimately show ?thesis
    using s'(2-4) p unfolding work_inv_def Let_def by auto
qed

lemma work_worker:
  assumes step: "worker_step s s'" and own: "own_inv s" and w: "work_inv s"
  shows "work_inv s'"
proof -
  have own': "own_inv s'" using own_worker [OF step own] .
  show ?thesis
    using step
  proof cases
    case (rdy_empty t)
    then show ?thesis using work_saw_ready [OF own', of t] by simp
  next
    case (que_empty t)
    then show ?thesis using work_saw_all [OF own' w, of t CasIdle] by simp
  next
    case (idle_ok t)
    then show ?thesis using work_go_idle [OF own w, of t s' PostIdle] by simp
  next
    case (post_idle t)
    show ?thesis
    proof (cases "ms_dead s")
      case True
      then show ?thesis using post_idle work_covered [of s' t] by simp
    next
      case False
      then show ?thesis using post_idle work_keep [OF w, of s' t Off] by simp
    qed
  next
    case (take_panic t m ms p)
    then show ?thesis using w by (simp add: work_inv_def)
  next
    case (idle_panic t)
    then show ?thesis using w by (simp add: work_inv_def)
  next
    case (pop t)
    then show ?thesis using work_owner [OF own', of t] by simp
  next
    case (mark_run t)
    then show ?thesis using work_owner [OF own', of t] by simp
  next
    case (top t)
    then show ?thesis using work_owner [OF own', of t] by simp
  next
    case (scan_burst t m ms mb)
    then show ?thesis using work_owner [OF own', of t] by simp
  next
    case (scan_go t)
    then show ?thesis using work_owner [OF own', of t] by simp
  next
    case (rdy_take t r rs)
    then show ?thesis using work_owner [OF own', of t] by simp
  next
    case (que_take t m ms mb)
    then show ?thesis using work_owner [OF own', of t] by simp
  next
    case (idle_notified t)
    then show ?thesis using work_owner [OF own', of t] by simp
  next
    case (reset t)
    then show ?thesis using work_owner [OF own', of t] by simp
  next
    case (work_dead t)
    then show ?thesis using work_owner [OF own', of t] by simp
  next
    case (work_more t)
    then show ?thesis using work_owner [OF own', of t] by simp
  next
    case (work_yield t)
    then show ?thesis using work_owner [OF own', of t] by simp
  next
    case (work_hold t)
    then show ?thesis using work_owner [OF own', of t] by simp
  qed
qed

lemma work_cleaner:
  assumes step: "cleaner_step s s'" and own: "own_inv s" and w: "work_inv s"
  shows "work_inv s'"
proof -
  have own': "own_inv s'" using own_cleaner [OF step own] .
  show ?thesis
    using step
  proof cases
    case (drain_ready_done t)
    then show ?thesis using work_saw_ready [OF own', of t] by simp
  next
    case (drain_queue t m ms)
    then have "mb_state (ms_mb s) \<noteq> IDLE"
      using saw_owner [OF _ own_inv_state [OF own, of t]] by auto
    moreover have "\<not> saw_nothing (ms_thr s u)" for u
      using own_inv_alone [OF own, of t u] saw_phases(2) [of "ms_thr s u"] drain_queue(2) by (cases "u = t") auto
    ultimately show ?thesis using w drain_queue unfolding work_inv_def Let_def by simp
  next
    case (drain_queue_done t)
    then show ?thesis using work_saw_all [OF own' w, of t Release] by simp
  next
    case (release_ok t)
    then show ?thesis using work_go_idle [OF own w, of t s' Off] by simp
  next
    case (release_panic t)
    then show ?thesis using w by (simp add: work_inv_def)
  next
    case (drain_ready t r rs)
    then show ?thesis using work_owner [OF own', of t] by simp
  next
    case (release_notified t)
    then show ?thesis using work_owner [OF own', of t] by simp
  next
    case (release_reset t)
    then show ?thesis using work_owner [OF own', of t] by simp
  qed
qed

lemma work_init: "work_inv init_msys"
  by (rule work_awake [OF own_init]) (simp add: init_msys_def new_mailbox_def)

section \<open>Accounting and order\<close>

abbreviation pushing :: "'m phase \<Rightarrow> bool" where
  "pushing p \<equiv> (\<exists>m. p = PushMsg m)"

lemma threads_finite: "finite {u. f u \<noteq> Off} \<Longrightarrow> finite {u. (f(t := p)) u \<noteq> Off}"
  by (rule finite_subset [of _ "insert t {u. f u \<noteq> Off}"]) auto

lemma pushers_finite: "finite {u. f u \<noteq> Off} \<Longrightarrow> finite {u. pushing (f u)}"
  by (rule finite_subset [of _ "{u. f u \<noteq> Off}"]) auto

lemma pushers_same:
  "\<lbrakk>\<not> pushing (f t); \<not> pushing p\<rbrakk> \<Longrightarrow> {u. pushing ((f(t := p)) u)} = {u. pushing (f u)}"
  by auto

lemma pushers_more:
  "\<lbrakk>finite {u. f u \<noteq> Off}; \<not> pushing (f t)\<rbrakk> \<Longrightarrow> card {u. pushing ((f(t := PushMsg m)) u)} = card {u. pushing (f u)} + 1"
proof -
  assume f: "finite {u. f u \<noteq> Off}" "\<not> pushing (f t)"
  have "{u. pushing ((f(t := PushMsg m)) u)} = insert t {u. pushing (f u)}" by auto
  then show ?thesis using f pushers_finite [OF f(1)] by simp
qed

lemma pushers_less:
  "\<lbrakk>finite {u. f u \<noteq> Off}; f t = PushMsg m\<rbrakk> \<Longrightarrow> card {u. pushing ((f(t := Load)) u)} + 1 = card {u. pushing (f u)}"
proof -
  assume f: "finite {u. f u \<noteq> Off}" "f t = PushMsg m"
  have "{u. pushing ((f(t := Load)) u)} = {u. pushing (f u)} - {t}" by auto
  moreover have "t \<in> {u. pushing (f u)}" using f by auto
  ultimately show ?thesis
    using card_Suc_Diff1 [OF pushers_finite [OF f(1)], of t] by (metis Suc_eq_plus1)
qed

lemma data_move:
  assumes "data_inv s" "ms_thr s' = (ms_thr s)(t := p)" "\<not> pushing (ms_thr s t)" "\<not> pushing p"
    and "mailbox_inv (ms_mb s) \<Longrightarrow> mailbox_inv (ms_mb s')" "ms_panic s' = ms_panic s"
    and "mb_len (ms_mb s') + length (mb_queue (ms_mb s)) = mb_len (ms_mb s) + length (mb_queue (ms_mb s'))"
    and "ms_sent s = ms_got s @ mb_queue (ms_mb s) \<Longrightarrow> ms_sent s' = ms_got s' @ mb_queue (ms_mb s')"
    and "ms_woken s = ms_polled s @ mb_ready (ms_mb s) \<Longrightarrow> ms_woken s' = ms_polled s' @ mb_ready (ms_mb s')"
  shows "data_inv s'"
  using assms threads_finite [of "ms_thr s" t p] pushers_same [of "ms_thr s" t p]
  unfolding data_inv_def by simp

lemma state_mailbox_inv [simp]: "mailbox_inv (mb\<lparr>mb_state := st\<rparr>) = mailbox_inv mb"
  by (simp add: mailbox_inv_def)

lemma idle_mailbox_inv:
  "mailbox_inv mb \<Longrightarrow> mailbox_inv (mb\<lparr>mb_state := st, mb_threshold := OVERLOAD_THRESHOLD\<rparr>)"
  unfolding mailbox_inv_def by (auto intro: exI [of _ 0])

lemma data_producer:
  assumes step: "producer_step s s'" and d: "data_inv s"
  shows "data_inv s'"
  using step
proof cases
  case (send t m)
  then show ?thesis
    using d threads_finite [of "ms_thr s" t "PushMsg m"] pushers_more [of "ms_thr s" t m]
    by (auto simp: data_inv_def mailbox_inv_def)
next
  case (send_push t m)
  then have "mb_len (ms_mb s) = Suc (length (mb_queue (ms_mb s))) + card {u. pushing (((ms_thr s)(t := Load)) u)}"
    using d pushers_less [of "ms_thr s" t m] by (simp add: data_inv_def)
  then show ?thesis
    using send_push d threads_finite [of "ms_thr s" t Load] by (auto simp: data_inv_def mailbox_inv_def)
next
  case (wake t r)
  then show ?thesis using data_move [OF d, of s' t] by simp
next
  case (wake_push t r)
  then show ?thesis using data_move [OF d, of s' t] by (simp add: mailbox_inv_def)
next
  case (kill t)
  then show ?thesis using data_move [OF d, of s' t] by simp
next
  case (load_done t)
  then show ?thesis using data_move [OF d, of s' t] by simp
next
  case (load_try t)
  then show ?thesis using data_move [OF d, of s' t] by simp
next
  case (cas_ok t nx)
  then show ?thesis using data_move [OF d, of s' t] by (simp split: if_splits)
next
  case (cas_retry t e)
  then show ?thesis using data_move [OF d, of s' t] by (simp split: if_splits)
next
  case (enq_mark t)
  then show ?thesis using data_move [OF d, of s' t] by (simp add: mark_queued_def)
next
  case (enq_put t)
  then show ?thesis using data_move [OF d, of s' t] by simp
qed

lemma data_take:
  assumes d: "data_inv s" and q: "mb_queue (ms_mb s) = m # ms"
    and co: "check_overload ((ms_mb s)\<lparr>mb_queue := ms, mb_streak := 0\<rparr>) = Some (Inr mb)"
    and t: "\<not> pushing (ms_thr s t)"
  shows "data_inv (goto t Working (s\<lparr>ms_mb := mb, ms_got := ms_got s @ [m]\<rparr>))"
proof -
  note frame = check_overload_frame [OF co]
  have "mailbox_inv ((ms_mb s)\<lparr>mb_queue := ms, mb_streak := 0\<rparr>)" "0 < mb_len (ms_mb s)"
    using d q by (auto simp: data_inv_def mailbox_inv_def)
  then have "\<exists>k. mb_threshold mb = OVERLOAD_THRESHOLD * 2 ^ k"
    using check_overload_spec [of "(ms_mb s)\<lparr>mb_queue := ms, mb_streak := 0\<rparr>"] co by auto
  then have "mailbox_inv mb"
    using d q frame by (auto simp: mailbox_inv_def data_inv_def)
  then show ?thesis
    using frame q t data_move [OF d, of "goto t Working (s\<lparr>ms_mb := mb, ms_got := ms_got s @ [m]\<rparr>)" t Working] by simp
qed

lemma data_worker:
  assumes step: "worker_step s s'" and own: "own_inv s" and d: "data_inv s"
  shows "data_inv s'"
  using step
proof cases
  case (scan_burst t m ms mb)
  then show ?thesis using data_take [OF d, of m ms mb t] by simp
next
  case (que_take t m ms mb)
  then show ?thesis using data_take [OF d, of m ms mb t] by simp
next
  case (take_panic t m ms p)
  then have "mb_len (ms_mb s) = 0"
    by (auto simp: check_overload_def Let_def split: if_splits)
  then show ?thesis using take_panic(3) d by (simp add: data_inv_def)
next
  case (idle_panic t)
  then show ?thesis using own_inv_state [OF own, of t] by simp
next
  case (rdy_take t r rs)
  then show ?thesis
    using data_move [OF d, of s' t Working] by (auto simp: mailbox_inv_def)
next
  case (idle_ok t)
  then show ?thesis
    using data_move [OF d, of s' t PostIdle] by (simp add: idle_mailbox_inv)
next
  case (top t)
  then show ?thesis using data_move [OF d, of s' t] by (simp split: if_splits)
next
  case (post_idle t)
  then show ?thesis using data_move [OF d, of s' t] by (simp split: if_splits)
next
  case (pop t)
  then show ?thesis using data_move [OF d, of s' t] by simp
next
  case (mark_run t)
  then show ?thesis using data_move [OF d, of s' t] by (simp add: mark_running_def)
next
  case (scan_go t)
  then show ?thesis using data_move [OF d, of s' t] by simp
next
  case (rdy_empty t)
  then show ?thesis using data_move [OF d, of s' t] by simp
next
  case (que_empty t)
  then show ?thesis using data_move [OF d, of s' t] by simp
next
  case (idle_notified t)
  then show ?thesis using data_move [OF d, of s' t] by simp
next
  case (reset t)
  then show ?thesis using data_move [OF d, of s' t] by simp
next
  case (work_dead t)
  then show ?thesis using data_move [OF d, of s' t] by simp
next
  case (work_more t)
  then show ?thesis using data_move [OF d, of s' t] by simp
next
  case (work_yield t)
  then show ?thesis using data_move [OF d, of s' t] by simp
next
  case (work_hold t)
  then show ?thesis using data_move [OF d, of s' t] by simp
qed

lemma data_cleaner:
  assumes step: "cleaner_step s s'" and own: "own_inv s" and d: "data_inv s"
  shows "data_inv s'"
  using step
proof cases
  case (drain_ready t r rs)
  then show ?thesis using d by (auto simp: data_inv_def mailbox_inv_def)
next
  case (drain_queue t m ms)
  then show ?thesis using d by (auto simp: data_inv_def mailbox_inv_def)
next
  case (release_panic t)
  then show ?thesis using own_inv_state [OF own, of t] by simp
next
  case (drain_ready_done t)
  then show ?thesis using data_move [OF d, of s' t] by simp
next
  case (drain_queue_done t)
  then show ?thesis using data_move [OF d, of s' t] by simp
next
  case (release_ok t)
  then show ?thesis using data_move [OF d, of s' t] by simp
next
  case (release_notified t)
  then show ?thesis using data_move [OF d, of s' t] by simp
next
  case (release_reset t)
  then show ?thesis using data_move [OF d, of s' t] by simp
qed

lemma data_init: "data_inv init_msys"
proof -
  let ?f = "(\<lambda>_. Off)(0 := Enq) :: nat \<Rightarrow> 'a phase"
  have "finite {t. ?f t \<noteq> Off}" by (rule finite_subset [of _ "{0}"]) auto
  moreover have "{t. pushing (?f t)} = {}" by auto
  then have "card {t. pushing (?f t)} = 0" by (simp only: card.empty)
  ultimately show ?thesis
    using new_mailbox_inv [where 'a = 'a]
    unfolding data_inv_def init_msys_def by (simp add: new_mailbox_def del: fun_upd_apply card_0_eq)
qed

lemma msys_reach_inv: "msys_reach s \<Longrightarrow> own_inv s \<and> work_inv s \<and> data_inv s"
proof (induction rule: msys_reach.induct)
  case init
  then show ?case using own_init work_init data_init by blast
next
  case (producer s s')
  then show ?case using own_producer work_producer data_producer by blast
next
  case (worker s s')
  then show ?case using own_worker work_worker data_worker by blast
next
  case (cleaner s s')
  then show ?case using own_cleaner work_cleaner data_cleaner by blast
qed

section \<open>The atomic operations are uninterrupted runs of the steps\<close>

lemma notify_steps:
  assumes t: "ms_thr s t = Load"
  shows "producer_step\<^sup>*\<^sup>* s (goto t (if fst (notify (ms_mb s)) then Enq else Off) (s\<lparr>ms_mb := snd (notify (ms_mb s))\<rparr>))"
proof (cases "notify_target (mb_state (ms_mb s))")
  case None
  then have "producer_step s (goto t Off s)" using producer_step.load_done [OF t] by simp
  then show ?thesis using None by (auto simp: notify_def intro: r_into_rtranclp)
next
  case (Some nx)
  let ?s = "goto t (Cas (mb_state (ms_mb s))) s"
  have "producer_step s ?s" using producer_step.load_try [OF t] Some by simp
  moreover have "producer_step ?s (goto t (if nx = QUEUED then Enq else Off) (set_state nx ?s))"
    by (rule producer_step.cas_ok) (simp_all add: Some)
  ultimately show ?thesis
    using Some by (auto simp: notify_def intro: rtranclp.rtrancl_into_rtrancl)
qed

text \<open>The steps of one round of the loop of \<^verbatim>\<open>take_work\<close>.\<close>

lemma scan_to_ready:
  assumes "ms_thr s t = Scan" "mb_streak (ms_mb s) < READY_BURST \<or> mb_queue (ms_mb s) = []"
  shows "worker_step\<^sup>*\<^sup>* s (goto t RdyPop s)"
  using worker_step.scan_go [OF assms] by blast

lemma scan_to_queue:
  assumes "ms_thr s t = Scan" "mb_streak (ms_mb s) < READY_BURST \<or> mb_queue (ms_mb s) = []" "mb_ready (ms_mb s) = []"
  shows "worker_step\<^sup>*\<^sup>* s (goto t QuePop s)"
proof -
  have "worker_step (goto t RdyPop s) (goto t QuePop (goto t RdyPop s))"
    by (rule worker_step.rdy_empty) (simp_all add: assms)
  then show ?thesis using scan_to_ready [OF assms(1,2)] by (simp add: rtranclp.rtrancl_into_rtrancl)
qed

lemma scan_to_idle:
  assumes "ms_thr s t = Scan" "mb_queue (ms_mb s) = []" "mb_ready (ms_mb s) = []"
  shows "worker_step\<^sup>*\<^sup>* s (goto t CasIdle s)"
proof -
  have "worker_step (goto t QuePop s) (goto t CasIdle (goto t QuePop s))"
    by (rule worker_step.que_empty) (simp_all add: assms)
  then show ?thesis using scan_to_queue [of s t] assms by (simp add: rtranclp.rtrancl_into_rtrancl)
qed

lemma scan_take_message:
  assumes t: "ms_thr s t = Scan" and q: "mb_queue (ms_mb s) = m # ms"
    and turn: "mb_ready (ms_mb s) = [] \<or> READY_BURST \<le> mb_streak (ms_mb s)"
    and tk: "take_message m ms (ms_mb s) = Some (Inr (w, mb'))"
  shows "w = Some (WMessage m) \<and>
    worker_step\<^sup>*\<^sup>* s (goto t Working (s\<lparr>ms_mb := mb', ms_got := ms_got s @ [m]\<rparr>))"
proof -
  obtain z where z: "check_overload ((ms_mb s)\<lparr>mb_queue := ms, mb_streak := 0\<rparr>) = Some z"
    "(case z of Inl p \<Rightarrow> Inl p | Inr mb' \<Rightarrow> Inr (Some (WMessage m), mb')) = Inr (w, mb')"
    using tk by (auto simp: take_message_def)
  then have co: "check_overload ((ms_mb s)\<lparr>mb_queue := ms, mb_streak := 0\<rparr>) = Some (Inr mb')" and w: "w = Some (WMessage m)"
    by (cases z; simp)+
  show ?thesis
  proof (cases "READY_BURST \<le> mb_streak (ms_mb s)")
    case True
    then show ?thesis using worker_step.scan_burst [OF t True q co] w by blast
  next
    case False
    have "worker_step (goto t QuePop s) (goto t Working ((goto t QuePop s)\<lparr>ms_mb := mb', ms_got := ms_got s @ [m]\<rparr>))"
      using worker_step.que_take [of "goto t QuePop s" t m ms mb'] q co by simp
    then show ?thesis
      using scan_to_queue [OF t] False turn w by (simp add: rtranclp.rtrancl_into_rtrancl)
  qed
qed

lemma scan_take_ready:
  assumes "ms_thr s t = Scan" "mb_streak (ms_mb s) < READY_BURST \<or> mb_queue (ms_mb s) = []" "mb_ready (ms_mb s) = r # rs"
  shows "worker_step\<^sup>*\<^sup>* s (goto t Working (s\<lparr>ms_mb := (ms_mb s)\<lparr>mb_ready := rs,
    mb_streak := min (mb_streak (ms_mb s) + 1) READY_BURST\<rparr>, ms_polled := ms_polled s @ [r]\<rparr>))"
proof -
  have "worker_step (goto t RdyPop s) (goto t Working ((goto t RdyPop s)\<lparr>ms_mb := (ms_mb s)\<lparr>mb_ready := rs,
    mb_streak := min (mb_streak (ms_mb s) + 1) READY_BURST\<rparr>, ms_polled := ms_polled s @ [r]\<rparr>))"
    using worker_step.rdy_take [of "goto t RdyPop s" t r rs] assms(3) by simp
  then show ?thesis using scan_to_ready [OF assms(1,2)] by (simp add: rtranclp.rtrancl_into_rtrancl)
qed

lemma scan_go_idle:
  assumes t: "ms_thr s t = Scan" and e: "mb_queue (ms_mb s) = []" "mb_ready (ms_mb s) = []" and st: "mb_state (ms_mb s) = RUNNING"
  shows "worker_step\<^sup>*\<^sup>* s (goto t PostIdle (s\<lparr>ms_mb := (ms_mb s)\<lparr>mb_state := IDLE, mb_threshold := OVERLOAD_THRESHOLD\<rparr>\<rparr>))"
proof -
  have "worker_step (goto t CasIdle s)
    (goto t PostIdle ((goto t CasIdle s)\<lparr>ms_mb := (ms_mb s)\<lparr>mb_state := IDLE, mb_threshold := OVERLOAD_THRESHOLD\<rparr>\<rparr>))"
    using worker_step.idle_ok [of "goto t CasIdle s" t] st by simp
  then show ?thesis using scan_to_idle [OF t e] by (simp add: rtranclp.rtrancl_into_rtrancl)
qed

lemma scan_rescan:
  assumes t: "ms_thr s t = Scan" and e: "mb_queue (ms_mb s) = []" "mb_ready (ms_mb s) = []" and st: "mb_state (ms_mb s) = NOTIFIED"
  shows "worker_step\<^sup>*\<^sup>* s (set_state RUNNING s)"
proof -
  have "worker_step (goto t CasIdle s) (goto t Reset (goto t CasIdle s))"
    by (rule worker_step.idle_notified) (simp_all add: st)
  moreover have "worker_step (goto t Reset s) (goto t Scan (set_state RUNNING (goto t Reset s)))"
    by (rule worker_step.reset) simp
  moreover have "goto t Scan (set_state RUNNING (goto t Reset s)) = set_state RUNNING s"
    using t by (cases s) (simp add: fun_upd_idem)
  ultimately show ?thesis
    using scan_to_idle [OF t e] by (simp add: rtranclp.rtrancl_into_rtrancl)
qed

lemma take_work_round:
  assumes t: "ms_thr s t = Scan" and tw: "take_work (ms_mb s) = Some (Inr (w, mb'))"
    and busy: "mb_queue (ms_mb s) \<noteq> [] \<or> mb_ready (ms_mb s) \<noteq> [] \<or> mb_state (ms_mb s) = RUNNING"
  shows "\<exists>s'. worker_step\<^sup>*\<^sup>* s s' \<and> ms_mb s' = mb' \<and> ms_inq s' = ms_inq s \<and> ms_dead s' = ms_dead s \<and>
    ms_thr s' = (ms_thr s)(t := if w = None then PostIdle else Working)"
proof (cases "mb_queue (ms_mb s) \<noteq> [] \<and> (mb_ready (ms_mb s) = [] \<or> READY_BURST \<le> mb_streak (ms_mb s))")
  case True
  then obtain m ms where q: "mb_queue (ms_mb s) = m # ms" by (cases "mb_queue (ms_mb s)") auto
  then have "take_message m ms (ms_mb s) = Some (Inr (w, mb'))"
    using tw True by (auto simp: take_work.simps [of "ms_mb s"] split: if_splits)
  then show ?thesis using scan_take_message [OF t q] True by force
next
  case False
  then have turn: "mb_streak (ms_mb s) < READY_BURST \<or> mb_queue (ms_mb s) = []" by auto
  show ?thesis
  proof (cases "mb_ready (ms_mb s)")
    case (Cons r rs)
    then have "w = Some (WReady r)" "mb' = (ms_mb s)\<lparr>mb_ready := rs, mb_streak := min (mb_streak (ms_mb s) + 1) READY_BURST\<rparr>"
      using tw turn by (auto simp: take_work.simps [of "ms_mb s"] split: if_splits)
    then show ?thesis using scan_take_ready [OF t turn Cons] by force
  next
    case Nil
    then have e: "mb_queue (ms_mb s) = []" "mb_state (ms_mb s) = RUNNING" using False busy by auto
    then have "w = None" "mb' = (ms_mb s)\<lparr>mb_state := IDLE, mb_threshold := OVERLOAD_THRESHOLD\<rparr>"
      using tw Nil by (auto simp: take_work.simps [of "ms_mb s"] split: if_splits)
    then show ?thesis using scan_go_idle [OF t e(1) Nil e(2)] by force
  qed
qed

section \<open>Example runs\<close>

definition claimed :: "nat msys" where
  "claimed = init_msys\<lparr>ms_thr := (\<lambda>_. Off)(0 := Off, 1 := Top), ms_mb := new_mailbox\<lparr>mb_state := RUNNING\<rparr>\<rparr>"

lemma claimed_reach: "msys_reach claimed"
proof -
  let ?a = "goto 0 Enq2 ((init_msys :: nat msys)\<lparr>ms_mb := mark_queued new_mailbox\<rparr>)"
  let ?b = "goto 0 Off (?a\<lparr>ms_inq := 1\<rparr>)"
  let ?c = "goto 1 Got (?b\<lparr>ms_inq := 0\<rparr>)"
  have "producer_step init_msys ?a"
    using producer_step.enq_mark [of "init_msys :: nat msys" 0] by (simp add: init_msys_def)
  moreover have "producer_step ?a ?b"
    using producer_step.enq_put [of ?a 0] by (simp add: init_msys_def)
  moreover have "worker_step ?b ?c"
    using worker_step.pop [of ?b 1] by (simp add: init_msys_def)
  moreover have "worker_step ?c claimed"
    using worker_step.mark_run [of ?c 1]
    by (simp add: init_msys_def claimed_def mark_running_def mark_queued_def new_mailbox_def fun_upd_twist)
  ultimately show ?thesis
    using msys_reach.init msys_reach.producer msys_reach.worker by metis
qed

lemma msys_reach_workers: "worker_step\<^sup>*\<^sup>* s s' \<Longrightarrow> msys_reach s \<Longrightarrow> msys_reach s'"
  by (induction rule: rtranclp_induct) (auto intro: msys_reach.worker)

lemma idle_run: "\<exists>s :: nat msys. msys_reach s \<and> (\<forall>t. ms_thr s t = Off) \<and> ms_inq s = 0"
proof -
  let ?a = "goto 1 Scan claimed"
  let ?b = "goto 1 PostIdle (?a\<lparr>ms_mb := (ms_mb ?a)\<lparr>mb_state := IDLE, mb_threshold := OVERLOAD_THRESHOLD\<rparr>\<rparr>)"
  have "worker_step claimed ?a"
    using worker_step.top [of claimed 1] by (simp add: claimed_def init_msys_def)
  moreover have "worker_step\<^sup>*\<^sup>* ?a ?b"
    by (rule scan_go_idle) (simp_all add: claimed_def new_mailbox_def)
  moreover have "worker_step ?b (goto 1 Off ?b)"
    using worker_step.post_idle [of ?b 1] by (simp add: claimed_def init_msys_def)
  ultimately have "msys_reach (goto 1 Off ?b)"
    using claimed_reach by (meson msys_reach.worker msys_reach_workers)
  moreover have "ms_thr (goto 1 Off ?b) t = Off" for t by (simp add: claimed_def)
  moreover have "ms_inq (goto 1 Off ?b) = 0" by (simp add: claimed_def init_msys_def)
  ultimately show ?thesis by blast
qed

section \<open>Properties\<close>

text \<open>
  C1: However producers, killers and workers interleave, a service is executed or destroyed by at
  most one worker at any time, it is then in no run queue, and the panics that \<^verbatim>\<open>take_work\<close>,
  \<^verbatim>\<open>release\<close> and the overload accounting contain are never reached.
\<close>

theorem service_never_run_twice:
  assumes "msys_reach s" and "executing (ms_thr s t)"
  shows "ms_inq s = 0 \<and> \<not> ms_panic s \<and> {u. executing (ms_thr s u)} = {t}"
proof -
  have inv: "own_inv s" "data_inv s" using msys_reach_inv [OF assms(1)] by simp_all
  have ex: "executing p \<Longrightarrow> owner p" for p :: "'a phase" by (cases p) auto
  then have o: "owner (ms_thr s t)" using assms(2) by blast
  then show ?thesis
    using inv own_inv_inq [OF inv(1) o] own_inv_alone [OF inv(1) o] ex assms(2)
    by (auto simp: data_inv_def)
qed

theorem service_never_run_twice_witness:
  "\<exists>s :: nat msys. msys_reach s \<and> executing (ms_thr s 1) \<and> {u. executing (ms_thr s u)} = {1}"
proof -
  have "executing (ms_thr claimed 1)" by (simp add: claimed_def)
  then show ?thesis using service_never_run_twice [OF claimed_reach] claimed_reach by blast
qed

text \<open>
  C5: Nothing is lost: when no thread is inside an operation on the service and it is in no run
  queue, the mailbox is idle and both queues are empty, every message that was ever pushed has been
  handed out exactly once and in the order of the pushes, so has every wake-up, and a service that
  was killed has been destroyed.
\<close>

theorem quiescent_nothing_lost:
  assumes "msys_reach s" and "\<And>t. ms_thr s t = Off" and "ms_inq s = 0"
  shows "mb_state (ms_mb s) = IDLE \<and> mb_queue (ms_mb s) = [] \<and> mb_ready (ms_mb s) = [] \<and> mb_len (ms_mb s) = 0 \<and>
    ms_got s = ms_sent s \<and> ms_polled s = ms_woken s \<and> (ms_dead s \<longrightarrow> ms_destroyed s)"
proof -
  have inv: "own_inv s" "work_inv s" "data_inv s" using msys_reach_inv [OF assms(1)] by simp_all
  have idle: "mb_state (ms_mb s) = IDLE" using inv(1) assms(2,3) by (auto simp: own_inv_def)
  then have "mb_queue (ms_mb s) = []" "mb_ready (ms_mb s) = []" "ms_dead s \<longrightarrow> ms_destroyed s"
    using inv(2) assms(2) by (auto simp: work_inv_def Let_def)
  then show ?thesis using inv(3) assms(2) idle by (simp add: data_inv_def)
qed

theorem quiescent_nothing_lost_witness:
  "\<exists>s :: nat msys. msys_reach s \<and> (\<forall>t. ms_thr s t = Off) \<and> ms_inq s = 0 \<and> mb_state (ms_mb s) = IDLE"
  using idle_run quiescent_nothing_lost by metis

text \<open>
  C3: At every moment, in every interleaving, the messages handed out so far followed by the queue
  are the messages pushed so far, and the same holds of wake-ups; and while anything waits in an
  idle mailbox some producer is still inside \<^verbatim>\<open>notify\<close> and will make it runnable.
\<close>

theorem mailbox_fifo_exactly_once:
  assumes "msys_reach s"
  shows "ms_sent s = ms_got s @ mb_queue (ms_mb s) \<and> ms_woken s = ms_polled s @ mb_ready (ms_mb s) \<and>
    (mb_state (ms_mb s) = IDLE \<and> (mb_queue (ms_mb s) \<noteq> [] \<or> mb_ready (ms_mb s) \<noteq> []) \<longrightarrow>
       (\<exists>t. ms_thr s t \<in> {Load} \<union> range Cas))"
proof -
  have "notifying p \<longleftrightarrow> p \<in> {Load} \<union> range Cas" for p :: "'a phase" by (cases p) auto
  then show ?thesis
    using msys_reach_inv [OF assms] by (auto simp: data_inv_def work_inv_def Let_def)
qed

theorem mailbox_fifo_exactly_once_witness:
  "ms_sent claimed = ms_got claimed @ mb_queue (ms_mb claimed)"
  using mailbox_fifo_exactly_once [OF claimed_reach] by blast



text \<open>
  C32: An owner that finds a notification and rescans does not always find work: there is a run in
  which it has just decided to rescan while both queues are empty and no other thread is inside any
  operation (the message behind the notification had already been taken in the round before).  The
  rescan is then followed by another attempt to go idle, so the loop still ends.
\<close>

theorem rescan_may_find_nothing:
  "\<exists>s :: nat msys. msys_reach s \<and> ms_thr s 1 = Reset \<and> mb_queue (ms_mb s) = [] \<and> mb_ready (ms_mb s) = [] \<and>
     {t. ms_thr s t \<noteq> Off} = {1}"
proof -
  let ?a = "goto 1 Scan claimed"
  let ?b = "goto 2 (PushMsg 7) (?a\<lparr>ms_mb := (ms_mb ?a)\<lparr>mb_len := 1\<rparr>\<rparr>)"
  let ?c = "goto 2 Load (?b\<lparr>ms_mb := (ms_mb ?b)\<lparr>mb_queue := [7]\<rparr>, ms_sent := [7]\<rparr>)"
  let ?d = "goto 2 (Cas RUNNING) ?c"
  let ?mb = "(ms_mb ?d)\<lparr>mb_queue := [], mb_len := 0\<rparr>"
  let ?e = "goto 1 Working (?d\<lparr>ms_mb := ?mb, ms_got := [7]\<rparr>)"
  let ?f = "goto 1 CasIdle (goto 1 Scan ?e)"
  have 1: "worker_step claimed ?a"
    using worker_step.top [of claimed 1] by (simp add: claimed_def init_msys_def)
  have 2: "producer_step ?a ?b"
    using producer_step.send [of ?a 2 7] by (simp add: claimed_def init_msys_def new_mailbox_def)
  have 3: "producer_step ?b ?c"
    using producer_step.send_push [of ?b 2 7] by (simp add: claimed_def init_msys_def new_mailbox_def)
  have 4: "producer_step ?c ?d"
    using producer_step.load_try [of ?c 2] by (simp add: claimed_def)
  have 5: "worker_step\<^sup>*\<^sup>* ?d ?e"
    using scan_take_message [of ?d 1 7 "[]" "Some (WMessage 7)" ?mb]
    by (simp add: claimed_def init_msys_def new_mailbox_def take_message_def check_overload_def)
  have 6: "worker_step ?e (goto 1 Scan ?e)"
    using worker_step.work_more [of ?e 1] by (simp add: claimed_def init_msys_def)
  have 7: "worker_step\<^sup>*\<^sup>* (goto 1 Scan ?e) ?f"
    by (rule scan_to_idle) (simp_all add: claimed_def new_mailbox_def)
  define f where "f = ?f"
  have f: "ms_thr f 1 = CasIdle" "ms_thr f 2 = Cas RUNNING" "mb_state (ms_mb f) = RUNNING"
    "mb_queue (ms_mb f) = []" "mb_ready (ms_mb f) = []" "{t. ms_thr f t \<noteq> Off} = {1, 2}"
    by (auto simp: f_def claimed_def new_mailbox_def)
  define g where "g = goto 2 Off (set_state NOTIFIED f)"
  have 8: "producer_step f g"
    using producer_step.cas_ok [of f 2 NOTIFIED] f(2,3) by (simp add: g_def)
  have 9: "worker_step g (goto 1 Reset g)"
    using worker_step.idle_notified [of g 1] f(1) by (simp add: g_def)
  have "msys_reach ?d"
    using msys_reach.producer [OF msys_reach.producer [OF msys_reach.producer [OF msys_reach.worker [OF claimed_reach 1] 2] 3] 4] .
  then have "msys_reach f"
    unfolding f_def by (rule msys_reach_workers [OF 7 msys_reach.worker [OF msys_reach_workers [OF 5] 6]])
  then have "msys_reach (goto 1 Reset g)"
    by (rule msys_reach.worker [OF msys_reach.producer [OF _ 8] 9])
  moreover have "{t. ms_thr (goto 1 Reset g) t \<noteq> Off} = {1}"
    using f(6) by (auto simp: g_def)
  ultimately show ?thesis
    using f by (intro exI [of _ "goto 1 Reset g"]) (simp add: g_def)
qed

end
