(* ===== verification/Wheel.thy ===== *)
theory Wheel
  imports Prelude
begin

text \<open>
  The hierarchical timing wheel (\<^verbatim>\<open>rskynet-timer/src/wheel.rs\<close>): 256 near slots and ten levels of
  64 slots over 64-bit ticks, with an index from timer keys to positions for cancellation.  The two
  forms of \<^verbatim>\<open>Location\<close> are a bucket (near slot, or level and slot) and an index into it.  The lemmas
  show that the wheel implements a set of pending events: an event fires at exactly its tick,
  migration between levels never loses or delays one, and cancellation removes exactly one.
\<close>

section \<open>State\<close>

definition TIME_NEAR_SHIFT :: nat where "TIME_NEAR_SHIFT = 8"
definition TIME_NEAR :: nat where "TIME_NEAR = 256"
definition TIME_LEVEL_SHIFT :: nat where "TIME_LEVEL_SHIFT = 6"
definition TIME_LEVEL :: nat where "TIME_LEVEL = 64"
definition TIME_NEAR_MASK :: u64 where "TIME_NEAR_MASK = 255"
definition TIME_LEVEL_MASK :: u64 where "TIME_LEVEL_MASK = 63"
definition TIME_LEVELS :: nat where "TIME_LEVELS = 10"

type_synonym timer_key = "u64 \<times> u64"

record timer_event =
  ev_handle :: u64
  ev_session :: u64
  ev_expire :: u64

definition ev_key :: "timer_event \<Rightarrow> timer_key" where
  "ev_key e = (ev_handle e, ev_session e)"

datatype bucket = NearSlot nat | LevelSlot nat nat

type_synonym location = "bucket \<times> nat"

record wheel =
  w_time :: u64
  w_near :: "timer_event list list"
  w_levels :: "timer_event list list list"
  w_locations :: "timer_key \<Rightarrow> location option"

definition new_wheel :: wheel where
  "new_wheel = \<lparr>w_time = 0, w_near = replicate TIME_NEAR [],
     w_levels = replicate TIME_LEVELS (replicate TIME_LEVEL []), w_locations = Map.empty\<rparr>"

fun bucket_of :: "wheel \<Rightarrow> bucket \<Rightarrow> timer_event list" where
  "bucket_of w (NearSlot s) = (if s < length (w_near w) then w_near w ! s else [])"
| "bucket_of w (LevelSlot l s) =
     (if l < length (w_levels w) \<and> s < length (w_levels w ! l) then w_levels w ! l ! s else [])"

fun put_bucket :: "bucket \<Rightarrow> timer_event list \<Rightarrow> wheel \<Rightarrow> wheel" where
  "put_bucket (NearSlot s) es w = w\<lparr>w_near := (w_near w)[s := es]\<rparr>"
| "put_bucket (LevelSlot l s) es w = w\<lparr>w_levels := (w_levels w)[l := (w_levels w ! l)[s := es]]\<rparr>"

section \<open>Operations\<close>

definition level_fits :: "u64 \<Rightarrow> u64 \<Rightarrow> nat \<Rightarrow> bool" where
  "level_fits expire current level =
     (let upper_shift = TIME_NEAR_SHIFT + (level + 1) * TIME_LEVEL_SHIFT
      in 64 \<le> upper_shift \<or> drop_bit upper_shift expire = drop_bit upper_shift current)"

definition select_level :: "u64 \<Rightarrow> u64 \<Rightarrow> nat" where
  "select_level expire current =
     (case List.find (level_fits expire current) [0..<TIME_LEVELS] of
        Some level \<Rightarrow> level | None \<Rightarrow> TIME_LEVELS - 1)"

definition bucket_for :: "u64 \<Rightarrow> u64 \<Rightarrow> bucket" where
  "bucket_for expire current =
     (if expire OR TIME_NEAR_MASK = current OR TIME_NEAR_MASK
      then NearSlot (unat (expire AND TIME_NEAR_MASK))
      else (let level = select_level expire current;
                sh = TIME_NEAR_SHIFT + level * TIME_LEVEL_SHIFT
            in LevelSlot level (unat (drop_bit sh expire AND TIME_LEVEL_MASK))))"

definition add_event :: "timer_event \<Rightarrow> wheel \<Rightarrow> wheel" where
  "add_event e w =
     (let e' = (if ev_expire e \<le> w_time w then e\<lparr>ev_expire := w_time w\<rparr> else e);
          b = bucket_for (ev_expire e') (w_time w);
          index = length (bucket_of w b)
      in (put_bucket b (bucket_of w b @ [e']) w)\<lparr>w_locations := (w_locations w)(ev_key e' \<mapsto> (b, index))\<rparr>)"

definition swap_remove :: "nat \<Rightarrow> 'a list \<Rightarrow> 'a list" where
  "swap_remove i xs = butlast (xs[i := last xs])"

definition cancel_event :: "timer_key \<Rightarrow> wheel \<Rightarrow> wheel" where
  "cancel_event k w =
     (case w_locations w k of
        None \<Rightarrow> w
      | Some (b, index) \<Rightarrow>
          (let es = swap_remove index (bucket_of w b);
               w' = (put_bucket b es w)\<lparr>w_locations := (w_locations w)(k := None)\<rparr>
           in if index < length es
              then w'\<lparr>w_locations := (w_locations w')(ev_key (es ! index) \<mapsto> (b, index))\<rparr>
              else w'))"

definition move_list :: "nat \<Rightarrow> nat \<Rightarrow> wheel \<Rightarrow> wheel" where
  "move_list level s w =
     foldl (\<lambda>w e. add_event e (w\<lparr>w_locations := (w_locations w)(ev_key e := None)\<rparr>))
       (put_bucket (LevelSlot level s) [] w) (bucket_of w (LevelSlot level s))"

text \<open>The loop of \<^verbatim>\<open>shift\<close> over the levels: the first level whose slot number is not zero.\<close>

fun carry_level :: "u64 \<Rightarrow> nat \<Rightarrow> nat \<Rightarrow> (nat \<times> nat) option" where
  "carry_level shifted level 0 = None"
| "carry_level shifted level (Suc n) =
     (let s = unat (shifted AND TIME_LEVEL_MASK) in
      if s \<noteq> 0 then Some (level, s) else carry_level (drop_bit TIME_LEVEL_SHIFT shifted) (level + 1) n)"

definition shift_wheel :: "wheel \<Rightarrow> wheel" where
  "shift_wheel w =
     (let current = w_time w + 1; w' = w\<lparr>w_time := current\<rparr> in
      if current = 0 then move_list (TIME_LEVELS - 1) 0 w'
      else if current AND TIME_NEAR_MASK \<noteq> 0 then w'
      else (case carry_level (drop_bit TIME_NEAR_SHIFT current) 0 TIME_LEVELS of
              None \<Rightarrow> w'
            | Some (level, s) \<Rightarrow> move_list level s w'))"

definition execute_wheel :: "wheel \<Rightarrow> timer_event list \<times> wheel" where
  "execute_wheel w =
     (let b = NearSlot (unat (w_time w AND TIME_NEAR_MASK));
          events = bucket_of w b
      in (events, (put_bucket b [] w)\<lparr>w_locations := foldl (\<lambda>m e. m(ev_key e := None)) (w_locations w) events\<rparr>))"

section \<open>Abstraction and invariant\<close>

definition ev_at :: "wheel \<Rightarrow> location \<Rightarrow> timer_event option" where
  "ev_at w loc = (case loc of (b, i) \<Rightarrow> if i < length (bucket_of w b) then Some (bucket_of w b ! i) else None)"

definition pending :: "wheel \<Rightarrow> timer_event set" where
  "pending w = {e. \<exists>b. e \<in> set (bucket_of w b)}"

definition shape_ok :: "wheel \<Rightarrow> bool" where
  "shape_ok w = (length (w_near w) = 256 \<and> length (w_levels w) = 10 \<and> (\<forall>l < 10. length (w_levels w ! l) = 64))"

text \<open>An event is in the bucket that its expiry and the current tick determine.\<close>

fun placed_ok :: "nat \<Rightarrow> bucket \<Rightarrow> timer_event \<Rightarrow> bool" where
  "placed_ok t (NearSlot s) e =
     (t \<le> unat (ev_expire e) \<and> unat (ev_expire e) div 256 = t div 256 \<and> unat (ev_expire e) mod 256 = s)"
| "placed_ok t (LevelSlot l s) e =
     (t < unat (ev_expire e) \<and> unat (ev_expire e) div 2 ^ (14 + 6 * l) = t div 2 ^ (14 + 6 * l) \<and>
      unat (ev_expire e) div 2 ^ (8 + 6 * l) \<noteq> t div 2 ^ (8 + 6 * l) \<and>
      s = unat (ev_expire e) div 2 ^ (8 + 6 * l) mod 64)"

definition locations_ok :: "wheel \<Rightarrow> bool" where
  "locations_ok w =
     ((\<forall>loc e. ev_at w loc = Some e \<longrightarrow> w_locations w (ev_key e) = Some loc) \<and>
      (\<forall>k loc. w_locations w k = Some loc \<longrightarrow> (\<exists>e. ev_at w loc = Some e \<and> ev_key e = k)))"

definition wheel_inv :: "wheel \<Rightarrow> bool" where [inv_defs]:
  "wheel_inv w =
     (shape_ok w \<and> locations_ok w \<and>
      (\<forall>b. \<forall>e \<in> set (bucket_of w b). placed_ok (unat (w_time w)) b e))"

section \<open>Buckets\<close>

fun valid_bucket :: "bucket \<Rightarrow> bool" where
  "valid_bucket (NearSlot s) = (s < 256)"
| "valid_bucket (LevelSlot l s) = (l < 10 \<and> s < 64)"

lemma bucket_put:
  "\<lbrakk>shape_ok w; valid_bucket b\<rbrakk> \<Longrightarrow> bucket_of (put_bucket b es w) b' = (if b' = b then es else bucket_of w b')"
  by (cases b; cases b') (auto simp: shape_ok_def nth_list_update)

lemma shape_put [simp]: "shape_ok w \<Longrightarrow> shape_ok (put_bucket b es w)"
proof (cases b)
  case (LevelSlot l s)
  assume "shape_ok w"
  then show ?thesis
    using LevelSlot by (cases "l < 10") (auto simp: shape_ok_def nth_list_update)
qed (auto simp: shape_ok_def)

lemma put_bucket_frame [simp]:
  "w_time (put_bucket b es w) = w_time w" "w_locations (put_bucket b es w) = w_locations w"
  by (cases b; simp)+

lemma bucket_of_locations [simp]: "bucket_of (w\<lparr>w_locations := m\<rparr>) b = bucket_of w b"
  by (cases b) auto

lemma bucket_of_time [simp]: "bucket_of (w\<lparr>w_time := t\<rparr>) b = bucket_of w b"
  by (cases b) auto

lemma shape_locations [simp]: "shape_ok (w\<lparr>w_locations := m\<rparr>) = shape_ok w"
  by (simp add: shape_ok_def)

lemma shape_time [simp]: "shape_ok (w\<lparr>w_time := t\<rparr>) = shape_ok w"
  by (simp add: shape_ok_def)

lemma put_bucket_locations: "put_bucket b es (w\<lparr>w_locations := m\<rparr>) = (put_bucket b es w)\<lparr>w_locations := m\<rparr>"
  by (cases b) auto

lemma invalid_bucket_empty: "\<lbrakk>shape_ok w; \<not> valid_bucket b\<rbrakk> \<Longrightarrow> bucket_of w b = []"
  by (cases b) (auto simp: shape_ok_def)

section \<open>Bit arithmetic\<close>

lemma unat_drop: "unat (drop_bit n w) = unat w div 2 ^ n" for w :: u64
  by (rule trans [OF unat_drop_bit_eq]) (simp add: drop_bit_eq_div)

lemma drop_own_mask: "drop_bit n (mask n) = (0 :: u64)"
  by (rule bit_eqI) (simp add: bit_drop_bit_eq bit_mask_iff)

lemma or_mask_iff: "x OR mask n = y OR mask n \<longleftrightarrow> drop_bit n x = drop_bit n y" for x y :: u64
proof
  assume "x OR mask n = y OR mask n"
  then have "drop_bit n (x OR mask n) = drop_bit n (y OR mask n)" by simp
  then show "drop_bit n x = drop_bit n y" by (simp add: drop_bit_or drop_own_mask)
next
  assume eq: "drop_bit n x = drop_bit n y"
  show "x OR mask n = y OR mask n"
  proof (rule bit_word_eqI)
    fix i assume "i < LENGTH(64)"
    have "bit x i = bit y i" if "n \<le> i"
    proof -
      have "bit (drop_bit n x) (i - n) = bit (drop_bit n y) (i - n)" using eq by simp
      then show ?thesis using that by (simp add: bit_drop_bit_eq)
    qed
    then show "bit (x OR mask n) i = bit (y OR mask n) i"
      using \<open>i < LENGTH(64)\<close> by (auto simp: bit_or_iff bit_mask_iff not_less)
  qed
qed

lemma near_eq_iff: "expire OR TIME_NEAR_MASK = current OR TIME_NEAR_MASK \<longleftrightarrow> unat expire div 256 = unat current div 256"
proof -
  have "TIME_NEAR_MASK = mask 8" by (simp add: TIME_NEAR_MASK_def mask_eq_exp_minus_1)
  then show ?thesis
    using or_mask_iff [of expire 8 current] unat_eq_iff [of "drop_bit 8 expire" "drop_bit 8 current"]
    by (simp add: unat_drop)
qed

lemma unat_near_mask: "unat (w AND TIME_NEAR_MASK) = unat w mod 256"
  using unat_and_mask [of 8 w] by (simp add: TIME_NEAR_MASK_def)

lemma unat_level_mask: "unat (w AND TIME_LEVEL_MASK) = unat w mod 64"
  using unat_and_mask [of 6 w] by (simp add: TIME_LEVEL_MASK_def)

section \<open>The bucket of an event\<close>

lemma level_fits_iff:
  "level_fits e c l \<longleftrightarrow> unat e div 2 ^ (14 + 6 * l) = unat c div 2 ^ (14 + 6 * l)"
proof (cases "64 \<le> 14 + 6 * l")
  case True
  then have "unat x < 2 ^ (14 + 6 * l)" for x :: u64
    using power_increasing [OF True, of "2 :: nat"] unat_less_u64 [of x] by (simp del: unat_less_u64)
  then show ?thesis using True by (simp add: level_fits_def TIME_NEAR_SHIFT_def TIME_LEVEL_SHIFT_def)
next
  case False
  then show ?thesis
    using unat_eq_iff [of "drop_bit (14 + 6 * l) e" "drop_bit (14 + 6 * l) c"]
    by (simp add: level_fits_def Let_def TIME_NEAR_SHIFT_def TIME_LEVEL_SHIFT_def unat_drop add.commute mult.commute)
qed

lemma select_level_spec:
  assumes far: "unat e div 256 \<noteq> unat c div 256"
  shows "select_level e c < 10"
    "unat e div 2 ^ (14 + 6 * select_level e c) = unat c div 2 ^ (14 + 6 * select_level e c)"
    "unat e div 2 ^ (8 + 6 * select_level e c) \<noteq> unat c div 2 ^ (8 + 6 * select_level e c)"
proof -
  have "level_fits e c 9" by (simp add: level_fits_def TIME_NEAR_SHIFT_def TIME_LEVEL_SHIFT_def)
  then obtain l where f: "List.find (level_fits e c) [0..<10] = Some l"
    by (cases "List.find (level_fits e c) [0..<10]") (auto simp: find_None_iff)
  then have l: "l < 10" "level_fits e c l" "\<forall>j < l. \<not> level_fits e c j"
    by (auto simp: find_Some_iff)
  have sel: "select_level e c = l" using f by (simp add: select_level_def TIME_LEVELS_def)
  show "select_level e c < 10"
    "unat e div 2 ^ (14 + 6 * select_level e c) = unat c div 2 ^ (14 + 6 * select_level e c)"
    using l by (simp_all add: sel level_fits_iff)
  show "unat e div 2 ^ (8 + 6 * select_level e c) \<noteq> unat c div 2 ^ (8 + 6 * select_level e c)"
  proof (cases l)
    case 0
    then show ?thesis using far by (simp add: sel)
  next
    case (Suc k)
    have "\<not> level_fits e c k" using l(3) Suc by simp
    moreover have "14 + 6 * k = 8 + 6 * l" using Suc by simp
    ultimately show ?thesis by (metis level_fits_iff sel)
  qed
qed

lemma bucket_for_ok:
  assumes "c \<le> ev_expire e"
  shows "placed_ok (unat c) (bucket_for (ev_expire e) c) e" "valid_bucket (bucket_for (ev_expire e) c)"
proof -
  let ?e = "ev_expire e"
  have le: "unat c \<le> unat ?e" using assms by (simp add: word_le_nat_alt)
  show "placed_ok (unat c) (bucket_for ?e c) e"
  proof (cases "unat ?e div 256 = unat c div 256")
    case True
    then show ?thesis using le by (simp add: bucket_for_def near_eq_iff unat_near_mask)
  next
    case False
    then have "unat c < unat ?e" using le by (metis le_neq_implies_less)
    then show ?thesis
      using False select_level_spec [OF False]
      by (simp add: bucket_for_def near_eq_iff Let_def unat_level_mask unat_drop TIME_NEAR_SHIFT_def
          TIME_LEVEL_SHIFT_def mult.commute)
  qed
  show "valid_bucket (bucket_for ?e c)"
    using select_level_spec(1) [of ?e c] by (simp add: bucket_for_def near_eq_iff Let_def unat_near_mask unat_level_mask)
qed

section \<open>Arming\<close>

definition clamped :: "u64 \<Rightarrow> timer_event \<Rightarrow> timer_event" where
  "clamped t e = (if ev_expire e \<le> t then e\<lparr>ev_expire := t\<rparr> else e)"

lemma clamped_key [simp]: "ev_key (clamped t e) = ev_key e"
  by (simp add: clamped_def ev_key_def)

lemma clamped_ge: "t \<le> ev_expire (clamped t e)"
  using linear [of t "ev_expire e"] by (auto simp: clamped_def)

lemma clamped_id: "t \<le> ev_expire e \<Longrightarrow> clamped t e = e"
  by (cases e) (auto simp: clamped_def)

lemma add_event_eq:
  "add_event e w =
     (let e' = clamped (w_time w) e; b = bucket_for (ev_expire e') (w_time w)
      in (put_bucket b (bucket_of w b @ [e']) w)
           \<lparr>w_locations := (w_locations w)(ev_key e \<mapsto> (b, length (bucket_of w b)))\<rparr>)"
  by (simp add: add_event_def clamped_def [symmetric] Let_def)

lemma ev_at_key: "\<lbrakk>locations_ok w; ev_at w loc = Some e\<rbrakk> \<Longrightarrow> w_locations w (ev_key e) = Some loc"
  unfolding locations_ok_def by blast

lemma locations_okD: "\<lbrakk>locations_ok w; w_locations w k = Some loc\<rbrakk> \<Longrightarrow> \<exists>e. ev_at w loc = Some e \<and> ev_key e = k"
  unfolding locations_ok_def by blast

lemma append_event_locations:
  assumes ok: "locations_ok w" and shape: "shape_ok w" and b: "valid_bucket b"
    and fresh: "w_locations w (ev_key e) = None"
  shows "locations_ok ((put_bucket b (bucket_of w b @ [e]) w)
           \<lparr>w_locations := (w_locations w)(ev_key e \<mapsto> (b, length (bucket_of w b)))\<rparr>)"
proof -
  let ?w = "(put_bucket b (bucket_of w b @ [e]) w)\<lparr>w_locations := (w_locations w)(ev_key e \<mapsto> (b, length (bucket_of w b)))\<rparr>"
  have at: "ev_at ?w loc = (if loc = (b, length (bucket_of w b)) then Some e else ev_at w loc)" for loc
    using shape b by (cases loc) (auto simp: ev_at_def bucket_put nth_append)
  have other: "ev_key e' \<noteq> ev_key e" if "ev_at w loc = Some e'" for loc e'
    using ev_at_key [OF ok that] fresh by auto
  have none: "ev_at w (b, length (bucket_of w b)) = None" by (simp add: ev_at_def)
  show ?thesis
    unfolding locations_ok_def
  proof (intro conjI allI impI)
    fix loc e' assume "ev_at ?w loc = Some e'"
    then show "w_locations ?w (ev_key e') = Some loc"
      using other [of loc e'] ev_at_key [OF ok, of loc e'] by (auto simp: at split: if_splits)
  next
    fix k loc assume k: "w_locations ?w k = Some loc"
    show "\<exists>e'. ev_at ?w loc = Some e' \<and> ev_key e' = k"
    proof (cases "k = ev_key e")
      case True
      then show ?thesis using k at [of loc] by auto
    next
      case False
      then obtain e' where "ev_at w loc = Some e'" "ev_key e' = k"
        using k locations_okD [OF ok, of k loc] by auto
      moreover from this have "loc \<noteq> (b, length (bucket_of w b))" using none by auto
      ultimately show ?thesis by (simp add: at)
    qed
  qed
qed

lemma add_event_inv:
  assumes inv: "wheel_inv w" and fresh: "w_locations w (ev_key e) = None"
  shows "wheel_inv (add_event e w)"
proof -
  let ?e = "clamped (w_time w) e"
  let ?b = "bucket_for (ev_expire ?e) (w_time w)"
  have ok: "shape_ok w" "locations_ok w" using inv by (simp_all add: wheel_inv_def)
  note place = bucket_for_ok [OF clamped_ge, of "w_time w" e]
  have "locations_ok (add_event e w)"
    using append_event_locations [OF ok(2,1) place(2), of ?e] fresh by (simp add: add_event_eq Let_def)
  then show ?thesis
    using inv place ok by (auto simp: wheel_inv_def add_event_eq Let_def bucket_put)
qed

lemma add_event_buckets:
  assumes "wheel_inv w"
  shows "set (bucket_of (add_event e w) b) =
    (if b = bucket_for (ev_expire (clamped (w_time w) e)) (w_time w) then insert (clamped (w_time w) e) (set (bucket_of w b))
     else set (bucket_of w b))"
  using assms bucket_for_ok(2) [OF clamped_ge, of "w_time w" e]
  by (simp add: add_event_eq Let_def bucket_put wheel_inv_def)

lemma add_event_pending:
  assumes "wheel_inv w"
  shows "pending (add_event e w) = insert (clamped (w_time w) e) (pending w)"
proof (intro set_eqI iffI)
  fix x assume "x \<in> pending (add_event e w)"
  then show "x \<in> insert (clamped (w_time w) e) (pending w)"
    by (auto simp: pending_def add_event_buckets [OF assms] split: if_splits)
next
  fix x assume "x \<in> insert (clamped (w_time w) e) (pending w)"
  then consider "x = clamped (w_time w) e" | b where "x \<in> set (bucket_of w b)" by (auto simp: pending_def)
  then show "x \<in> pending (add_event e w)"
  proof cases
    case (2 b)
    then show ?thesis
      unfolding pending_def mem_Collect_eq add_event_buckets [OF assms] by (intro exI [of _ b]) auto
  qed (auto simp: pending_def add_event_buckets [OF assms])
qed

lemma add_event_time [simp]: "w_time (add_event e w) = w_time w"
  by (simp add: add_event_eq Let_def)

section \<open>Cancelling\<close>

lemma swap_remove_length: "i < length xs \<Longrightarrow> length (swap_remove i xs) = length xs - 1"
  by (simp add: swap_remove_def)

lemma swap_remove_nth:
  "\<lbrakk>i < length xs; j < length xs - 1\<rbrakk> \<Longrightarrow> swap_remove i xs ! j = (if j = i then last xs else xs ! j)"
  by (auto simp: swap_remove_def nth_butlast nth_list_update)

lemma located:
  assumes inv: "wheel_inv w" and loc: "w_locations w k = Some (b, i)"
  shows "valid_bucket b" "i < length (bucket_of w b)" "ev_at w (b, i) = Some (bucket_of w b ! i)"
    "ev_key (bucket_of w b ! i) = k" "ev_at w (b, length (bucket_of w b) - 1) = Some (last (bucket_of w b))"
proof -
  have ok: "shape_ok w" "locations_ok w" using inv by (simp_all add: wheel_inv_def)
  obtain e where e: "ev_at w (b, i) = Some e" "ev_key e = k"
    using locations_okD [OF ok(2) loc] by blast
  then show i: "i < length (bucket_of w b)" by (auto simp: ev_at_def split: if_splits)
  then show "ev_at w (b, i) = Some (bucket_of w b ! i)" "ev_key (bucket_of w b ! i) = k"
    using e by (auto simp: ev_at_def)
  show "valid_bucket b" using i invalid_bucket_empty [OF ok(1)] by fastforce
  have "bucket_of w b \<noteq> []" using i by auto
  then show "ev_at w (b, length (bucket_of w b) - 1) = Some (last (bucket_of w b))"
    by (simp add: ev_at_def last_conv_nth)
qed

text \<open>The positions after a swap-removal: the hole is filled by the last event of the bucket.\<close>

lemma cancel_at:
  assumes inv: "wheel_inv w" and loc: "w_locations w k = Some (b, i)"
  shows "ev_at (cancel_event k w) (b', j) =
       (if b' \<noteq> b then ev_at w (b', j)
        else if length (bucket_of w b) - 1 \<le> j then None
        else if j = i then ev_at w (b, length (bucket_of w b) - 1) else ev_at w (b, j))"
proof -
  note pos = located [OF inv loc]
  have ne: "bucket_of w b \<noteq> []" using pos(2) by auto
  have "bucket_of (cancel_event k w) b' = (if b' = b then swap_remove i (bucket_of w b) else bucket_of w b')"
    using bucket_put [OF _ pos(1), of w] inv loc by (simp add: cancel_event_def Let_def wheel_inv_def)
  then show ?thesis
    using swap_remove_length [OF pos(2)] swap_remove_nth [OF pos(2), of j] last_conv_nth [OF ne] pos(2)
    by (cases "b' = b") (simp_all add: ev_at_def not_le)
qed

lemma cancel_locations:
  assumes inv: "wheel_inv w" and loc: "w_locations w k = Some (b, i)"
  shows "w_locations (cancel_event k w) =
       (if i < length (bucket_of w b) - 1
        then (w_locations w)(k := None, ev_key (last (bucket_of w b)) \<mapsto> (b, i)) else (w_locations w)(k := None))"
  using loc swap_remove_length [OF located(2) [OF assms]] swap_remove_nth [OF located(2) [OF assms], of i]
  by (simp add: cancel_event_def Let_def)

lemma ev_at_set: "(\<exists>i. ev_at w (b, i) = Some e) \<longleftrightarrow> e \<in> set (bucket_of w b)"
  by (auto simp: ev_at_def in_set_conv_nth)

lemma ev_at_in: "ev_at w (b, i) = Some e \<Longrightarrow> e \<in> set (bucket_of w b)"
  using ev_at_set by blast

lemma pending_at: "e \<in> pending w \<longleftrightarrow> (\<exists>loc. ev_at w loc = Some e)"
  using ev_at_set by (fastforce simp: pending_def)

lemma same_key_same_place:
  "\<lbrakk>locations_ok w; ev_at w loc = Some e; ev_at w loc' = Some e'; ev_key e = ev_key e'\<rbrakk> \<Longrightarrow> loc = loc'"
  using ev_at_key [of w loc e] ev_at_key [of w loc' e'] by simp

text \<open>After the cancellation the events are those of other keys, each at one place.\<close>

lemma cancel_keeps:
  assumes inv: "wheel_inv w" and l: "ev_at w (b', j) = Some e" and k: "ev_key e \<noteq> k"
  shows "\<exists>loc. ev_at (cancel_event k w) loc = Some e"
proof (cases "w_locations w k")
  case None
  then show ?thesis using l by (auto simp: cancel_event_def)
next
  case (Some bi)
  obtain b i where bi: "w_locations w k = Some (b, i)" using Some by (cases bi) auto
  note pos = located [OF inv bi] and at = cancel_at [OF inv bi]
  have ne: "(b', j) \<noteq> (b, i)" using pos(3,4) l k by auto
  show ?thesis
  proof (cases "b' = b \<and> j = length (bucket_of w b) - 1")
    case True
    then have "ev_at (cancel_event k w) (b, i) = Some e" using l ne pos(2) at [of b i] by auto
    then show ?thesis by blast
  next
    case False
    then have "ev_at (cancel_event k w) (b', j) = Some e"
      using l ne at [of b' j] by (auto simp: ev_at_def split: if_splits)
    then show ?thesis by blast
  qed
qed

lemma cancel_drops:
  assumes inv: "wheel_inv w" and l: "ev_at (cancel_event k w) (b', j) = Some e"
  shows "\<exists>j'. ev_at w (b', j') = Some e" "ev_key e \<noteq> k"
proof -
  have lok: "locations_ok w" using inv by (simp add: wheel_inv_def)
  have "(\<exists>j'. ev_at w (b', j') = Some e) \<and> ev_key e \<noteq> k"
  proof (cases "w_locations w k")
    case None
    then have "ev_at w (b', j) = Some e" using l by (simp add: cancel_event_def)
    then show ?thesis using ev_at_key [OF lok] None by fastforce
  next
    case (Some bi)
    obtain b i where bi: "w_locations w k = Some (b, i)" using Some by (cases bi) auto
    note pos = located [OF inv bi] and at = cancel_at [OF inv bi]
    obtain j' where j': "ev_at w (b', j') = Some e" "(b', j') \<noteq> (b, i)"
      using l pos(2) unfolding at by (auto split: if_splits)
    then show ?thesis using same_key_same_place [OF lok j'(1) pos(3)] pos(4) by auto
  qed
  then show "\<exists>j'. ev_at w (b', j') = Some e" "ev_key e \<noteq> k" by blast+
qed

lemma cancel_event_locations:
  assumes inv: "wheel_inv w"
  shows "locations_ok (cancel_event k w)"
proof (cases "w_locations w k")
  case None
  then show ?thesis using inv by (simp add: cancel_event_def wheel_inv_def)
next
  case (Some bi)
  obtain b i where bi: "w_locations w k = Some (b, i)" using Some by (cases bi) auto
  have lok: "locations_ok w" using inv by (simp add: wheel_inv_def)
  note pos = located [OF inv bi] and at = cancel_at [OF inv bi] and locs = cancel_locations [OF inv bi]
  have fwd: "w_locations (cancel_event k w) (ev_key e) = Some (b', j)"
    if a: "ev_at (cancel_event k w) (b', j) = Some e" for b' j e
  proof (cases "b' = b \<and> j = i")
    case True
    then show ?thesis using a pos(5) at [of b i] by (auto simp: locs split: if_splits)
  next
    case False
    then have old: "ev_at w (b', j) = Some e" "(b', j) \<noteq> (b, length (bucket_of w b) - 1)"
      using a at [of b' j] by (auto split: if_splits)
    then have "ev_key e \<noteq> ev_key (last (bucket_of w b))"
      using same_key_same_place [OF lok old(1) pos(5)] by auto
    then show ?thesis using ev_at_key [OF lok old(1)] cancel_drops(2) [OF inv a] by (simp add: locs)
  qed
  have "\<exists>e. ev_at (cancel_event k w) (b', j) = Some e \<and> ev_key e = k'"
    if l: "w_locations (cancel_event k w) k' = Some (b', j)" for k' b' j
  proof (cases "i < length (bucket_of w b) - 1 \<and> k' = ev_key (last (bucket_of w b))")
    case True
    then show ?thesis using l pos(5) at [of b i] by (auto simp: locs)
  next
    case False
    then have k': "w_locations w k' = Some (b', j)" "k' \<noteq> k" using l by (auto simp: locs split: if_splits)
    then obtain e where e: "ev_at w (b', j) = Some e" "ev_key e = k'" using locations_okD [OF lok] by blast
    then obtain loc where loc: "ev_at (cancel_event k w) loc = Some e"
      using cancel_keeps [OF inv] k'(2) by blast
    then have "loc = (b', j)" using fwd [of "fst loc" "snd loc" e] l e(2) by simp
    then show ?thesis using loc e(2) by blast
  qed
  then show ?thesis using fwd unfolding locations_ok_def by auto
qed

lemma cancel_event_frame:
  assumes "wheel_inv w"
  shows "shape_ok (cancel_event k w)" "w_time (cancel_event k w) = w_time w"
  using assms by (auto simp: cancel_event_def Let_def wheel_inv_def split: option.splits)

lemma cancel_event_inv:
  assumes inv: "wheel_inv w"
  shows "wheel_inv (cancel_event k w)"
proof -
  have "placed_ok (unat (w_time w)) b e" if e: "e \<in> set (bucket_of (cancel_event k w) b)" for b e
  proof -
    obtain i where "ev_at (cancel_event k w) (b, i) = Some e" using e ev_at_set by blast
    then have "e \<in> set (bucket_of w b)" using cancel_drops(1) [OF inv] ev_at_set by blast
    then show ?thesis using inv by (simp add: wheel_inv_def)
  qed
  then show ?thesis
    using cancel_event_locations [OF inv] cancel_event_frame [OF inv] by (simp add: wheel_inv_def)
qed

lemma cancel_event_pending:
  assumes "wheel_inv w"
  shows "pending (cancel_event k w) = {e \<in> pending w. ev_key e \<noteq> k}"
proof (intro set_eqI iffI)
  fix e assume "e \<in> pending (cancel_event k w)"
  then show "e \<in> {e \<in> pending w. ev_key e \<noteq> k}"
    using cancel_drops [OF assms] unfolding mem_Collect_eq pending_at split_paired_Ex by blast
next
  fix e assume "e \<in> {e \<in> pending w. ev_key e \<noteq> k}"
  then show "e \<in> pending (cancel_event k w)"
    using cancel_keeps [OF assms] unfolding mem_Collect_eq pending_at split_paired_Ex by blast
qed

section \<open>Emptying a bucket\<close>

definition forget_keys :: "timer_event list \<Rightarrow> wheel \<Rightarrow> wheel" where
  "forget_keys es w = w\<lparr>w_locations := foldl (\<lambda>m e. m(ev_key e := None)) (w_locations w) es\<rparr>"

lemma foldl_forget: "foldl (\<lambda>m e. m(ev_key e := None)) m es k = (if k \<in> ev_key ` set es then None else m k)"
  by (induction es arbitrary: m) auto

lemma forget_keys_frame [simp]:
  "w_time (forget_keys es w) = w_time w" "bucket_of (forget_keys es w) b = bucket_of w b"
  "shape_ok (forget_keys es w) = shape_ok w"
  "w_locations (forget_keys es w) k = (if k \<in> ev_key ` set es then None else w_locations w k)"
  by (simp_all add: forget_keys_def foldl_forget)

lemma empty_bucket_locations:
  assumes shape: "shape_ok w" and ok: "locations_ok w" and b: "valid_bucket b"
  shows "locations_ok (forget_keys (bucket_of w b) (put_bucket b [] w))"
proof -
  let ?w = "forget_keys (bucket_of w b) (put_bucket b [] w)"
  have at: "ev_at ?w (b', i) = (if b' = b then None else ev_at w (b', i))" for b' i
    using shape b by (simp add: ev_at_def bucket_put)
  have out: "ev_key e \<notin> ev_key ` set (bucket_of w b)" if "ev_at w (b', i) = Some e" "b' \<noteq> b" for b' i e
  proof
    assume "ev_key e \<in> ev_key ` set (bucket_of w b)"
    then obtain e' where e': "e' \<in> set (bucket_of w b)" "ev_key e' = ev_key e" by auto
    then obtain j where "ev_at w (b, j) = Some e'" using ev_at_set [of w b e'] by blast
    then show False using same_key_same_place [OF ok that(1)] e'(2) that(2) by force
  qed
  have "w_locations ?w (ev_key e) = Some (b', i)" if "ev_at ?w (b', i) = Some e" for b' i e
    using that out [of b' i e] ev_at_key [OF ok, of "(b', i)" e] by (simp add: at split: if_splits)
  moreover have "\<exists>e. ev_at ?w (b', i) = Some e \<and> ev_key e = k" if k: "w_locations ?w k = Some (b', i)" for k b' i
  proof -
    have k': "w_locations w k = Some (b', i)" "k \<notin> ev_key ` set (bucket_of w b)"
      using k by (auto split: if_splits)
    then obtain e where e: "ev_at w (b', i) = Some e" "ev_key e = k" using locations_okD [OF ok] by blast
    then have "b' \<noteq> b" using k'(2) ev_at_in by blast
    then show ?thesis using e by (simp add: at)
  qed
  ultimately show ?thesis unfolding locations_ok_def by auto
qed

lemma empty_bucket_of:
  "\<lbrakk>shape_ok w; valid_bucket b\<rbrakk> \<Longrightarrow>
   bucket_of (forget_keys es (put_bucket b [] w)) b' = (if b' = b then [] else bucket_of w b')"
  by (simp add: bucket_put)

lemma bucket_keys_distinct:
  assumes ok: "locations_ok w"
  shows "distinct (map ev_key (bucket_of w b))"
proof -
  have "i = j" if "i < length (bucket_of w b)" "j < length (bucket_of w b)"
    "ev_key (bucket_of w b ! i) = ev_key (bucket_of w b ! j)" for i j
    using same_key_same_place [OF ok, of "(b, i)" "bucket_of w b ! i" "(b, j)" "bucket_of w b ! j"] that
    by (simp add: ev_at_def)
  then show ?thesis by (auto simp: distinct_conv_nth)
qed

section \<open>Firing\<close>

lemma execute_wheel_eq:
  "execute_wheel w =
     (bucket_of w (NearSlot (unat (w_time w) mod 256)),
      forget_keys (bucket_of w (NearSlot (unat (w_time w) mod 256))) (put_bucket (NearSlot (unat (w_time w) mod 256)) [] w))"
  by (simp add: execute_wheel_def Let_def unat_near_mask forget_keys_def)

lemma due_bucket:
  assumes inv: "wheel_inv w"
  shows "e \<in> set (bucket_of w (NearSlot (unat (w_time w) mod 256))) \<longleftrightarrow> e \<in> pending w \<and> ev_expire e = w_time w"
proof
  assume e: "e \<in> set (bucket_of w (NearSlot (unat (w_time w) mod 256)))"
  then have "placed_ok (unat (w_time w)) (NearSlot (unat (w_time w) mod 256)) e"
    using inv unfolding wheel_inv_def by blast
  then have "unat (ev_expire e) = unat (w_time w)" by simp (metis div_mult_mod_eq)
  then show "e \<in> pending w \<and> ev_expire e = w_time w" using e unat_eq_iff unfolding pending_def by blast
next
  assume e: "e \<in> pending w \<and> ev_expire e = w_time w"
  then obtain b where b: "e \<in> set (bucket_of w b)" by (auto simp: pending_def)
  then have "placed_ok (unat (w_time w)) b e" using inv unfolding wheel_inv_def by blast
  then have "b = NearSlot (unat (w_time w) mod 256)" using e by (cases b) auto
  then show "e \<in> set (bucket_of w (NearSlot (unat (w_time w) mod 256)))" using b by simp
qed

lemma pending_not_early: "\<lbrakk>wheel_inv w; e \<in> pending w\<rbrakk> \<Longrightarrow> w_time w \<le> ev_expire e"
proof -
  assume inv: "wheel_inv w" and "e \<in> pending w"
  then obtain b where "e \<in> set (bucket_of w b)" by (auto simp: pending_def)
  then have "placed_ok (unat (w_time w)) b e" using inv unfolding wheel_inv_def by blast
  then show ?thesis by (cases b) (auto simp: word_le_nat_alt)
qed

lemma execute_wheel_inv:
  assumes inv: "wheel_inv w"
  shows "wheel_inv (snd (execute_wheel w))" "w_time (snd (execute_wheel w)) = w_time w"
proof -
  have ok: "shape_ok w" "locations_ok w" using inv by (simp_all add: wheel_inv_def)
  let ?b = "NearSlot (unat (w_time w) mod 256)"
  have b: "valid_bucket ?b" by simp
  show "wheel_inv (snd (execute_wheel w))"
    unfolding execute_wheel_eq snd_conv
    using empty_bucket_locations [OF ok b] empty_bucket_of [OF ok(1) b] inv ok(1)
    by (auto simp: wheel_inv_def simp del: put_bucket.simps bucket_of.simps forget_keys_frame(2))
  show "w_time (snd (execute_wheel w)) = w_time w" by (simp add: execute_wheel_eq)
qed

lemma execute_wheel_fires:
  assumes inv: "wheel_inv w"
  shows "set (fst (execute_wheel w)) = {e \<in> pending w. ev_expire e = w_time w}"
    "distinct (fst (execute_wheel w))"
    "pending (snd (execute_wheel w)) = {e \<in> pending w. w_time w < ev_expire e}"
proof -
  have ok: "shape_ok w" "locations_ok w" using inv by (simp_all add: wheel_inv_def)
  let ?b = "NearSlot (unat (w_time w) mod 256)"
  have b: "valid_bucket ?b" by simp
  show "set (fst (execute_wheel w)) = {e \<in> pending w. ev_expire e = w_time w}"
    using due_bucket [OF inv] by (auto simp: execute_wheel_eq simp del: bucket_of.simps)
  show "distinct (fst (execute_wheel w))"
    using bucket_keys_distinct [OF ok(2), of ?b] by (simp add: execute_wheel_eq distinct_map del: bucket_of.simps)
  show "pending (snd (execute_wheel w)) = {e \<in> pending w. w_time w < ev_expire e}"
  proof (intro set_eqI iffI)
    fix e assume "e \<in> pending (snd (execute_wheel w))"
    then obtain b' where b': "e \<in> set (bucket_of w b')" "b' \<noteq> ?b"
      unfolding pending_def execute_wheel_eq snd_conv empty_bucket_of [OF ok(1) b] by (auto split: if_splits)
    then have pl: "placed_ok (unat (w_time w)) b' e" "e \<in> pending w"
      using inv unfolding wheel_inv_def pending_def by blast+
    then have "ev_expire e \<noteq> w_time w" using b' by (cases b') auto
    then show "e \<in> {e \<in> pending w. w_time w < ev_expire e}" using pl(2) pending_not_early [OF inv pl(2)] by auto
  next
    fix e assume e: "e \<in> {e \<in> pending w. w_time w < ev_expire e}"
    then obtain b' where b': "e \<in> set (bucket_of w b')" by (auto simp: pending_def)
    then have "b' \<noteq> ?b" using e due_bucket [OF inv, of e] by auto
    then show "e \<in> pending (snd (execute_wheel w))"
      using b' unfolding pending_def execute_wheel_eq snd_conv empty_bucket_of [OF ok(1) b] by force
  qed
qed

section \<open>Advancing the clock\<close>

lemma carry_level_Some:
  assumes "carry_level x level n = Some (l, s)"
  shows "level \<le> l \<and> l < level + n \<and> s \<noteq> 0 \<and> s = unat x div 2 ^ (6 * (l - level)) mod 64 \<and> 2 ^ (6 * (l - level)) dvd unat x"
  using assms
proof (induction n arbitrary: x level)
  case (Suc n)
  show ?case
  proof (cases "unat x mod 64 = 0")
    case False
    then show ?thesis using Suc.prems by (auto simp: unat_level_mask Let_def)
  next
    case True
    have "carry_level (drop_bit 6 x) (level + 1) n = Some (l, s)"
      using Suc.prems True by (simp add: unat_level_mask Let_def TIME_LEVEL_SHIFT_def)
    note IH = Suc.IH [OF this]
    have x: "unat x = 64 * (unat x div 64)" using True by (simp add: mod_eq_0_iff_dvd)
    have l: "2 ^ (6 * (l - level)) = 64 * (2 :: nat) ^ (6 * (l - (level + 1)))"
    proof -
      have "l - level = Suc (l - (level + 1))" using IH by linarith
      then have "6 * (l - level) = 6 + 6 * (l - (level + 1))" by simp
      then show ?thesis by (simp add: power_add)
    qed
    have "2 ^ (6 * (l - level)) dvd unat x"
      using IH unfolding l by (subst x) (simp add: unat_drop)
    moreover have "unat x div 2 ^ (6 * (l - level)) = unat (drop_bit 6 x) div 2 ^ (6 * (l - (level + 1)))"
      unfolding l by (simp add: unat_drop div_mult2_eq)
    ultimately show ?thesis using IH by simp
  qed
qed simp

lemma carry_level_None: "carry_level x level n = None \<Longrightarrow> 2 ^ (6 * n) dvd unat x"
proof (induction n arbitrary: x level)
  case (Suc n)
  then have z: "unat x mod 64 = 0" and r: "carry_level (drop_bit 6 x) (level + 1) n = None"
    by (auto simp: unat_level_mask Let_def TIME_LEVEL_SHIFT_def split: if_splits)
  have "unat x = 64 * unat (drop_bit 6 x)" using z by (simp add: unat_drop mod_eq_0_iff_dvd)
  then show ?case using Suc.IH [OF r] by (simp add: power_add)
qed simp

text \<open>When the low byte of the new tick is zero, the loop finds the level that the carry reaches.\<close>

lemma carry_found:
  assumes "t \<noteq> 0" and low: "unat t mod 256 = 0"
  obtains l s where "carry_level (drop_bit 8 t) 0 10 = Some (l, s)" "l < 10" "s \<noteq> 0"
    "2 ^ (8 + 6 * l) dvd unat t" "s = unat t div 2 ^ (8 + 6 * l) mod 64"
proof -
  have t: "unat t = 256 * unat (drop_bit 8 t)" using low by (simp add: unat_drop mod_eq_0_iff_dvd)
  have "carry_level (drop_bit 8 t) 0 10 \<noteq> None"
  proof
    assume "carry_level (drop_bit 8 t) 0 10 = None"
    then have "2 ^ 60 dvd unat (drop_bit 8 t)" using carry_level_None [of "drop_bit 8 t" 0 10] by simp
    moreover have "unat (drop_bit 8 t) < 2 ^ 60" using unat_less_u64 [of t] t by (simp del: unat_less_u64)
    ultimately have "unat (drop_bit 8 t) = 0" using nat_dvd_not_less by blast
    then show False using t assms(1) by (simp add: unat_eq_zero)
  qed
  then obtain l s where c: "carry_level (drop_bit 8 t) 0 10 = Some (l, s)" by auto
  note sp = carry_level_Some [OF c]
  have "2 ^ (8 + 6 * l) dvd unat t" using sp by (subst t) (simp add: power_add)
  moreover have "s = unat t div 2 ^ (8 + 6 * l) mod 64" using sp by (simp add: power_add unat_drop div_mult2_eq)
  ultimately show ?thesis using that [OF c] sp by simp
qed

text \<open>How the new tick affects the place of an event that is still in the future.\<close>

lemma div_step: "\<not> n dvd Suc t \<Longrightarrow> Suc t div n = t div n"
  by (simp add: div_Suc dvd_eq_mod_eq_0)

lemma no_event_before_multiple:
  assumes "n dvd Suc t" "0 < n" "t < x" "x div n = t div n"
  shows False
proof -
  have "Suc t div n = Suc (t div n)" using assms(1) by (simp add: div_Suc dvd_eq_mod_eq_0)
  moreover have "Suc t div n \<le> x div n" using assms(3) by (intro div_le_mono) simp
  ultimately show False using assms(4) by simp
qed

lemma pow_dvd: "a \<le> b \<Longrightarrow> (2 :: nat) ^ b dvd x \<Longrightarrow> 2 ^ a dvd x"
  by (rule dvd_trans [OF le_imp_power_dvd])

lemma placed_step_near:
  assumes p: "placed_ok t b e" and late: "t < unat (ev_expire e)" and low: "Suc t mod 256 \<noteq> 0"
  shows "placed_ok (Suc t) b e"
proof -
  have "\<not> 2 ^ 8 dvd Suc t" using low by (simp add: dvd_eq_mod_eq_0)
  then have nd: "\<not> 2 ^ (8 + m) dvd Suc t" for m using pow_dvd [of 8 "8 + m" "Suc t"] by auto
  have same: "Suc t div 2 ^ (8 + m) = t div 2 ^ (8 + m)" for m using div_step [OF nd] .
  show ?thesis
  proof (cases b)
    case (NearSlot s)
    then show ?thesis using p late same [of 0] by simp
  next
    case (LevelSlot l s)
    have "Suc t div 2 ^ (14 + 6 * l) = t div 2 ^ (14 + 6 * l)" using same [of "6 + 6 * l"] by simp
    moreover have "Suc t \<noteq> unat (ev_expire e)" using p same [of "6 * l"] LevelSlot by auto
    ultimately show ?thesis using p late same [of "6 * l"] LevelSlot by simp
  qed
qed

lemma placed_step_carry:
  assumes p: "placed_ok t b e" and late: "t < unat (ev_expire e)"
    and d: "2 ^ (8 + 6 * l) dvd Suc t" and s: "s = Suc t div 2 ^ (8 + 6 * l) mod 64" "s \<noteq> 0"
    and b: "b \<noteq> LevelSlot l s"
  shows "placed_ok (Suc t) b e"
proof (cases b)
  case (NearSlot i)
  have "2 ^ 8 dvd Suc t" using pow_dvd [OF _ d, of 8] by simp
  then show ?thesis using no_event_before_multiple [of 256 t "unat (ev_expire e)"] p late NearSlot by simp
next
  case (LevelSlot m i)
  have high: "\<not> 2 ^ (14 + 6 * l) dvd Suc t"
  proof
    assume "2 ^ (14 + 6 * l) dvd Suc t"
    then obtain q where "Suc t = 2 ^ (8 + 6 * l) * (64 * q)" by (auto simp: dvd_def power_add)
    then show False using s by simp
  qed
  then have same: "Suc t div 2 ^ (14 + 6 * k) = t div 2 ^ (14 + 6 * k)" if "l \<le> k" for k
    using div_step [of "2 ^ (14 + 6 * k)"] pow_dvd [of "14 + 6 * l" "14 + 6 * k" "Suc t"] that by auto
  consider "m < l" | "m = l" | "l < m" by linarith
  then show ?thesis
  proof cases
    case 1
    then have "2 ^ (14 + 6 * m) dvd Suc t" using pow_dvd [OF _ d, of "14 + 6 * m"] by simp
    then show ?thesis using no_event_before_multiple [of "2 ^ (14 + 6 * m)" t "unat (ev_expire e)"] p late LevelSlot by simp
  next
    case 2
    then have "i \<noteq> s" using b LevelSlot by simp
    then have ne: "unat (ev_expire e) div 2 ^ (8 + 6 * l) \<noteq> Suc t div 2 ^ (8 + 6 * l)"
      using p LevelSlot 2 s(1) by auto
    then have "Suc t < unat (ev_expire e)" using late by (metis Suc_lessI)
    then show ?thesis using p LevelSlot 2 same [of l] ne by simp
  next
    case 3
    then obtain k where k: "m = Suc k" "l \<le> k" by (cases m) auto
    have "8 + 6 * m = 14 + 6 * k" using k by simp
    then have eq: "Suc t div 2 ^ (8 + 6 * m) = t div 2 ^ (8 + 6 * m)" using same [OF k(2)] by simp
    then have "Suc t < unat (ev_expire e)" using late p LevelSlot by (metis Suc_lessI placed_ok.simps(2))
    then show ?thesis using p LevelSlot eq same [of m] 3 by simp
  qed
qed

section \<open>Migration between levels\<close>

lemma forget_put: "forget_keys es (put_bucket b xs w) = put_bucket b xs (forget_keys es w)"
  by (simp add: forget_keys_def put_bucket_locations)

lemma forget_add:
  assumes "ev_key e \<notin> ev_key ` set es"
  shows "forget_keys es (add_event e w) = add_event e (forget_keys es w)"
proof -
  have "foldl (\<lambda>m e. m(ev_key e := None)) (m(ev_key e \<mapsto> x)) es =
      (foldl (\<lambda>m e. m(ev_key e := None)) m es)(ev_key e \<mapsto> x)" for m :: "timer_key \<Rightarrow> location option" and x
    using assms by (auto simp: fun_eq_iff foldl_forget)
  then show ?thesis
    by (simp add: add_event_eq Let_def forget_keys_def put_bucket_locations)
qed

text \<open>Forgetting each key just before its event is added again is forgetting all of them first.\<close>

lemma move_fold_eq:
  assumes "distinct (map ev_key es)"
  shows "foldl (\<lambda>w e. add_event e (w\<lparr>w_locations := (w_locations w)(ev_key e := None)\<rparr>)) w es =
     foldl (\<lambda>w e. add_event e w) (forget_keys es w) es"
  using assms
proof (induction es arbitrary: w)
  case (Cons e es)
  have "forget_keys es (add_event e (w\<lparr>w_locations := (w_locations w)(ev_key e := None)\<rparr>)) =
      add_event e (forget_keys (e # es) w)"
    using Cons.prems by (simp add: forget_add) (simp add: forget_keys_def)
  then show ?case using Cons.IH Cons.prems by (simp only: foldl_Cons list.map distinct.simps)
qed (simp add: forget_keys_def)

lemma readd_all:
  assumes "wheel_inv w" "distinct (map ev_key es)" "\<forall>e \<in> set es. w_locations w (ev_key e) = None"
    "\<forall>e \<in> set es. w_time w \<le> ev_expire e"
  shows "wheel_inv (foldl (\<lambda>w e. add_event e w) w es) \<and> pending (foldl (\<lambda>w e. add_event e w) w es) = set es \<union> pending w
    \<and> w_time (foldl (\<lambda>w e. add_event e w) w es) = w_time w"
  using assms
proof (induction es arbitrary: w)
  case (Cons e es)
  have inv: "wheel_inv (add_event e w)" using add_event_inv Cons.prems by simp
  have "clamped (w_time w) e = e" using Cons.prems(4) by (simp add: clamped_id)
  then have p: "pending (add_event e w) = insert e (pending w)" using add_event_pending Cons.prems(1) by simp
  have "w_locations (add_event e w) (ev_key e') = None" if e': "e' \<in> set es" for e'
  proof -
    have "ev_key e' \<noteq> ev_key e" using Cons.prems(2) e' by (metis distinct.simps(2) image_eqI list.set_map list.simps(9))
    then show ?thesis using Cons.prems(3) e' by (simp add: add_event_eq Let_def)
  qed
  then show ?case using Cons.IH [OF inv] Cons.prems p by simp
qed simp

text \<open>
  Everything that \<^verbatim>\<open>shift\<close> needs from the bucket it empties: what stays is well placed for the new
  tick, and what is moved is not in the past.
\<close>

lemma move_list_ok:
  assumes shape: "shape_ok w" and ok: "locations_ok w" and b: "valid_bucket (LevelSlot l s)"
    and stay: "\<And>b e. \<lbrakk>e \<in> set (bucket_of w b); b \<noteq> LevelSlot l s\<rbrakk> \<Longrightarrow> placed_ok (unat (w_time w)) b e"
    and move: "\<And>e. e \<in> set (bucket_of w (LevelSlot l s)) \<Longrightarrow> w_time w \<le> ev_expire e"
  shows "wheel_inv (move_list l s w) \<and> pending (move_list l s w) = pending w \<and> w_time (move_list l s w) = w_time w"
proof -
  define b where "b = LevelSlot l s"
  define w0 where "w0 = forget_keys (bucket_of w b) (put_bucket b [] w)"
  have vb: "valid_bucket b" using b by (simp only: b_def)
  have buckets: "bucket_of w0 b' = (if b' = b then [] else bucket_of w b')" for b'
    unfolding w0_def by (rule empty_bucket_of [OF shape vb])
  have keys: "distinct (map ev_key (bucket_of w b))" by (rule bucket_keys_distinct [OF ok])
  have inv: "wheel_inv w0"
    using empty_bucket_locations [OF shape ok vb] shape stay unfolding wheel_inv_def buckets b_def [symmetric]
    by (simp add: w0_def)
  have eq: "move_list l s w = foldl (\<lambda>w e. add_event e w) w0 (bucket_of w b)"
    unfolding move_list_def b_def [symmetric] w0_def by (rule move_fold_eq [OF keys])
  have "w_locations w0 (ev_key e) = None" if "e \<in> set (bucket_of w b)" for e
    using that by (simp add: w0_def)
  moreover have "w_time w0 = w_time w" by (simp add: w0_def)
  moreover have "set (bucket_of w b) \<union> pending w0 = pending w"
    unfolding pending_def buckets by (auto split: if_splits)
  ultimately show ?thesis
    using readd_all [OF inv keys] move unfolding eq b_def [symmetric] by simp
qed

lemma shift_wheel_ok:
  assumes inv: "wheel_inv w" and late: "\<And>e. e \<in> pending w \<Longrightarrow> w_time w < ev_expire e" and max: "w_time w \<noteq> - 1"
  shows "wheel_inv (shift_wheel w) \<and> pending (shift_wheel w) = pending w \<and> w_time (shift_wheel w) = w_time w + 1"
proof -
  define w1 where "w1 = w\<lparr>w_time := w_time w + 1\<rparr>"
  have t: "unat (w_time w + 1) = Suc (unat (w_time w))" by (rule unat_succ [OF max])
  then have nz: "w_time w + 1 \<noteq> 0" by (metis nat.distinct(1) unat_eq_zero)
  have in_p: "e \<in> pending w" if "e \<in> set (bucket_of w b)" for e b using that unfolding pending_def by blast
  have old: "placed_ok (unat (w_time w)) b e" "unat (w_time w) < unat (ev_expire e)" if "e \<in> set (bucket_of w b)" for b e
    using that inv late [OF in_p [OF that]] unfolding wheel_inv_def word_less_nat_alt by blast+
  have at: "ev_at w1 = ev_at w" by (simp add: fun_eq_iff ev_at_def w1_def)
  have ok: "shape_ok w1" "locations_ok w1"
    using inv at by (simp_all add: wheel_inv_def locations_ok_def) (simp_all add: w1_def)
  have p1: "pending w1 = pending w" "bucket_of w1 b = bucket_of w b" "w_time w1 = w_time w + 1" for b
    by (simp_all add: pending_def w1_def)
  show ?thesis
  proof (cases "unat (w_time w + 1) mod 256 = 0")
    case False
    then have "shift_wheel w = w1"
      using nz by (auto simp: shift_wheel_def Let_def w1_def simp flip: unat_near_mask)
    moreover have "wheel_inv w1"
      using ok old placed_step_near False unfolding wheel_inv_def p1 t by blast
    ultimately show ?thesis by (simp add: p1)
  next
    case True
    obtain l s where c: "carry_level (drop_bit 8 (w_time w + 1)) 0 10 = Some (l, s)" "l < 10" "s \<noteq> 0"
      "2 ^ (8 + 6 * l) dvd Suc (unat (w_time w))" "s = Suc (unat (w_time w)) div 2 ^ (8 + 6 * l) mod 64"
      using carry_found [OF nz True] unfolding t by blast
    have "(w_time w + 1) AND TIME_NEAR_MASK = 0" using True unat_near_mask [of "w_time w + 1"] by (simp add: unat_eq_zero)
    then have "shift_wheel w = move_list l s w1"
      using nz c(1) by (simp add: shift_wheel_def Let_def w1_def TIME_LEVELS_def TIME_NEAR_SHIFT_def)
    moreover have "valid_bucket (LevelSlot l s)" using c by simp
    moreover have "placed_ok (unat (w_time w1)) b e" if "e \<in> set (bucket_of w1 b)" "b \<noteq> LevelSlot l s" for b e
      using placed_step_carry [OF _ _ c(4,5,3) that(2)] old that(1) unfolding p1 t by blast
    moreover have "w_time w1 \<le> ev_expire e" if "e \<in> set (bucket_of w1 (LevelSlot l s))" for e
      using old(2) that unfolding p1 word_le_nat_alt t by (simp only: Suc_le_eq)
    ultimately show ?thesis using move_list_ok [OF ok] p1 by simp
  qed
qed

lemma bucket_new [simp]: "bucket_of new_wheel b = []"
  by (cases b) (auto simp: new_wheel_def TIME_NEAR_def TIME_LEVELS_def TIME_LEVEL_def)

lemma new_wheel_inv: "wheel_inv new_wheel" "pending new_wheel = {}" "w_time new_wheel = 0"
proof -
  have "ev_at new_wheel loc = None" for loc by (cases loc) (simp add: ev_at_def)
  moreover have "shape_ok new_wheel"
    by (simp add: new_wheel_def shape_ok_def TIME_NEAR_def TIME_LEVELS_def TIME_LEVEL_def)
  ultimately show "wheel_inv new_wheel" by (simp add: wheel_inv_def locations_ok_def) (simp add: new_wheel_def)
  show "pending new_wheel = {}" by (simp add: pending_def)
  show "w_time new_wheel = 0" by (simp add: new_wheel_def)
qed

section \<open>Properties\<close>

text \<open>
  C34: Advancing the clock by one tick, once everything due has been taken out, migrates events
  between the levels without losing, duplicating or changing any, and leaves each where the new tick
  wants it, so that the next execution finds exactly the events of its tick in one near slot.
\<close>

theorem shift_then_execute_exact:
  assumes "wheel_inv w" "w_time w \<noteq> - 1" "\<forall>e \<in> pending w. w_time w < ev_expire e"
  shows "pending (shift_wheel w) = pending w \<and> wheel_inv (shift_wheel w)
    \<and> set (fst (execute_wheel (shift_wheel w))) = {e \<in> pending w. ev_expire e = w_time w + 1}
    \<and> pending (snd (execute_wheel (shift_wheel w))) = {e \<in> pending w. ev_expire e \<noteq> w_time w + 1}"
proof -
  have s: "wheel_inv (shift_wheel w)" "pending (shift_wheel w) = pending w" "w_time (shift_wheel w) = w_time w + 1"
    using shift_wheel_ok [OF assms(1) _ assms(2)] assms(3) by blast+
  have "w_time w + 1 < ev_expire e \<longleftrightarrow> ev_expire e \<noteq> w_time w + 1" if "e \<in> pending w" for e
    using pending_not_early [OF s(1), of e] that s(2,3) by (simp add: less_le eq_commute)
  then show ?thesis using s execute_wheel_fires [OF s(1)] by auto
qed

theorem shift_then_execute_exact_witness:
  "let w = (add_event \<lparr>ev_handle = 7, ev_session = 1, ev_expire = 300\<rparr> new_wheel) in
   pending (shift_wheel w) = {\<lparr>ev_handle = 7, ev_session = 1, ev_expire = 300\<rparr>}
   \<and> set (fst (execute_wheel (shift_wheel w))) = {}"
proof -
  let ?e = "\<lparr>ev_handle = 7, ev_session = 1, ev_expire = 300\<rparr> :: timer_event"
  let ?w = "add_event ?e new_wheel"
  have "wheel_inv ?w" "w_time ?w = 0" "pending ?w = {?e}"
    using add_event_inv [OF new_wheel_inv(1), of ?e] add_event_pending [OF new_wheel_inv(1), of ?e]
    by (simp_all add: new_wheel_inv clamped_def) (simp add: new_wheel_def)
  then have "pending (shift_wheel ?w) = {?e}" "set (fst (execute_wheel (shift_wheel ?w))) = {e \<in> {?e}. ev_expire e = 1}"
    using shift_then_execute_exact [of ?w] by simp_all
  moreover have "{e \<in> {?e}. ev_expire e = 1} = {}" by auto
  ultimately show ?thesis unfolding Let_def by simp
qed

text \<open>
  C35: Cancelling a timer takes exactly its event out of the wheel and keeps the index consistent for
  the event that the swap moved; cancelling a key that is not armed changes nothing.
\<close>

theorem cancel_exact:
  assumes "wheel_inv w"
  shows "pending (cancel_event k w) = {e \<in> pending w. ev_key e \<noteq> k} \<and> wheel_inv (cancel_event k w)
    \<and> (w_locations w k = None \<longrightarrow> cancel_event k w = w) \<and> w_time (cancel_event k w) = w_time w"
  using cancel_event_pending [OF assms] cancel_event_inv [OF assms] cancel_event_frame [OF assms]
  by (simp add: cancel_event_def)

theorem cancel_exact_witness:
  "pending (cancel_event (7, 1) (add_event \<lparr>ev_handle = 7, ev_session = 1, ev_expire = 300\<rparr> new_wheel)) = {}"
proof -
  let ?e = "\<lparr>ev_handle = 7, ev_session = 1, ev_expire = 300\<rparr> :: timer_event"
  let ?w = "add_event ?e new_wheel"
  have "wheel_inv ?w" "pending ?w = {?e}"
    using add_event_inv [OF new_wheel_inv(1), of ?e] add_event_pending [OF new_wheel_inv(1), of ?e]
    by (simp_all add: new_wheel_inv clamped_def) (simp add: new_wheel_def)
  then show ?thesis using cancel_exact [of ?w "(7, 1)"] by (auto simp: ev_key_def)
qed

end
