(* ===== verification/Timer.thy ===== *)
theory Timer
  imports Wheel Message
begin

text \<open>
  The node's time source and the timer service on top of the wheel
  (\<^verbatim>\<open>rskynet-timer/src/lib.rs\<close> and \<^verbatim>\<open>service.rs\<close>).  Arming and cancelling push commands on a
  lock-free queue; the timer service drains it, advances the wheel to the monotonic clock and sends one
  response per due event.  The reading of the clock is an argument of the operations that read it, in
  elapsed milliseconds.  The lemmas show that rounds of the service implement a plain set of pending
  events with deadlines: each fires once, at the first round that has reached its tick.
\<close>

section \<open>State and operations\<close>

datatype timer_command = Arm timer_event | Cancel timer_key

record wheel_timer =
  wt_incoming :: "timer_command list"
  wt_start_time :: u64
  wt_ticks :: u64

text \<open>\<^verbatim>\<open>as_millis().min(u64::MAX) as u64\<close>.\<close>

definition millis :: "nat \<Rightarrow> u64" where
  "millis n = of_nat (min n 18446744073709551615)"

definition new_wheel_timer :: "nat \<Rightarrow> wheel_timer" where
  "new_wheel_timer unix_ms = \<lparr>wt_incoming = [], wt_start_time = millis unix_ms, wt_ticks = 0\<rparr>"

definition div_ceil :: "u64 \<Rightarrow> u64 \<Rightarrow> u64" where
  "div_ceil a b = (if a mod b > 0 then a div b + 1 else a div b)"

definition timer_timeout :: "nat \<Rightarrow> u64 \<Rightarrow> u64 \<Rightarrow> u64 \<Rightarrow> wheel_timer \<Rightarrow> wheel_timer" where
  "timer_timeout elapsed handle session delay_ms t =
     (let deadline_ms = saturating_add (millis elapsed) delay_ms;
          expire = div_ceil deadline_ms 10
      in t\<lparr>wt_incoming := wt_incoming t @ [Arm \<lparr>ev_handle = handle, ev_session = session, ev_expire = expire\<rparr>]\<rparr>)"

definition timer_cancel :: "u64 \<Rightarrow> u64 \<Rightarrow> wheel_timer \<Rightarrow> wheel_timer" where
  "timer_cancel handle session t = t\<lparr>wt_incoming := wt_incoming t @ [Cancel (handle, session)]\<rparr>"

definition wall_clock :: "nat \<Rightarrow> wheel_timer \<Rightarrow> u64" where
  "wall_clock elapsed t = saturating_add (wt_start_time t) (millis elapsed)"

fun apply_command :: "timer_command \<Rightarrow> wheel \<Rightarrow> wheel" where
  "apply_command (Arm e) w = add_event e w"
| "apply_command (Cancel k) w = cancel_event k w"

fun apply_commands :: "timer_command list \<Rightarrow> wheel \<Rightarrow> wheel" where
  "apply_commands [] w = w"
| "apply_commands (c # cs) w = apply_commands cs (apply_command c w)"

fun tick_loop :: "nat \<Rightarrow> timer_event list \<Rightarrow> wheel \<Rightarrow> timer_event list \<times> wheel" where
  "tick_loop 0 out w = (out, w)"
| "tick_loop (Suc n) out w =
     (let (es, w1) = execute_wheel w;
          (es', w2) = execute_wheel (shift_wheel w1)
      in tick_loop n (out @ es @ es') w2)"

definition timer_update :: "nat \<Rightarrow> wheel_timer \<Rightarrow> wheel \<Rightarrow> timer_event list \<times> wheel_timer \<times> wheel" where
  "timer_update elapsed t w =
     (let target_tick = millis elapsed div 10;
          diff = saturating_sub target_tick (wt_ticks t);
          w' = apply_commands (wt_incoming t) w;
          t' = t\<lparr>wt_incoming := []\<rparr>
      in if diff = 0 then (let (es, w2) = execute_wheel w' in (es, t', w2))
         else (let (es, w2) = tick_loop (unat diff) [] w' in (es, t'\<lparr>wt_ticks := target_tick\<rparr>, w2)))"

section \<open>The timer service\<close>

record timestamp =
  ts_now :: u64
  ts_wall_clock :: u64
  ts_start_time :: u64

definition stamp :: "nat \<Rightarrow> wheel_timer \<Rightarrow> timestamp" where
  "stamp elapsed t =
     \<lparr>ts_now = millis elapsed, ts_wall_clock = wall_clock elapsed t, ts_start_time = wt_start_time t\<rparr>"

definition timer_init :: "u64 option \<Rightarrow> u64 result" where
  "timer_init conf =
     (let tick_micros = (case conf of Some m \<Rightarrow> m | None \<Rightarrow> 2500) in
      if tick_micros = 0 then Inl (ConfigError ''[timer] tick_micros'') else Inr tick_micros)"

text \<open>What one pass of the idle hook does to the node, in order.\<close>

datatype idle_action =
    SendResponse u64 u64 u64
  | QuitNode
  | Poke
  | Park
  | ParkTimeout u64

definition timer_idle ::
  "bool \<Rightarrow> bool \<Rightarrow> nat \<Rightarrow> u64 \<Rightarrow> nat \<Rightarrow> wheel_timer \<Rightarrow> wheel \<Rightarrow> idle_action list \<times> wheel_timer \<times> wheel" where
  "timer_idle is_quit is_booted service_count tick elapsed t w =
     (if is_quit then ([Park], t, w)
      else (let (es, t', w') = timer_update elapsed t w;
                sends = map (\<lambda>e. SendResponse 0 (ev_handle e) (ev_session e)) es
            in if is_booted \<and> service_count = 0 then (sends @ [QuitNode], t', w')
               else (sends @ [Poke, ParkTimeout tick], t', w')))"

section \<open>Specification\<close>

text \<open>
  The abstract timer: a tick and a set of events.  A round applies the queued commands, moves the
  tick forward and takes out what is due.
\<close>

fun spec_command :: "u64 \<Rightarrow> timer_command \<Rightarrow> timer_event set \<Rightarrow> timer_event set" where
  "spec_command now (Arm e) P = insert (clamped now e) P"
| "spec_command now (Cancel k) P = {e \<in> P. ev_key e \<noteq> k}"

fun spec_commands :: "u64 \<Rightarrow> timer_command list \<Rightarrow> timer_event set \<Rightarrow> timer_event set" where
  "spec_commands now [] P = P"
| "spec_commands now (c # cs) P = spec_commands now cs (spec_command now c P)"

text \<open>Sessions are never reused while armed: no command arms a key that is already pending.\<close>

fun arms_fresh :: "u64 \<Rightarrow> timer_command list \<Rightarrow> timer_event set \<Rightarrow> bool" where
  "arms_fresh now [] P = True"
| "arms_fresh now (c # cs) P =
     ((case c of Arm e \<Rightarrow> ev_key e \<notin> ev_key ` P | Cancel k \<Rightarrow> True) \<and> arms_fresh now cs (spec_command now c P))"

definition spec_round :: "nat \<Rightarrow> timer_command list \<Rightarrow> u64 \<times> timer_event set \<Rightarrow> timer_event set \<times> u64 \<times> timer_event set" where
  "spec_round elapsed cs = (\<lambda>(now, P).
     (let P' = spec_commands now cs P; now' = max now (millis elapsed div 10)
      in ({e \<in> P'. ev_expire e \<le> now'}, now', {e \<in> P'. now' < ev_expire e})))"

text \<open>Rounds: the commands pushed since the last one, and the clock at its start.\<close>

fun timer_rounds :: "(timer_command list \<times> nat) list \<Rightarrow> wheel_timer \<Rightarrow> wheel \<Rightarrow> timer_event list list" where
  "timer_rounds [] t w = []"
| "timer_rounds ((cs, elapsed) # rs) t w =
     (let (es, t', w') = timer_update elapsed (t\<lparr>wt_incoming := wt_incoming t @ cs\<rparr>) w
      in es # timer_rounds rs t' w')"

fun spec_rounds :: "(timer_command list \<times> nat) list \<Rightarrow> u64 \<times> timer_event set \<Rightarrow> timer_event set list" where
  "spec_rounds [] st = []"
| "spec_rounds ((cs, elapsed) # rs) st = (let (es, st') = spec_round elapsed cs st in es # spec_rounds rs st')"

fun rounds_fresh :: "(timer_command list \<times> nat) list \<Rightarrow> u64 \<times> timer_event set \<Rightarrow> bool" where
  "rounds_fresh [] st = True"
| "rounds_fresh ((cs, elapsed) # rs) st =
     (arms_fresh (fst st) cs (snd st) \<and> rounds_fresh rs (snd (spec_round elapsed cs st)))"

section \<open>Commands\<close>

lemma no_location_iff:
  assumes "wheel_inv w"
  shows "w_locations w k = None \<longleftrightarrow> k \<notin> ev_key ` pending w"
proof -
  have ok: "locations_ok w" using assms by (simp add: wheel_inv_def)
  show ?thesis
  proof
    assume none: "w_locations w k = None"
    show "k \<notin> ev_key ` pending w"
    proof
      assume "k \<in> ev_key ` pending w"
      then obtain e loc where "ev_at w loc = Some e" "k = ev_key e" unfolding image_iff Bex_def pending_at by blast
      then show False using ev_at_key [OF ok] none by fastforce
    qed
  next
    assume k: "k \<notin> ev_key ` pending w"
    show "w_locations w k = None"
    proof (rule ccontr)
      assume "w_locations w k \<noteq> None"
      then obtain e loc where "ev_at w loc = Some e" "ev_key e = k" using locations_okD [OF ok, of k] by blast
      then show False using k pending_at by blast
    qed
  qed
qed

lemma apply_command_ok:
  assumes "wheel_inv w" "case c of Arm e \<Rightarrow> ev_key e \<notin> ev_key ` pending w | Cancel k \<Rightarrow> True"
  shows "wheel_inv (apply_command c w)" "pending (apply_command c w) = spec_command (w_time w) c (pending w)"
    "w_time (apply_command c w) = w_time w"
  using assms add_event_inv add_event_pending cancel_event_inv cancel_event_pending cancel_event_frame
    no_location_iff [of w] by (cases c; simp)+

lemma apply_commands_ok:
  assumes "wheel_inv w" "arms_fresh (w_time w) cs (pending w)"
  shows "wheel_inv (apply_commands cs w) \<and> pending (apply_commands cs w) = spec_commands (w_time w) cs (pending w)
    \<and> w_time (apply_commands cs w) = w_time w"
  using assms
proof (induction cs arbitrary: w)
  case (Cons c cs)
  have c: "case c of Arm e \<Rightarrow> ev_key e \<notin> ev_key ` pending w | Cancel k \<Rightarrow> True" using Cons.prems by simp
  note ok = apply_command_ok [OF Cons.prems(1) c]
  show ?case using Cons.IH [OF ok(1)] Cons.prems(2) ok(2,3) by simp
qed simp

section \<open>Catching up with the clock\<close>

lemma finish_tick:
  assumes "wheel_inv w"
  shows "wheel_inv (snd (execute_wheel w))" "w_time (snd (execute_wheel w)) = w_time w"
    "set (fst (execute_wheel w)) = {e \<in> pending w. ev_expire e \<le> w_time w}"
    "distinct (fst (execute_wheel w))"
    "pending (snd (execute_wheel w)) = {e \<in> pending w. w_time w < ev_expire e}"
  using execute_wheel_inv [OF assms] execute_wheel_fires [OF assms] pending_not_early [OF assms]
  by (auto simp: order_eq_iff)

text \<open>The state of the loop: every event of the round is either taken out, once, or still pending.\<close>

definition collected :: "timer_event set \<Rightarrow> timer_event list \<Rightarrow> wheel \<Rightarrow> bool" where
  "collected P out w =
     (wheel_inv w \<and> distinct out \<and> set out \<union> pending w = P \<and> set out \<inter> pending w = {} \<and>
      (\<forall>e \<in> set out. ev_expire e \<le> w_time w))"

definition all_late :: "wheel \<Rightarrow> bool" where
  "all_late w = (\<forall>e \<in> pending w. w_time w < ev_expire e)"

lemma collected_execute:
  assumes "collected P out w"
  shows "collected P (out @ fst (execute_wheel w)) (snd (execute_wheel w))" "all_late (snd (execute_wheel w))"
    "w_time (snd (execute_wheel w)) = w_time w"
proof -
  have inv: "wheel_inv w" using assms by (simp add: collected_def)
  note f = finish_tick [OF inv]
  have "set (fst (execute_wheel w)) \<union> pending (snd (execute_wheel w)) = pending w"
    "set (fst (execute_wheel w)) \<inter> pending (snd (execute_wheel w)) = {}"
    unfolding f by auto
  moreover have "\<forall>e \<in> set (fst (execute_wheel w)). ev_expire e \<le> w_time w" unfolding f by auto
  ultimately show "collected P (out @ fst (execute_wheel w)) (snd (execute_wheel w))"
    using assms f(1,2,4) unfolding collected_def by auto
  show "all_late (snd (execute_wheel w))" "w_time (snd (execute_wheel w)) = w_time w"
    using f by (auto simp: all_late_def)
qed

lemma collected_shift:
  assumes c: "collected P out w" and late: "all_late w" and max: "w_time w \<noteq> - 1"
  shows "collected P out (shift_wheel w)" "w_time (shift_wheel w) = w_time w + 1"
proof -
  have s: "wheel_inv (shift_wheel w) \<and> pending (shift_wheel w) = pending w \<and> w_time (shift_wheel w) = w_time w + 1"
    using shift_wheel_ok [OF _ _ max] c late unfolding collected_def all_late_def by blast
  have "x \<le> w_time w + 1" if "x \<le> w_time w" for x
    using that unat_succ [OF max] by (simp add: word_le_nat_alt)
  then show "collected P out (shift_wheel w)" using c s unfolding collected_def by auto
  show "w_time (shift_wheel w) = w_time w + 1" using s by simp
qed

lemma tick_loop_ok:
  assumes "collected P out w" "unat (w_time w) + n < 2 ^ 64" "0 < n"
  shows "collected P (fst (tick_loop n out w)) (snd (tick_loop n out w)) \<and> all_late (snd (tick_loop n out w))
    \<and> w_time (snd (tick_loop n out w)) = w_time w + of_nat n"
  using assms
proof (induction n arbitrary: out w)
  case (Suc n)
  have max: "w_time w \<noteq> - 1" using Suc.prems(2) by auto
  define w1 where "w1 = snd (execute_wheel w)"
  define w2 where "w2 = shift_wheel w1"
  define out' where "out' = (out @ fst (execute_wheel w)) @ fst (execute_wheel w2)"
  have one: "collected P (out @ fst (execute_wheel w)) w1" "all_late w1" "w_time w1 = w_time w"
    unfolding w1_def using collected_execute [OF Suc.prems(1)] by blast+
  have two: "collected P (out @ fst (execute_wheel w)) w2" "w_time w2 = w_time w + 1"
    using collected_shift [OF one(1,2)] one(3) max by (simp_all add: w2_def)
  have three: "collected P out' (snd (execute_wheel w2))" "all_late (snd (execute_wheel w2))"
    "w_time (snd (execute_wheel w2)) = w_time w + 1"
    using collected_execute [OF two(1)] two(2) by (simp_all add: out'_def)
  have eq: "tick_loop (Suc n) out w = tick_loop n out' (snd (execute_wheel w2))"
    by (simp add: out'_def w2_def w1_def split_beta)
  show ?case
  proof (cases "n = 0")
    case True
    then show ?thesis using three eq by simp
  next
    case False
    have "unat (w_time w + 1) + n < 2 ^ 64"
      using Suc.prems(2) by (subst unat_add_no_wrap) simp_all
    then show ?thesis using Suc.IH [OF three(1)] False three(3) unfolding eq by (simp add: add.assoc)
  qed
qed simp

lemma collected_start: "wheel_inv w \<Longrightarrow> collected (pending w) [] w"
  by (simp add: collected_def)

lemma collected_end:
  assumes "collected P out w" "all_late w"
  shows "set out = {e \<in> P. ev_expire e \<le> w_time w}" "pending w = {e \<in> P. w_time w < ev_expire e}"
  using assms unfolding collected_def all_late_def by (auto simp: not_le)

section \<open>One round\<close>

lemma diff_zero: "saturating_sub a b = 0 \<longleftrightarrow> a \<le> b" for a b :: u64
  by (auto simp: saturating_sub_def)

lemma timer_update_ok:
  assumes inv: "wheel_inv w" and sync: "w_time w = wt_ticks t"
    and fresh: "arms_fresh (wt_ticks t) (wt_incoming t) (pending w)"
    and u: "timer_update elapsed t w = (es, t', w')"
  shows "distinct es" "wheel_inv w'" "w_time w' = wt_ticks t'" "wt_incoming t' = []"
    "(set es, wt_ticks t', pending w') = spec_round elapsed (wt_incoming t) (wt_ticks t, pending w)"
proof -
  define w1 where "w1 = apply_commands (wt_incoming t) w"
  define P where "P = spec_commands (wt_ticks t) (wt_incoming t) (pending w)"
  define target where "target = millis elapsed div 10"
  have w1: "wheel_inv w1" "pending w1 = P" "w_time w1 = wt_ticks t"
    using apply_commands_ok [OF inv] fresh sync by (simp_all add: w1_def P_def)
  have start: "collected P [] w1" using collected_start [OF w1(1)] w1(2) by simp
  have all: "collected P es w' \<and> all_late w' \<and> w_time w' = max (wt_ticks t) target \<and> wt_ticks t' = max (wt_ticks t) target \<and>
      wt_incoming t' = []"
  proof (cases "target \<le> wt_ticks t")
    case True
    then have "es = fst (execute_wheel w1)" "w' = snd (execute_wheel w1)" "t' = t\<lparr>wt_incoming := []\<rparr>"
      using u by (auto simp: timer_update_def Let_def diff_zero w1_def target_def split_beta)
    then show ?thesis using collected_execute [OF start] w1(3) True by (simp add: max_def)
  next
    case False
    let ?n = "unat (target - wt_ticks t)"
    have n: "unat (wt_ticks t) + ?n = unat target" "0 < ?n"
      using False by (simp_all add: unat_sub_if' word_le_nat_alt)
    have "saturating_sub target (wt_ticks t) = target - wt_ticks t" "target - wt_ticks t \<noteq> 0"
      using False by (auto simp: saturating_sub_def)
    then have "es = fst (tick_loop ?n [] w1)" "w' = snd (tick_loop ?n [] w1)" "t' = t\<lparr>wt_incoming := [], wt_ticks := target\<rparr>"
      using u by (auto simp: timer_update_def Let_def w1_def target_def split_beta)
    then show ?thesis
      using tick_loop_ok [OF start, of ?n] w1(3) n False by (auto simp: max_def)
  qed
  then show "distinct es" "wheel_inv w'" "w_time w' = wt_ticks t'" "wt_incoming t' = []"
    by (auto simp: collected_def)
  have "set es = {e \<in> P. ev_expire e \<le> w_time w'}" "pending w' = {e \<in> P. w_time w' < ev_expire e}"
    using collected_end [of P es w'] all by simp_all
  then show "(set es, wt_ticks t', pending w') = spec_round elapsed (wt_incoming t) (wt_ticks t, pending w)"
    using all by (simp add: spec_round_def Let_def P_def target_def)
qed

lemma timer_rounds_ok:
  assumes "wheel_inv w" "w_time w = wt_ticks t" "wt_incoming t = []" "rounds_fresh rs (wt_ticks t, pending w)"
  shows "map set (timer_rounds rs t w) = spec_rounds rs (wt_ticks t, pending w) \<and>
     (\<forall>es \<in> set (timer_rounds rs t w). distinct es)"
  using assms
proof (induction rs arbitrary: t w)
  case (Cons r rs)
  obtain cs elapsed where r: "r = (cs, elapsed)" by (cases r)
  obtain es t' w' where u: "timer_update elapsed (t\<lparr>wt_incoming := wt_incoming t @ cs\<rparr>) w = (es, t', w')"
    by (metis prod_cases3)
  have fresh: "arms_fresh (wt_ticks t) cs (pending w)" using Cons.prems r by simp
  note ok = timer_update_ok [OF Cons.prems(1) _ _ u]
  have ok': "distinct es" "wheel_inv w'" "w_time w' = wt_ticks t'" "wt_incoming t' = []"
    "spec_round elapsed cs (wt_ticks t, pending w) = (set es, wt_ticks t', pending w')"
    using ok Cons.prems(2,3) fresh by simp_all
  show ?case using Cons.IH [OF ok'(2-4)] Cons.prems(4) ok'(1,5) r u by simp
qed simp

section \<open>Deadlines\<close>

lemma unat_millis: "unat (millis n) = min n 18446744073709551615"
  unfolding millis_def by (rule unat_of_nat_less) simp

lemma ceil_div_ten: "(if 0 < n mod 10 then Suc (n div 10) else n div 10) = (n + 9) div 10" for n :: nat
proof -
  have "(n mod 10 + 9) div 10 = (if 0 < n mod 10 then 1 else 0)"
    by (rule div_nat_eqI) (auto simp: Suc_le_eq dvd_eq_mod_eq_0)
  moreover have "(n div 10 * 10 + n mod 10 + 9) div 10 = n div 10 + (n mod 10 + 9) div 10"
    by (simp only: add.assoc div_mult_self3)
  ultimately show ?thesis by (simp only: div_mult_mod_eq) simp
qed

lemma unat_div_ceil: "unat (div_ceil a 10) = (unat a + 9) div 10"
proof -
  define n where "n = unat a"
  have nz: "unat (a mod 10) = n mod 10" "unat (a div 10) = n div 10"
    by (simp_all add: unat_mod_numeral unat_div_numeral n_def)
  have "n < 18446744073709551616" by (simp add: n_def)
  then have "unat (a div 10) \<noteq> unat (- 1 :: u64)" unfolding nz unat_max_u64 by linarith
  then have "a div 10 \<noteq> - 1" by metis
  note suc = unat_succ [OF this]
  have "0 < a mod 10 \<longleftrightarrow> 0 < n mod 10" by (simp only: word_less_nat_alt nz unat_0)
  then have "unat (div_ceil a 10) = (if 0 < n mod 10 then Suc (n div 10) else n div 10)"
    by (simp only: div_ceil_def suc nz if_distrib [where f = unat])
  also have "\<dots> = (n + 9) div 10" by (rule ceil_div_ten)
  finally show ?thesis by (simp only: n_def)
qed

lemma timeout_expire:
  assumes "elapsed + unat delay < 2 ^ 64"
  shows "unat (div_ceil (saturating_add (millis elapsed) delay) 10) = (elapsed + unat delay + 9) div 10"
proof -
  have m: "unat (millis elapsed) = elapsed" using assms by (simp add: unat_millis)
  then have "checked_add (millis elapsed) delay = Some (millis elapsed + delay)"
    using assms by (simp add: checked_add_Some)
  moreover have "unat (millis elapsed + delay) = elapsed + unat delay"
    using m assms by (subst unat_add_no_wrap) simp_all
  ultimately show ?thesis by (simp add: saturating_add_def unat_div_ceil)
qed

lemma spec_commands_append: "spec_commands now (cs @ ds) P = spec_commands now ds (spec_commands now cs P)"
  by (induction cs arbitrary: P) auto

lemma arms_fresh_append:
  "arms_fresh now (cs @ ds) P \<longleftrightarrow> arms_fresh now cs P \<and> arms_fresh now ds (spec_commands now cs P)"
  by (induction cs arbitrary: P) auto

section \<open>Properties\<close>

definition event_a :: timer_event where "event_a = \<lparr>ev_handle = 7, ev_session = 1, ev_expire = 300\<rparr>"
definition event_b :: timer_event where "event_b = \<lparr>ev_handle = 7, ev_session = 2, ev_expire = 3\<rparr>"

text \<open>
  C9: The wheel behind the timer service implements a set of pending events.  Over any sequence of
  rounds, each given by the commands pushed since the last one and by the clock, the events handed out
  by each round are exactly those that the specification takes out (armed, not cancelled, and with an
  expiry at or before the tick that the round reaches), and no round hands out an event twice.
\<close>

theorem timer_rounds_refine:
  assumes "rounds_fresh rs (0, {})"
  shows "map set (timer_rounds rs (new_wheel_timer unix_ms) new_wheel) = spec_rounds rs (0, {})
    \<and> list_all distinct (timer_rounds rs (new_wheel_timer unix_ms) new_wheel)"
  using timer_rounds_ok [OF new_wheel_inv(1), of "new_wheel_timer unix_ms" rs] assms new_wheel_inv(2,3)
  by (simp add: new_wheel_timer_def list_all_iff)

theorem timer_rounds_refine_witness:
  "rounds_fresh [([Arm event_a, Arm event_b], 10), ([Cancel (7, 1)], 3100)] (0, {})
   \<and> map set (timer_rounds [([Arm event_a, Arm event_b], 10), ([Cancel (7, 1)], 3100)] (new_wheel_timer 0) new_wheel)
     = spec_rounds [([Arm event_a, Arm event_b], 10), ([Cancel (7, 1)], 3100)] (0, {})"
proof -
  have f: "rounds_fresh [([Arm event_a, Arm event_b], 10), ([Cancel (7, 1)], 3100)] (0, {})"
    by (auto simp: event_a_def event_b_def clamped_def ev_key_def)
  show ?thesis using f timer_rounds_refine [OF f, of 0] by blast
qed

text \<open>
  C22: One round of the service, from any state it can be in: what it returns is, without
  repetition, exactly the pending events due at the tick it reaches; every other event stays
  pending; the wheel ends in a well-formed state, synchronised with the published tick, and the
  command queue is drained.
\<close>

theorem timer_update_fires_due:
  assumes "wheel_inv w" "w_time w = wt_ticks t" "arms_fresh (wt_ticks t) (wt_incoming t) (pending w)"
    "timer_update elapsed t w = (es, t', w')"
  shows "distinct es \<and> set es = {e \<in> spec_commands (wt_ticks t) (wt_incoming t) (pending w). ev_expire e \<le> wt_ticks t'}
    \<and> pending w' = spec_commands (wt_ticks t) (wt_incoming t) (pending w) - set es
    \<and> wt_ticks t' = max (wt_ticks t) (millis elapsed div 10) \<and> w_time w' = wt_ticks t' \<and> wheel_inv w' \<and> wt_incoming t' = []"
  using timer_update_ok [OF assms] by (auto simp: spec_round_def Let_def not_le simp del: max_less_iff_conj)

theorem timer_update_fires_due_witness:
  "\<exists>es t' w'. timer_update 35 ((new_wheel_timer 0)\<lparr>wt_incoming := [Arm event_a, Arm event_b]\<rparr>) new_wheel = (es, t', w')
     \<and> event_b \<in> set es \<and> event_a \<in> pending w' \<and> wt_ticks t' = 3"
proof -
  let ?t = "(new_wheel_timer 0)\<lparr>wt_incoming := [Arm event_a, Arm event_b]\<rparr>"
  obtain es t' w' where u: "timer_update 35 ?t new_wheel = (es, t', w')" by (metis prod_cases3)
  have sync: "w_time new_wheel = wt_ticks ?t" by (simp add: new_wheel_timer_def new_wheel_inv)
  have fresh: "arms_fresh (wt_ticks ?t) (wt_incoming ?t) (pending new_wheel)"
    by (simp add: new_wheel_timer_def new_wheel_inv event_a_def event_b_def ev_key_def clamped_def)
  have ticks: "max (0 :: u64) (millis 35 div 10) = 3" by (simp add: millis_def)
  have "spec_commands 0 [Arm event_a, Arm event_b] {} = {event_a, event_b}"
    by (auto simp: event_a_def event_b_def clamped_def)
  then have "set es = {e \<in> {event_a, event_b}. ev_expire e \<le> 3} \<and> pending w' = {event_a, event_b} - set es \<and> wt_ticks t' = 3"
    using timer_update_fires_due [OF new_wheel_inv(1) sync fresh u] ticks
    by (simp add: new_wheel_timer_def new_wheel_inv)
  then show ?thesis using u by (auto simp: event_a_def event_b_def)
qed

text \<open>
  C23: A timer never fires early and is not held back.  Let \<^verbatim>\<open>timeout\<close> arm a fresh session with a
  delay at clock reading e0, the published tick not being ahead of the clock.  The next round, at clock reading e1, hands
  out an event of that session exactly if the deadline, rounded up to the next multiple of ten
  milliseconds, has been reached; in particular only if the full delay has passed.
\<close>

theorem timeout_fires_on_time:
  assumes inv: "wheel_inv w" and sync: "w_time w = wt_ticks t"
    and fresh: "arms_fresh (wt_ticks t) (wt_incoming (timer_timeout e0 handle session delay t)) (pending w)"
    and past: "10 * unat (wt_ticks t) \<le> e0" and range: "e0 + unat delay < 2 ^ 64" "e1 < 2 ^ 64" "e0 \<le> e1"
    and u: "timer_update e1 (timer_timeout e0 handle session delay t) w = (es, t', w')"
  shows "((handle, session) \<in> ev_key ` set es \<longleftrightarrow> (e0 + unat delay + 9) div 10 \<le> e1 div 10)
    \<and> ((handle, session) \<in> ev_key ` set es \<longrightarrow> e0 + unat delay \<le> e1)"
proof -
  define e where "e = \<lparr>ev_handle = handle, ev_session = session, ev_expire = div_ceil (saturating_add (millis e0) delay) 10\<rparr>"
  define P where "P = spec_commands (wt_ticks t) (wt_incoming t) (pending w)"
  let ?t = "timer_timeout e0 handle session delay t"
  have t: "wt_incoming ?t = wt_incoming t @ [Arm e]" "wt_ticks ?t = wt_ticks t"
    by (simp_all add: timer_timeout_def e_def)
  have key: "ev_key e = (handle, session)" by (simp add: e_def ev_key_def)
  have exp: "unat (ev_expire e) = (e0 + unat delay + 9) div 10"
    using timeout_expire [OF range(1)] by (simp add: e_def)
  have "unat (wt_ticks t) \<le> (e0 + unat delay + 9) div 10" using past by linarith
  then have cl: "clamped (wt_ticks t) e = e" by (intro clamped_id) (simp add: word_le_nat_alt exp)
  have new: "(handle, session) \<notin> ev_key ` P"
    using fresh key unfolding t arms_fresh_append by (simp add: P_def)
  have now: "unat (max (wt_ticks t) (millis e1 div 10)) = e1 div 10"
  proof -
    have "unat (millis e1 div 10) = e1 div 10" using range(2) by (simp add: unat_div_numeral unat_millis)
    moreover have "unat (wt_ticks t) \<le> e1 div 10" using past range(3) by linarith
    ultimately show ?thesis by (simp add: max_def word_le_nat_alt)
  qed
  have "set es = {x \<in> insert e P. ev_expire x \<le> max (wt_ticks t) (millis e1 div 10)}"
    using timer_update_ok(5) [OF inv _ _ u] sync fresh
    by (simp add: t spec_round_def Let_def spec_commands_append P_def cl)
  then have "(handle, session) \<in> ev_key ` set es \<longleftrightarrow> ev_expire e \<le> max (wt_ticks t) (millis e1 div 10)"
    using new key by force
  also have "\<dots> \<longleftrightarrow> (e0 + unat delay + 9) div 10 \<le> e1 div 10"
    by (simp only: word_le_nat_alt exp now)
  finally have iff: "(handle, session) \<in> ev_key ` set es \<longleftrightarrow> (e0 + unat delay + 9) div 10 \<le> e1 div 10" .
  have "e0 + unat delay \<le> e1" if "(e0 + unat delay + 9) div 10 \<le> e1 div 10" using that by linarith
  then show ?thesis using iff by blast
qed

theorem timeout_fires_on_time_witness:
  "\<exists>es t' w'. timer_update 25 (timer_timeout 3 7 1 15 (new_wheel_timer 0)) new_wheel = (es, t', w')
     \<and> (7, 1) \<in> ev_key ` set es"
proof -
  let ?t = "new_wheel_timer 0"
  obtain es t' w' where u: "timer_update 25 (timer_timeout 3 7 1 15 ?t) new_wheel = (es, t', w')" by (metis prod_cases3)
  have sync: "w_time new_wheel = wt_ticks ?t" "10 * unat (wt_ticks ?t) \<le> 3" "pending new_wheel = {}"
    by (simp_all add: new_wheel_timer_def new_wheel_inv)
  have fresh: "arms_fresh (wt_ticks ?t) (wt_incoming (timer_timeout 3 7 1 15 ?t)) (pending new_wheel)"
    by (simp add: timer_timeout_def sync(3)) (simp add: new_wheel_timer_def)
  have "(7, 1) \<in> ev_key ` set es" using timeout_fires_on_time [OF new_wheel_inv(1) sync(1) fresh sync(2) _ _ _ u] by simp
  then show ?thesis using u by blast
qed

end
