(* ===== verification/Bwos.thy ===== *)
theory Bwos
  imports Prelude "HOL-Library.Multiset"
begin

text \<open>
  The block-based work-stealing queue (\<^verbatim>\<open>rskynet-core/src/bwos.rs\<close>): a ring of blocks in which the
  owner works in one block and thieves in the blocks it has left behind.  Positions inside a block
  carry a generation in the upper 56 bits of a word.  The slots are options, so that reading a slot
  that holds no value, which would be undefined behaviour in the source, is an error of the model.
  The lemmas treat each operation as one step: the queue is a list, the owner works at its end, a
  thief takes its first element, the spinning loop ends, and no slot is read twice or uninitialised.
\<close>

section \<open>Blocks\<close>

definition SLOT_BITS :: nat where "SLOT_BITS = 8"
definition SLOT_MASK :: u64 where "SLOT_MASK = 255"
definition PREV_GEN_0 :: u64 where "PREV_GEN_0 = push_bit 56 1 - 1"
definition MAX_GENERATION :: u64 where "MAX_GENERATION = push_bit 56 1 - 1"
definition NUM_BLOCKS :: nat where "NUM_BLOCKS = 64"
definition BLOCK_SIZE :: nat where "BLOCK_SIZE = 16"

datatype pushed = Local | Granted

datatype 'a steal = Taken 'a | Empty | Conflict | DoneB

record 'a block =
  b_head :: u64
  b_tail :: u64
  b_steal_count :: u64
  b_steal_tail :: u64
  b_ring :: "'a option list"

definition block_size :: "'a block \<Rightarrow> u64" where
  "block_size b = of_nat (length (b_ring b))"

definition new_block :: "nat \<Rightarrow> 'a block" where
  "new_block bs =
     (let initial = push_bit SLOT_BITS PREV_GEN_0 OR of_nat bs
      in \<lparr>b_head = initial, b_tail = of_nat bs, b_steal_count = of_nat bs, b_steal_tail = initial,
          b_ring = replicate bs None\<rparr>)"

text \<open>Moving a value out of a slot leaves it uninitialised.\<close>

definition slot_read :: "nat \<Rightarrow> 'a block \<Rightarrow> ('a \<times> 'a block) outcome" where
  "slot_read i b =
     (case (if i < length (b_ring b) then b_ring b ! i else None) of
        Some v \<Rightarrow> Inr (v, b\<lparr>b_ring := (b_ring b)[i := None]\<rparr>)
      | None \<Rightarrow> Inl (Panic ''uninitialised slot''))"

definition block_put :: "'a \<Rightarrow> 'a block \<Rightarrow> 'a block option" where
  "block_put v b =
     (let back_pos = b_tail b in
      if back_pos < block_size b
      then Some (b\<lparr>b_ring := (b_ring b)[unat back_pos := Some v], b_tail := back_pos + 1\<rparr>)
      else None)"

definition block_get :: "'a block \<Rightarrow> ('a option \<times> 'a block) outcome" where
  "block_get b =
     (let back_pos = b_tail b in
      if back_pos = 0 then Inr (None, b)
      else if b_head b AND SLOT_MASK = back_pos then Inr (None, b)
      else (case slot_read (unat (back_pos - 1)) b of
              Inl p \<Rightarrow> Inl p
            | Inr (v, b') \<Rightarrow> Inr (Some v, b'\<lparr>b_tail := back_pos - 1\<rparr>)))"

definition block_steal :: "u64 \<Rightarrow> 'a block \<Rightarrow> ('a steal \<times> 'a block) outcome" where
  "block_steal thief_generation b =
     (let spos = b_steal_tail b; sidx = spos AND SLOT_MASK; generation = drop_bit SLOT_BITS spos in
      if generation \<noteq> thief_generation then Inr (Empty, b)
      else if sidx = block_size b then Inr (DoneB, b)
      else if sidx = b_tail b then Inr (Empty, b)
      else (case slot_read (unat sidx) (b\<lparr>b_steal_tail := spos + 1\<rparr>) of
              Inl p \<Rightarrow> Inl p
            | Inr (v, b') \<Rightarrow> Inr (Taken v, b'\<lparr>b_steal_count := b_steal_count b' + 1\<rparr>)))"

definition takeover :: "'a block \<Rightarrow> 'a block" where
  "takeover b = b\<lparr>b_steal_tail := b_head b, b_head := b_steal_tail b\<rparr>"

definition grant :: "'a block \<Rightarrow> 'a block" where
  "grant b = b\<lparr>b_head := b_steal_tail b, b_steal_tail := b_head b\<rparr>"

definition is_writable :: "u64 \<Rightarrow> 'a block \<Rightarrow> bool" where
  "is_writable generation b =
     (b_steal_tail b = (push_bit SLOT_BITS (generation - 1) OR block_size b))"

text \<open>
  \<^verbatim>\<open>reclaim\<close> spins until the thieves of the last generation have finished.  With nobody else
  running the counter does not change, so a counter that differs means that it spins for ever.
\<close>

definition reclaim :: "u64 \<Rightarrow> 'a block \<Rightarrow> 'a block option" where
  "reclaim generation b =
     (if b_steal_count b \<noteq> b_head b AND SLOT_MASK then None
      else (let expanded = push_bit SLOT_BITS generation
            in Some (b\<lparr>b_head := expanded, b_tail := 0, b_steal_tail := expanded OR block_size b, b_steal_count := 0\<rparr>)))"

definition reduce_generation :: "'a block \<Rightarrow> 'a block" where
  "reduce_generation b = b\<lparr>b_steal_tail := b_steal_tail b - push_bit SLOT_BITS 1\<rparr>"

text \<open>The values that dropping a block drops.\<close>

definition block_drop :: "'a block \<Rightarrow> 'a option list" where
  "block_drop b =
     (let head_idx = unat (b_head b AND SLOT_MASK); steal_idx = unat (b_steal_tail b AND SLOT_MASK);
          tail_idx = unat (b_tail b AND SLOT_MASK)
      in drop (min head_idx steal_idx) (take tail_idx (b_ring b)))"

section \<open>The queue\<close>

record 'a lifo_queue =
  q_last :: u64
  q_start :: u64
  q_blocks :: "'a block list"
  q_mask :: u64
  q_shift :: nat

definition update_block :: "nat \<Rightarrow> 'a block \<Rightarrow> 'a lifo_queue \<Rightarrow> 'a lifo_queue" where
  "update_block i b q = q\<lparr>q_blocks := (q_blocks q)[i := b]\<rparr>"

definition block_index :: "'a lifo_queue \<Rightarrow> u64 \<Rightarrow> nat" where
  "block_index q s = unat (s AND q_mask q)"

fun trailing_zeros :: "nat \<Rightarrow> nat" where
  "trailing_zeros n = (if n = 0 \<or> odd n then 0 else Suc (trailing_zeros (n div 2)))"

declare trailing_zeros.simps [simp del]

definition is_power_of_two :: "nat \<Rightarrow> bool" where
  "is_power_of_two n = (n = 2 ^ trailing_zeros n)"

text \<open>The inner option: the constructor reclaims the first block, which might spin.\<close>

definition new_queue :: "nat \<Rightarrow> nat \<Rightarrow> 'a lifo_queue outcome option" where
  "new_queue num_blocks bs =
     (if \<not> (2 \<le> num_blocks \<and> is_power_of_two num_blocks) then Some (Inl (Panic ''number of blocks''))
      else if \<not> 0 < bs then Some (Inl (Panic ''block size''))
      else if \<not> bs < 2 ^ SLOT_BITS then Some (Inl (Panic ''block size too large''))
      else (case reclaim 0 (new_block bs) of
              None \<Rightarrow> None
            | Some b0 \<Rightarrow>
                Some (Inr \<lparr>q_last = 0, q_start = 0, q_blocks = (replicate num_blocks (new_block bs))[0 := b0],
                     q_mask = of_nat (num_blocks - 1), q_shift = trailing_zeros num_blocks\<rparr>)))"

definition next_sequence :: "'a lifo_queue \<Rightarrow> u64 \<Rightarrow> u64 outcome" where
  "next_sequence q s =
     (case checked_add s 1 of
        None \<Rightarrow> Inl (Panic ''block sequence exhausted'')
      | Some n \<Rightarrow> if drop_bit (q_shift q) n \<le> MAX_GENERATION then Inr n else Inl (Panic ''generation overflow''))"

definition previous_sequence :: "u64 \<Rightarrow> u64 outcome" where
  "previous_sequence s = (if s = 0 then Inl (Panic ''block sequence below 0'') else Inr (s - 1))"

text \<open>\<^verbatim>\<open>None\<close>: the call does not return.  Otherwise the new position, if there is one.\<close>

definition advance_put_index :: "u64 \<Rightarrow> 'a lifo_queue \<Rightarrow> (u64 option \<times> 'a lifo_queue) outcome option" where
  "advance_put_index own q =
     (let owner_index = block_index q own in
      case next_sequence q own of
        Inl p \<Rightarrow> Some (Inl p)
      | Inr next_seq \<Rightarrow>
          (let next_index = block_index q next_seq in
           if next_index = owner_index then Some (Inr (None, q))
           else (let next_generation = drop_bit (q_shift q) next_seq; next_block = q_blocks q ! next_index in
             if \<not> is_writable next_generation next_block then Some (Inr (None, q))
             else (case (if next_index = block_index q (q_start q)
                         then (case next_sequence q (q_start q) of Inl p \<Rightarrow> Inl p | Inr s \<Rightarrow> Inr (q\<lparr>q_start := s\<rparr>))
                         else Inr q) of
                     Inl p \<Rightarrow> Some (Inl p)
                   | Inr q1 \<Rightarrow>
                       (let q2 = update_block owner_index (grant (q_blocks q1 ! owner_index)) q1 in
                        case reclaim next_generation (q_blocks q2 ! next_index) of
                          None \<Rightarrow> None
                        | Some b \<Rightarrow> Some (Inr (Some next_seq, (update_block next_index b q2)\<lparr>q_last := next_seq\<rparr>)))))))"

definition advance_get_index :: "u64 \<Rightarrow> 'a lifo_queue \<Rightarrow> (u64 option \<times> 'a lifo_queue) outcome" where
  "advance_get_index own q =
     (if q_start q = own then Inr (None, q)
      else (case previous_sequence own of
              Inl p \<Rightarrow> Inl p
            | Inr predecessor \<Rightarrow>
                (let q1 = update_block (block_index q own) (reduce_generation (q_blocks q ! block_index q own)) q;
                     q2 = update_block (block_index q predecessor) (takeover (q_blocks q1 ! block_index q predecessor)) q1
                 in Inr (Some predecessor, q2\<lparr>q_last := predecessor\<rparr>))))"

definition advance_steal_index :: "u64 \<Rightarrow> 'a lifo_queue \<Rightarrow> u64 option outcome" where
  "advance_steal_index thief q =
     (case next_sequence q thief of
        Inl p \<Rightarrow> Inl p
      | Inr t \<Rightarrow> Inr (if t < q_last q then Some t else None))"

partial_function (option) push_loop ::
  "'a \<Rightarrow> bool \<Rightarrow> u64 \<Rightarrow> 'a lifo_queue \<Rightarrow> (('a + pushed) \<times> 'a lifo_queue) outcome option" where
  "push_loop v granted own q =
     (let i = block_index q own in
      case block_put v (q_blocks q ! i) of
        Some b \<Rightarrow> Some (Inr (Inr (if granted then Granted else Local), update_block i b q))
      | None \<Rightarrow>
          Option.bind (advance_put_index own q) (\<lambda>r.
            case r of
              Inl p \<Rightarrow> Some (Inl p)
            | Inr (None, q') \<Rightarrow> Some (Inr (Inl v, q'))
            | Inr (Some own', q') \<Rightarrow> push_loop v True own' q'))"

definition push_back :: "'a \<Rightarrow> 'a lifo_queue \<Rightarrow> (('a + pushed) \<times> 'a lifo_queue) outcome option" where
  "push_back v q = push_loop v False (q_last q) q"

partial_function (option) pop_loop :: "u64 \<Rightarrow> 'a lifo_queue \<Rightarrow> ('a option \<times> 'a lifo_queue) outcome option" where
  "pop_loop own q =
     (case block_get (q_blocks q ! block_index q own) of
        Inl p \<Rightarrow> Some (Inl p)
      | Inr (Some v, b) \<Rightarrow> Some (Inr (Some v, update_block (block_index q own) b q))
      | Inr (None, b) \<Rightarrow>
          (case advance_get_index own q of
             Inl p \<Rightarrow> Some (Inl p)
           | Inr (None, q') \<Rightarrow> Some (Inr (None, q'))
           | Inr (Some own', q') \<Rightarrow> pop_loop own' q'))"

definition pop_back :: "'a lifo_queue \<Rightarrow> ('a option \<times> 'a lifo_queue) outcome option" where
  "pop_back q = pop_loop (q_last q) q"

partial_function (option) steal_loop :: "u64 \<Rightarrow> 'a lifo_queue \<Rightarrow> ('a option \<times> 'a lifo_queue) outcome option" where
  "steal_loop thief q =
     (case block_steal (drop_bit (q_shift q) thief) (q_blocks q ! block_index q thief) of
        Inl p \<Rightarrow> Some (Inl p)
      | Inr (Taken v, b) \<Rightarrow> Some (Inr (Some v, update_block (block_index q thief) b q))
      | Inr (Empty, b) \<Rightarrow> Some (Inr (None, q))
      | Inr (Conflict, b) \<Rightarrow> steal_loop thief q
      | Inr (DoneB, b) \<Rightarrow>
          (case advance_steal_index thief q of
             Inl p \<Rightarrow> Some (Inl p)
           | Inr None \<Rightarrow> Some (Inr (None, q))
           | Inr (Some t) \<Rightarrow> steal_loop t q))"

definition steal_front :: "'a lifo_queue \<Rightarrow> ('a option \<times> 'a lifo_queue) outcome option" where
  "steal_front q = steal_loop (q_start q) q"

section \<open>Positions\<close>

text \<open>A position: generation and slot.  The generation before the first one is represented by $-1$.\<close>

definition code :: "int \<Rightarrow> nat \<Rightarrow> u64" where
  "code g i = of_int (256 * g + int i)"

lemma uint_code: "uint (code g i) = (256 * g + int i) mod 18446744073709551616"
  by (simp only: code_def uint_word_of_int) simp

lemma unat_slot: "i < 256 \<Longrightarrow> unat (of_nat i :: u64) = i"
  by (rule unat_of_nat_less) simp

lemma code_slot: "i < 256 \<Longrightarrow> code g i AND SLOT_MASK = of_nat i"
proof -
  assume i: "i < 256"
  have "unat (code g i AND SLOT_MASK) = unat (code g i) mod 256"
    using unat_and_mask [of 8 "code g i"] by (simp add: SLOT_MASK_def)
  also have "\<dots> = nat (uint (code g i) mod 256)" by (simp add: nat_mod_distrib)
  also have "uint (code g i) mod 256 = int i" unfolding uint_code using i by (simp add: mod_mod_cancel)
  finally show ?thesis using unat_slot [OF i] unat_eq_iff by (metis nat_int)
qed

lemma code_gen:
  assumes i: "i < 256" and g: "0 \<le> g" "g < 2 ^ 56"
  shows "drop_bit SLOT_BITS (code g i) = of_int g"
proof -
  have "uint (code g i) = 256 * g + int i" unfolding uint_code using assms by simp
  moreover have "uint (drop_bit 8 (code g i)) = uint (code g i) div 256"
    by (simp add: drop_bit_eq_div uint_div_distrib)
  ultimately have "uint (drop_bit 8 (code g i)) = g" using i by simp
  then show ?thesis by (metis SLOT_BITS_def word_of_int_uint)
qed

lemma code_eq:
  assumes "i < 256" "j < 256" "- 1 \<le> g" "g < 2 ^ 56 - 1" "- 1 \<le> g'" "g' < 2 ^ 56 - 1"
  shows "code g i = code g' j \<longleftrightarrow> g = g' \<and> i = j"
proof
  assume eq: "code g i = code g' j"
  have ij: "i = j" using code_slot [of i g] code_slot [of j g'] eq assms(1,2) unat_slot by metis
  have "(256 * g + int i) mod 18446744073709551616 = (256 * g' + int i) mod 18446744073709551616"
    using eq ij by (simp flip: uint_code)
  then have "18446744073709551616 dvd (256 * g - 256 * g')" by (simp add: mod_eq_dvd_iff)
  then obtain c where "256 * g - 256 * g' = 18446744073709551616 * c" by (auto simp: dvd_def)
  then have "g - g' = 2 ^ 56 * c" by simp
  moreover have "\<bar>g - g'\<bar> < 2 ^ 56" using assms by (simp add: abs_if)
  ultimately have "c = 0" by (auto simp: abs_mult abs_if split: if_splits)
  then show "g = g' \<and> i = j" using \<open>g - g' = 2 ^ 56 * c\<close> ij by simp
qed simp

lemma code_or:
  assumes "i < 256"
  shows "push_bit SLOT_BITS (of_int g) OR of_nat i = code g i"
proof -
  have "(of_nat i :: u64) = take_bit 8 (of_nat i)" using assms by (simp add: take_bit_of_nat take_bit_nat_eq_self)
  then have "\<not> bit (push_bit 8 (of_int g) :: u64) n \<or> \<not> bit (of_nat i :: u64) n" for n
    by (metis bit_push_bit_iff bit_take_bit_iff not_le)
  then have "push_bit 8 (of_int g) OR of_nat i = push_bit 8 (of_int g) + (of_nat i :: u64)"
    by (simp only: disjunctive_add)
  also have "\<dots> = code g i" by (simp add: code_def push_bit_eq_mult)
  finally show ?thesis by (simp add: SLOT_BITS_def)
qed

lemma code_shift: "push_bit SLOT_BITS (of_int g) = code g 0"
  by (simp add: SLOT_BITS_def code_def push_bit_eq_mult)

lemma code_Suc: "code g i + 1 = code g (Suc i)"
  by (simp add: code_def)

lemma code_prev: "code g i - 2 ^ SLOT_BITS = code (g - 1) i"
  by (simp add: code_def SLOT_BITS_def algebra_simps)

lemma code_initial: "push_bit SLOT_BITS PREV_GEN_0 OR of_nat i = code (- 1) i" if "i < 256"
proof -
  have "push_bit SLOT_BITS PREV_GEN_0 = push_bit SLOT_BITS (of_int (- 1) :: u64)"
    by (simp add: PREV_GEN_0_def SLOT_BITS_def push_bit_eq_mult)
  then show ?thesis using code_or [OF that, of "- 1"] by simp
qed

section \<open>The three states of a block\<close>

text \<open>
  A block whose owner boundary is slot h of generation gh, whose write position is t, and whose
  thief boundary is slot k of generation st.  Its values are in the slots from the smaller boundary
  up to t, and nowhere else.
\<close>

definition block_is :: "nat \<Rightarrow> int \<Rightarrow> nat \<Rightarrow> nat \<Rightarrow> int \<Rightarrow> nat \<Rightarrow> 'a block \<Rightarrow> bool" where
  "block_is bs gh h t st k b =
     (length (b_ring b) = bs \<and> b_head b = code gh h \<and> b_tail b = of_nat t \<and> b_steal_tail b = code st k \<and>
      b_steal_count b = of_nat (min h k) \<and> h \<le> bs \<and> k \<le> bs \<and> t \<le> bs \<and> min h k \<le> t \<and>
      (\<forall>i < bs. (b_ring b ! i \<noteq> None) = (min h k \<le> i \<and> i < t)))"

definition active_block :: "nat \<Rightarrow> int \<Rightarrow> 'a block \<Rightarrow> bool" where
  "active_block bs g b = (\<exists>h t. block_is bs g h t g bs b)"

definition granted_block :: "nat \<Rightarrow> int \<Rightarrow> 'a block \<Rightarrow> bool" where
  "granted_block bs g b = (\<exists>k. block_is bs g bs bs g k b)"

definition free_block :: "nat \<Rightarrow> int \<Rightarrow> 'a block \<Rightarrow> bool" where
  "free_block bs g b = (\<exists>gh h. block_is bs gh h h (g - 1) bs b)"

definition live :: "'a block \<Rightarrow> 'a list" where
  "live b = map the (block_drop b)"

lemma block_dropped:
  assumes "block_is bs gh h t st k b" "bs < 256"
  shows "block_drop b = drop (min h k) (take t (b_ring b))"
proof -
  have "unat (of_nat t AND SLOT_MASK :: u64) = t"
    using assms unat_and_mask [of 8 "of_nat t :: u64"] unat_slot [of t] by (simp add: SLOT_MASK_def block_is_def)
  then show ?thesis
    using assms by (simp add: block_is_def block_drop_def Let_def code_slot unat_slot)
qed

lemma live_eq:
  assumes "block_is bs gh h t st k b" "bs < 256"
  shows "live b = map (\<lambda>i. the (b_ring b ! i)) [min h k..<t]"
proof -
  have "t \<le> length (b_ring b)" using assms by (simp add: block_is_def)
  then have "take t (b_ring b) = map (\<lambda>i. b_ring b ! i) [0..<t]" by (simp add: list_eq_iff_nth_eq)
  then show ?thesis by (simp add: live_def block_dropped [OF assms] drop_map)
qed

lemma drop_holds_values:
  assumes "block_is bs gh h t st k b" "bs < 256"
  shows "block_drop b = map Some (live b)"
proof -
  have "block_drop b = map (\<lambda>i. b_ring b ! i) [min h k..<t]"
  proof -
    have "t \<le> length (b_ring b)" using assms by (simp add: block_is_def)
    then have "take t (b_ring b) = map (\<lambda>i. b_ring b ! i) [0..<t]" by (simp add: list_eq_iff_nth_eq)
    then show ?thesis by (simp add: block_dropped [OF assms] drop_map)
  qed
  moreover have "b_ring b ! i = Some (the (b_ring b ! i))" if "i \<in> set [min h k..<t]" for i
  proof -
    have "i < bs" "b_ring b ! i \<noteq> None" using that assms(1) unfolding block_is_def by auto
    then show ?thesis by simp
  qed
  ultimately show ?thesis by (simp add: live_eq [OF assms])
qed

lemma block_put_room:
  assumes b: "block_is bs g h t g bs b" and bs: "bs < 256" and room: "t < bs"
  obtains b' where "block_put v b = Some b'" "block_is bs g h (Suc t) g bs b'" "live b' = live b @ [v]"
proof -
  define b' where "b' = b\<lparr>b_ring := (b_ring b)[t := Some v], b_tail := of_nat t + 1\<rparr>"
  have t: "unat (of_nat t :: u64) = t" using bs room by (simp add: unat_slot)
  have "of_nat t < (of_nat bs :: u64)" using bs room by (simp add: word_less_nat_alt unat_slot)
  then have put: "block_put v b = Some b'"
    using b t by (simp add: block_put_def block_size_def block_is_def b'_def)
  have isb: "block_is bs g h (Suc t) g bs b'"
    using b room by (auto simp: block_is_def b'_def nth_list_update)
  have "map (\<lambda>i. the (b_ring b' ! i)) [min h bs..<t] = map (\<lambda>i. the (b_ring b ! i)) [min h bs..<t]"
    by (simp add: b'_def)
  moreover have "the (b_ring b' ! t) = v" "min h bs \<le> t" using b room by (auto simp: b'_def block_is_def)
  ultimately have "live b' = live b @ [v]"
    unfolding live_eq [OF isb bs] live_eq [OF b bs] by simp
  then show ?thesis using that put isb by blast
qed

lemma block_put_full: "\<lbrakk>block_is bs g h bs g bs b; bs < 256\<rbrakk> \<Longrightarrow> block_put v b = None"
  by (simp add: block_put_def block_size_def block_is_def)

lemma block_get_empty: "\<lbrakk>block_is bs g h h g bs b; bs < 256\<rbrakk> \<Longrightarrow> block_get b = Inr (None, b)"
  by (simp add: block_get_def Let_def block_is_def code_slot)

lemma block_get_some:
  assumes b: "block_is bs g h (Suc t) g bs b" and bs: "bs < 256" and ne: "h \<le> t"
  obtains v b' where "block_get b = Inr (Some v, b')" "block_is bs g h t g bs b'" "live b = live b' @ [v]"
proof -
  have t: "unat (of_nat t :: u64) = t" "unat (1 + of_nat t :: u64) = Suc t"
    using bs b unat_slot [of t] unat_slot [of "Suc t"] by (simp_all add: block_is_def)
  have "h < 256" "h \<noteq> Suc t" using b bs ne by (auto simp: block_is_def)
  then have gh: "b_head b AND SLOT_MASK \<noteq> 1 + of_nat t" "(1 + of_nat t :: u64) \<noteq> 0"
    using b t unat_slot [of h] by (auto simp: block_is_def code_slot)
  obtain v where v: "b_ring b ! t = Some v" using b ne bs by (fastforce simp: block_is_def)
  define b' where "b' = b\<lparr>b_ring := (b_ring b)[t := None], b_tail := of_nat t\<rparr>"
  have get: "block_get b = Inr (Some v, b')"
    using b gh v t by (simp add: block_get_def Let_def slot_read_def block_is_def b'_def)
  have isb: "block_is bs g h t g bs b'" using b ne by (auto simp: block_is_def b'_def nth_list_update less_Suc_eq)
  have "map (\<lambda>i. the (b_ring b' ! i)) [min h bs..<t] = map (\<lambda>i. the (b_ring b ! i)) [min h bs..<t]"
    by (simp add: b'_def)
  then have "live b = live b' @ [v]"
    unfolding live_eq [OF isb bs] live_eq [OF b bs] using v ne by simp
  then show ?thesis using that get isb by blast
qed

lemma block_steal_some:
  assumes b: "block_is bs g bs bs g k b" and bs: "bs < 256" and k: "k < bs" and g: "0 \<le> g" "g < 2 ^ 56"
  obtains v b' where "block_steal (of_int g) b = Inr (Taken v, b')" "block_is bs g bs bs g (Suc k) b'" "live b = v # live b'"
proof -
  obtain v where v: "b_ring b ! k = Some v" using b k by (fastforce simp: block_is_def)
  define b' where "b' = b\<lparr>b_steal_tail := code g (Suc k), b_ring := (b_ring b)[k := None], b_steal_count := of_nat (Suc k)\<rparr>"
  have k': "unat (of_nat k :: u64) = k" "(of_nat k :: u64) \<noteq> of_nat bs"
    using bs k unat_slot [of k] unat_slot [of bs] by (force simp del: of_nat_eq_iff)+
  have st: "block_steal (of_int g) b = Inr (Taken v, b')"
    using b k bs v g k' code_gen [of k g]
    by (simp add: block_steal_def Let_def block_is_def code_slot block_size_def slot_read_def b'_def code_Suc min_def)
  have isb: "block_is bs g bs bs g (Suc k) b'"
    using b k min_absorb2 [of "Suc k" bs] min_absorb2 [of k bs]
    by (auto simp: block_is_def b'_def nth_list_update)
  have "map (\<lambda>i. the (b_ring b' ! i)) [Suc k..<bs] = map (\<lambda>i. the (b_ring b ! i)) [Suc k..<bs]"
    by (simp add: b'_def)
  moreover have "min bs k = k" "min bs (Suc k) = Suc k" "[k..<bs] = k # [Suc k..<bs]" using k by (simp_all add: upt_conv_Cons)
  ultimately have "live b = v # live b'"
    unfolding live_eq [OF isb bs] live_eq [OF b bs] using v k by simp
  then show ?thesis using that st isb by blast
qed

lemma block_steal_done:
  assumes "block_is bs gh h t g bs b" "bs < 256" "0 \<le> g" "g < 2 ^ 56"
  shows "block_steal (of_int g) b = Inr (DoneB, b)"
  using assms code_gen [of bs g] by (simp add: block_steal_def Let_def block_is_def code_slot block_size_def)

lemma takeover_block: "block_is bs g bs bs g k b \<Longrightarrow> block_is bs g k bs g bs (takeover b) \<and> b_ring (takeover b) = b_ring b"
  by (simp add: block_is_def takeover_def min.commute)

lemma grant_block: "block_is bs g h bs g bs b \<Longrightarrow> block_is bs g bs bs g h (grant b) \<and> b_ring (grant b) = b_ring b"
  by (simp add: block_is_def grant_def min.commute)

lemma live_swap:
  assumes "block_is bs g h bs g k b" "block_is bs g k bs g h b'" "b_ring b' = b_ring b" "bs < 256"
  shows "live b' = live b"
  using live_eq [OF assms(1,4)] live_eq [OF assms(2,4)] assms(3) by (simp add: min.commute)

lemma reduce_block: "block_is bs g h h g bs b \<Longrightarrow> block_is bs g h h (g - 1) bs (reduce_generation b)"
  by (simp add: block_is_def reduce_generation_def code_prev)

lemma is_writable_iff:
  assumes b: "block_is bs gh h t st k b" and "bs < 256" "- 1 \<le> st" "st < 2 ^ 56 - 1" "0 \<le> g" "g < 2 ^ 56"
  shows "is_writable (of_int g) b \<longleftrightarrow> st = g - 1 \<and> k = bs"
proof -
  have "push_bit SLOT_BITS (of_int g - 1) OR of_nat bs = code (g - 1) bs"
    using code_or [OF assms(2), of "g - 1"] by simp
  then show ?thesis
    using assms code_eq [of k bs st "g - 1"] by (simp add: is_writable_def block_size_def block_is_def)
qed

lemma reclaim_block:
  assumes b: "block_is bs gh h t st bs b" and bs: "bs < 256" and e: "h = t"
  obtains b' where "reclaim (of_int g) b = Some b'" "block_is bs g 0 0 g bs b'" "live b' = []"
proof -
  define b' where "b' = b\<lparr>b_head := code g 0, b_tail := 0, b_steal_tail := code g bs, b_steal_count := 0\<rparr>"
  have r: "reclaim (of_int g) b = Some b'"
    using b bs e code_or [OF bs, of g]
    by (simp add: reclaim_def block_is_def code_slot Let_def code_shift b'_def block_size_def min_def)
  have isb: "block_is bs g 0 0 g bs b'" using b e by (auto simp: block_is_def b'_def)
  then show ?thesis using that [OF r isb] live_eq [OF isb bs] by simp
qed

section \<open>The ring of blocks\<close>

definition blk :: "'a lifo_queue \<Rightarrow> nat \<Rightarrow> 'a block" where
  "blk q s = q_blocks q ! (s mod length (q_blocks q))"

definition queue_inv :: "nat \<Rightarrow> 'a lifo_queue \<Rightarrow> bool" where [inv_defs]:
  "queue_inv bs q =
     (let n = length (q_blocks q); start = unat (q_start q); last = unat (q_last q) in
      n = 2 ^ q_shift q \<and> 1 \<le> q_shift q \<and> q_shift q < 64 \<and> q_mask q = of_nat (n - 1) \<and> 0 < bs \<and> bs < 256 \<and>
      start \<le> last \<and> last < start + n \<and> last div n < 2 ^ 56 \<and>
      (\<forall>s. start \<le> s \<and> s < last \<longrightarrow> granted_block bs (int (s div n)) (blk q s)) \<and>
      active_block bs (int (last div n)) (blk q last) \<and>
      (\<forall>s. last < s \<and> s < start + n \<longrightarrow> free_block bs (int (s div n)) (blk q s)))"

text \<open>What thieves can reach, and the whole content, oldest value first.\<close>

definition exposed :: "'a lifo_queue \<Rightarrow> 'a list" where
  "exposed q = concat (map (\<lambda>s. live (blk q s)) [unat (q_start q)..<unat (q_last q)])"

definition contents :: "'a lifo_queue \<Rightarrow> 'a list" where
  "contents q = exposed q @ live (blk q (unat (q_last q)))"

text \<open>The block sequence and the generation have not run out.\<close>

definition sequences_left :: "'a lifo_queue \<Rightarrow> bool" where
  "sequences_left q =
     (Suc (unat (q_last q)) < 2 ^ 64 \<and> Suc (unat (q_last q)) div length (q_blocks q) < 2 ^ 56)"

lemma queue_invD:
  assumes "queue_inv bs q"
  shows "length (q_blocks q) = 2 ^ q_shift q" "1 \<le> q_shift q" "q_shift q < 64" "q_mask q = of_nat (length (q_blocks q) - 1)"
    "0 < bs" "bs < 256" "unat (q_start q) \<le> unat (q_last q)" "unat (q_last q) < unat (q_start q) + length (q_blocks q)"
    "unat (q_last q) div length (q_blocks q) < 2 ^ 56"
    "\<And>s. \<lbrakk>unat (q_start q) \<le> s; s < unat (q_last q)\<rbrakk> \<Longrightarrow> granted_block bs (int (s div length (q_blocks q))) (blk q s)"
    "active_block bs (int (unat (q_last q) div length (q_blocks q))) (blk q (unat (q_last q)))"
    "\<And>s. \<lbrakk>unat (q_last q) < s; s < unat (q_start q) + length (q_blocks q)\<rbrakk> \<Longrightarrow>
      free_block bs (int (s div length (q_blocks q))) (blk q s)"
  using assms unfolding queue_inv_def Let_def by blast+

lemma queue_invI:
  assumes "length (q_blocks q) = 2 ^ q_shift q" "1 \<le> q_shift q" "q_shift q < 64" "q_mask q = of_nat (length (q_blocks q) - 1)"
    "0 < bs" "bs < 256" "unat (q_start q) \<le> unat (q_last q)" "unat (q_last q) < unat (q_start q) + length (q_blocks q)"
    "unat (q_last q) div length (q_blocks q) < 2 ^ 56"
    "\<And>s. \<lbrakk>unat (q_start q) \<le> s; s < unat (q_last q)\<rbrakk> \<Longrightarrow> granted_block bs (int (s div length (q_blocks q))) (blk q s)"
    "active_block bs (int (unat (q_last q) div length (q_blocks q))) (blk q (unat (q_last q)))"
    "\<And>s. \<lbrakk>unat (q_last q) < s; s < unat (q_start q) + length (q_blocks q)\<rbrakk> \<Longrightarrow>
      free_block bs (int (s div length (q_blocks q))) (blk q s)"
  shows "queue_inv bs q"
  using assms unfolding queue_inv_def Let_def by blast

lemma two_blocks:
  assumes "queue_inv bs q"
  shows "2 \<le> length (q_blocks q)" "q_blocks q \<noteq> []" "(s + length (q_blocks q)) div length (q_blocks q) = Suc (s div length (q_blocks q))"
proof -
  show n: "2 \<le> length (q_blocks q)"
    using queue_invD(1,2) [OF assms] power_increasing [of 1 "q_shift q" "2 :: nat"] by simp
  then show "q_blocks q \<noteq> []" by auto
  then show "(s + length (q_blocks q)) div length (q_blocks q) = Suc (s div length (q_blocks q))"
    using div_add_self2 [of "length (q_blocks q)" s] by simp
qed

lemma block_index_eq:
  assumes "queue_inv bs q"
  shows "block_index q w = unat w mod length (q_blocks q)"
proof -
  note i = queue_invD [OF assms]
  have "q_mask q = of_nat (2 ^ q_shift q) - 1" using i(1,4) by (simp add: of_nat_diff)
  then show ?thesis using unat_and_mask [OF _, of "q_shift q" w] i(1,3) by (simp add: block_index_def)
qed

lemma generation_eq: "queue_inv bs q \<Longrightarrow> drop_bit (q_shift q) w = of_int (int (unat w div length (q_blocks q)))"
  for w :: u64
proof -
  assume "queue_inv bs q"
  note i = queue_invD [OF this]
  have "unat (drop_bit (q_shift q) w) = unat w div length (q_blocks q)"
    unfolding i(1) by (rule trans [OF unat_drop_bit_eq]) (simp add: drop_bit_eq_div)
  then have "(of_nat (unat w div length (q_blocks q)) :: u64) = drop_bit (q_shift q) w" by (metis unat_eq_iff unat_of_nat_less unsigned_less)
  then show ?thesis by simp
qed

lemma window_inj:
  assumes "a \<le> s" "s < a + n" "a \<le> s'" "s' < a + n"
  shows "s mod n = s' mod n \<longleftrightarrow> s = (s' :: nat)"
proof
  assume eq: "s mod n = s' mod n"
  have "n dvd s - s'" "n dvd s' - s" using mod_eq_dvd_iff_nat eq by (metis linear diff_is_0_eq dvd_0_right)+
  moreover have "s - s' < n" "s' - s < n" using assms by linarith+
  ultimately have "s - s' = 0" "s' - s = 0" by (meson nat_dvd_not_less not_gr0)+
  then show "s = s'" by simp
qed simp

lemma blk_update:
  "0 < length (q_blocks q) \<Longrightarrow>
   blk (update_block (s mod length (q_blocks q)) b q) s' =
     (if s mod length (q_blocks q) = s' mod length (q_blocks q) then b else blk q s')"
  by (auto simp: blk_def update_block_def nth_list_update)

lemma update_block_frame [simp]:
  "q_start (update_block i b q) = q_start q" "q_last (update_block i b q) = q_last q"
  "q_mask (update_block i b q) = q_mask q" "q_shift (update_block i b q) = q_shift q"
  "length (q_blocks (update_block i b q)) = length (q_blocks q)"
  by (simp_all add: update_block_def)

lemma next_sequence_ok:
  assumes inv: "queue_inv bs q" and "Suc (unat w) < 2 ^ 64" "Suc (unat w) div length (q_blocks q) < 2 ^ 56"
  shows "next_sequence q w = Inr (w + 1)" "unat (w + 1) = Suc (unat w)"
proof -
  have w: "w \<noteq> - 1" using assms(2) by auto
  show un: "unat (w + 1) = Suc (unat w)" by (rule unat_succ [OF w])
  have "unat (drop_bit (q_shift q) (w + 1)) = Suc (unat w) div length (q_blocks q)"
    unfolding queue_invD(1) [OF inv] un [symmetric] by (rule trans [OF unat_drop_bit_eq]) (simp add: drop_bit_eq_div)
  moreover have "unat MAX_GENERATION = 2 ^ 56 - 1" by (simp add: MAX_GENERATION_def)
  ultimately have "drop_bit (q_shift q) (w + 1) \<le> MAX_GENERATION" using assms(3) by (simp add: word_le_nat_alt)
  moreover have "checked_add w 1 = Some (w + 1)" using assms(2) by (simp add: checked_add_Some)
  ultimately show "next_sequence q w = Inr (w + 1)" by (simp add: next_sequence_def)
qed

section \<open>Owner operations\<close>

text \<open>A change of the blocks of the window: what the blocks are afterwards determines the content.\<close>

lemma exposed_cong:
  assumes "q_start q' = q_start q" "unat (q_last q') = m" "\<And>s. \<lbrakk>unat (q_start q) \<le> s; s < m\<rbrakk> \<Longrightarrow> live (blk q' s) = live (blk q s)"
  shows "exposed q' = concat (map (\<lambda>s. live (blk q s)) [unat (q_start q)..<m])"
  unfolding exposed_def assms(1,2) by (intro arg_cong [where f = concat] map_cong) (simp_all add: assms(3))

lemma update_last:
  assumes inv: "queue_inv bs q" and b: "active_block bs (int (unat (q_last q) div length (q_blocks q))) b"
  defines "q' \<equiv> update_block (block_index q (q_last q)) b q"
  shows "queue_inv bs q'" "contents q' = exposed q @ live b" "exposed q' = exposed q" "sequences_left q' = sequences_left q"
proof -
  note i = queue_invD [OF inv]
  have n: "0 < length (q_blocks q)" using i(1) by simp
  have q': "q' = update_block (unat (q_last q) mod length (q_blocks q)) b q"
    by (simp add: q'_def block_index_eq [OF inv])
  have bl: "blk q' s = (if s = unat (q_last q) then b else blk q s)"
    if "unat (q_start q) \<le> s" "s < unat (q_start q) + length (q_blocks q)" for s
    using that window_inj [OF i(7,8) that] by (auto simp: q' blk_update [OF n])
  show "queue_inv bs q'"
    by (rule queue_invI) (use i b bl in \<open>simp_all add: q'\<close>)
  show ex: "exposed q' = exposed q"
    using i(7,8) bl by (subst exposed_cong [of q' q "unat (q_last q)"]) (simp_all add: q' exposed_def)
  show "contents q' = exposed q @ live b" using ex bl [OF i(7,8)] by (simp add: contents_def q')
  show "sequences_left q' = sequences_left q" by (simp add: sequences_left_def q')
qed

lemma advance_blocked:
  assumes inv: "queue_inv bs q" and room: "sequences_left q"
    and full: "Suc (unat (q_last q)) = unat (q_start q) + length (q_blocks q)" and ne: "live (blk q (unat (q_start q))) \<noteq> []"
  shows "advance_put_index (q_last q) q = Some (Inr (None, q))"
proof -
  note i = queue_invD [OF inv]
  let ?n = "length (q_blocks q)" and ?S = "unat (q_start q)" and ?L = "unat (q_last q)"
  note n2 = two_blocks [OF inv]
  have nx: "next_sequence q (q_last q) = Inr (q_last q + 1)" "unat (q_last q + 1) = Suc ?L"
    using next_sequence_ok [OF inv, of "q_last q"] room by (simp_all add: sequences_left_def)
  have idx: "block_index q (q_last q + 1) = ?S mod ?n" "block_index q (q_last q) = ?L mod ?n"
    by (simp_all add: block_index_eq [OF inv] nx(2) full)
  have "granted_block bs (int (?S div ?n)) (blk q ?S)" using i(10) [of ?S] n2 full by simp
  then obtain k where k: "block_is bs (int (?S div ?n)) bs bs (int (?S div ?n)) k (blk q ?S)" by (auto simp: granted_block_def)
  have "k \<noteq> bs" using ne live_eq [OF k i(6)] by auto
  moreover have gen: "Suc ?L div ?n = Suc (?S div ?n)" using n2 by (simp add: full)
  moreover have "Suc ?L div ?n < 2 ^ 56" using room by (simp add: sequences_left_def)
  ultimately have "\<not> is_writable (of_int (int (Suc ?L div ?n))) (blk q ?S)"
    using is_writable_iff [OF k i(6), of "int (Suc ?L div ?n)"] by simp
  then have "\<not> is_writable (drop_bit (q_shift q) (q_last q + 1)) (q_blocks q ! (?S mod ?n))"
    by (simp add: generation_eq [OF inv] nx(2) blk_def)
  then show ?thesis by (simp add: advance_put_index_def nx(1) idx Let_def)
qed

text \<open>
  Otherwise the next block is free, or it is the oldest one and has been emptied by thieves: the owner
  moves on, the block it leaves is exposed, and the new one is empty.
\<close>

lemma next_block_reusable:
  assumes inv: "queue_inv bs q" and room: "sequences_left q"
    and ok: "Suc (unat (q_last q)) = unat (q_start q) + length (q_blocks q) \<longrightarrow> live (blk q (unat (q_start q))) = []"
  obtains gh h where
    "block_is bs gh h h (int (Suc (unat (q_last q)) div length (q_blocks q)) - 1) bs (blk q (Suc (unat (q_last q))))"
proof -
  note i = queue_invD [OF inv]
  let ?n = "length (q_blocks q)" and ?S = "unat (q_start q)" and ?L = "unat (q_last q)"
  note n2 = two_blocks [OF inv]
  show ?thesis
  proof (cases "Suc ?L = ?S + ?n")
    case True
    have "granted_block bs (int (?S div ?n)) (blk q ?S)" using i(10) [of ?S] n2 True by simp
    then obtain k where k: "block_is bs (int (?S div ?n)) bs bs (int (?S div ?n)) k (blk q ?S)" by (auto simp: granted_block_def)
    have "k = bs" using ok True live_eq [OF k i(6)] k by (auto simp: block_is_def)
    moreover have "blk q (Suc ?L) = blk q ?S" "int (Suc ?L div ?n) - 1 = int (?S div ?n)" using n2 by (auto simp: True blk_def)
    ultimately show ?thesis using that k by metis
  next
    case False
    then have "free_block bs (int (Suc ?L div ?n)) (blk q (Suc ?L))" using i(8,12) by simp
    then show ?thesis using that by (auto simp: free_block_def)
  qed
qed

lemma advance_ok:
  assumes inv: "queue_inv bs q" and room: "sequences_left q"
    and ok: "Suc (unat (q_last q)) = unat (q_start q) + length (q_blocks q) \<longrightarrow> live (blk q (unat (q_start q))) = []"
    and full: "block_is bs (int (unat (q_last q) div length (q_blocks q))) h bs (int (unat (q_last q) div length (q_blocks q))) bs (blk q (unat (q_last q)))"
  obtains q' b where "advance_put_index (q_last q) q = Some (Inr (Some (q_last q'), q'))" "queue_inv bs q'"
    "contents q' = contents q" "exposed q' = contents q" "length (q_blocks q') = length (q_blocks q)"
    "block_is bs (int (unat (q_last q') div length (q_blocks q'))) 0 0 (int (unat (q_last q') div length (q_blocks q'))) bs (blk q' (unat (q_last q')))"
proof -
  note i = queue_invD [OF inv]
  let ?n = "length (q_blocks q)" and ?S = "unat (q_start q)" and ?L = "unat (q_last q)"
  define S' where "S' = (if Suc ?L = ?S + ?n then Suc ?S else ?S)"
  note n2 = two_blocks [OF inv]
  have nx: "next_sequence q (q_last q) = Inr (q_last q + 1)" "unat (q_last q + 1) = Suc ?L"
    using next_sequence_ok [OF inv, of "q_last q"] room by (simp_all add: sequences_left_def)
  have "Suc ?S \<le> Suc ?L" using i(7) by simp
  then have "Suc ?S < 2 ^ 64" "Suc ?S div ?n < 2 ^ 56"
    using room unfolding sequences_left_def by (meson div_le_mono le_less_trans)+
  note nxS = next_sequence_ok [OF inv this]
  obtain gh hh where nb: "block_is bs gh hh hh (int (Suc ?L div ?n) - 1) bs (blk q (Suc ?L))"
    by (rule next_block_reusable [OF inv room ok])
  have idx: "block_index q (q_last q + 1) = Suc ?L mod ?n" "block_index q (q_last q) = ?L mod ?n" "block_index q (q_start q) = ?S mod ?n"
    by (simp_all add: block_index_eq [OF inv] nx(2))
  have neq: "Suc ?L mod ?n \<noteq> ?L mod ?n" using window_inj [of ?L "Suc ?L" ?n ?L] n2 by simp
  have st_iff: "Suc ?L mod ?n = ?S mod ?n \<longleftrightarrow> Suc ?L = ?S + ?n"
  proof (cases "Suc ?L = ?S + ?n")
    case False
    then show ?thesis using window_inj [of ?S "Suc ?L" ?n ?S] i(7,8) n2 by simp
  qed simp
  have wr: "is_writable (drop_bit (q_shift q) (q_last q + 1)) (blk q (Suc ?L))"
    using is_writable_iff [OF nb i(6), of "int (Suc ?L div ?n)"] room
    by (simp add: generation_eq [OF inv] nx(2) sequences_left_def)
  obtain nb' where nb': "reclaim (drop_bit (q_shift q) (q_last q + 1)) (blk q (Suc ?L)) = Some nb'"
    "block_is bs (int (Suc ?L div ?n)) 0 0 (int (Suc ?L div ?n)) bs nb'" "live nb' = []"
    using reclaim_block [OF nb i(6) refl, of "int (Suc ?L div ?n)"] by (metis generation_eq [OF inv] nx(2))
  define q1 where "q1 = (if Suc ?L = ?S + ?n then q\<lparr>q_start := q_start q + 1\<rparr> else q)"
  define q2 where "q2 = update_block (?L mod ?n) (grant (blk q ?L)) q1"
  define q' where "q' = (update_block (Suc ?L mod ?n) nb' q2)\<lparr>q_last := q_last q + 1\<rparr>"
  have q1: "q_blocks q1 = q_blocks q" "unat (q_start q1) = S'" "q_mask q1 = q_mask q" "q_shift q1 = q_shift q"
    by (simp_all add: q1_def S'_def nxS(2))
  have adv: "advance_put_index (q_last q) q = Some (Inr (Some (q_last q'), q'))"
    using wr nb'(1) neq st_iff
    by (auto simp: advance_put_index_def nx(1) idx Let_def nxS(1) blk_def [symmetric] q1_def q2_def q'_def update_block_def)
      (simp_all add: blk_def update_block_def)
  have win: "S' \<le> ?L" "Suc ?L < S' + ?n" using i(7,8) n2(1) by (auto simp: S'_def)
  have bl: "blk q' s = (if s = Suc ?L then nb' else if s = ?L then grant (blk q ?L) else blk q s)"
    if s: "S' \<le> s" "s < S' + ?n" for s
  proof -
    have "Suc ?L mod ?n = s mod ?n \<longleftrightarrow> Suc ?L = s" "?L mod ?n = s mod ?n \<longleftrightarrow> ?L = s"
      using window_inj [of S' "Suc ?L" ?n s] window_inj [of S' ?L ?n s] win s by simp_all
    then show ?thesis
      using n2(2) blk_update [of q1 ?L "grant (blk q ?L)" s] blk_update [of q2 "Suc ?L" nb' s] q1(1)
      by (auto simp: q'_def q2_def blk_def)
  qed
  have fr: "unat (q_start q') = S'" "unat (q_last q') = Suc ?L" "length (q_blocks q') = ?n" "q_mask q' = q_mask q" "q_shift q' = q_shift q"
    using q1 by (simp_all add: q'_def q2_def nx(2))
  have gr: "block_is bs (int (?L div ?n)) bs bs (int (?L div ?n)) h (grant (blk q ?L))" "live (grant (blk q ?L)) = live (blk q ?L)"
    using grant_block [OF full] live_swap [OF full _ _ i(6)] by blast+
  have old: "?S \<le> S'" by (simp add: S'_def)
  have inv': "queue_inv bs q'"
  proof (rule queue_invI, unfold fr)
    fix s assume "S' \<le> s" "s < Suc ?L"
    then show "granted_block bs (int (s div ?n)) (blk q' s)"
      using bl [of s] win i(10) [of s] gr(1) old by (auto simp: granted_block_def less_Suc_eq)
  next
    show "active_block bs (int (Suc ?L div ?n)) (blk q' (Suc ?L))"
      using bl [of "Suc ?L"] win nb'(2) by (auto simp: active_block_def)
  next
    fix s assume "Suc ?L < s" "s < S' + ?n"
    then show "free_block bs (int (s div ?n)) (blk q' s)"
      using bl [of s] win i(12) [of s] by (auto simp: S'_def split: if_splits)
  qed (use i room win in \<open>simp_all add: sequences_left_def\<close>)
  have "exposed q' = concat (map (\<lambda>s. live (blk q s)) [S'..<Suc ?L])"
    unfolding exposed_def fr
    by (intro arg_cong [where f = concat] map_cong) (use bl win gr(2) in auto)
  also have "\<dots> = contents q"
    using win ok i(7) by (auto simp: contents_def exposed_def S'_def upt_conv_Cons split: if_splits)
  finally have ex: "exposed q' = contents q" .
  have last: "blk q' (Suc ?L) = nb'" using bl [of "Suc ?L"] win by simp
  then have "contents q' = contents q" using nb'(3) by (simp add: contents_def [of q'] fr(2) ex)
  moreover have "block_is bs (int (unat (q_last q') div length (q_blocks q'))) 0 0 (int (unat (q_last q') div length (q_blocks q'))) bs (blk q' (unat (q_last q')))"
    unfolding fr last by (rule nb'(2))
  ultimately show ?thesis using that [OF adv inv' _ ex fr(3)] by blast
qed

text \<open>The queue refuses a value only when its ring is used up by blocks that thieves have not emptied.\<close>

definition ring_full :: "nat \<Rightarrow> 'a lifo_queue \<Rightarrow> bool" where
  "ring_full bs q =
     (Suc (unat (q_last q)) = unat (q_start q) + length (q_blocks q) \<and> live (blk q (unat (q_start q))) \<noteq> [] \<and>
      b_tail (blk q (unat (q_last q))) = of_nat bs)"

lemma current_block: "queue_inv bs q \<Longrightarrow> q_blocks q ! block_index q (q_last q) = blk q (unat (q_last q))"
  by (simp add: block_index_eq blk_def)

lemma tail_full: "block_is bs gh h t st k b \<Longrightarrow> bs < 256 \<Longrightarrow> b_tail b = of_nat bs \<longleftrightarrow> t = bs"
proof -
  assume b: "block_is bs gh h t st k b" "bs < 256"
  then have "unat (of_nat t :: u64) = t" "unat (of_nat bs :: u64) = bs" by (auto simp: block_is_def unat_slot)
  then show ?thesis using b(1) by (metis block_is_def)
qed

lemma push_loop_room:
  assumes inv: "queue_inv bs q" and b: "block_is bs (int (unat (q_last q) div length (q_blocks q))) h t (int (unat (q_last q) div length (q_blocks q))) bs (blk q (unat (q_last q)))"
    and t: "t < bs"
  obtains q' where "push_loop v g (q_last q) q = Some (Inr (Inr (if g then Granted else Local), q'))" "queue_inv bs q'"
    "contents q' = contents q @ [v]" "exposed q' = exposed q" "length (q_blocks q') = length (q_blocks q)"
proof -
  obtain b' where b': "block_put v (blk q (unat (q_last q))) = Some b'"
    "block_is bs (int (unat (q_last q) div length (q_blocks q))) h (Suc t) (int (unat (q_last q) div length (q_blocks q))) bs b'"
    "live b' = live (blk q (unat (q_last q))) @ [v]"
    using block_put_room [OF b queue_invD(6) [OF inv] t] by metis
  have "push_loop v g (q_last q) q = Some (Inr (Inr (if g then Granted else Local), update_block (block_index q (q_last q)) b' q))"
    by (subst push_loop.simps) (simp add: current_block [OF inv] b'(1))
  then show ?thesis
    using that update_last [OF inv, of b'] b'(2,3) by (auto simp: active_block_def contents_def [of q])
qed

lemma push_back_ok:
  assumes inv: "queue_inv bs q" and room: "sequences_left q"
  obtains (full) "ring_full bs q" "push_back v q = Some (Inr (Inl v, q))"
  | (pushed) r q' where "\<not> ring_full bs q" "push_back v q = Some (Inr (Inr r, q'))" "queue_inv bs q'"
      "contents q' = contents q @ [v]" "exposed q' = (case r of Local \<Rightarrow> exposed q | Granted \<Rightarrow> contents q)"
      "length (q_blocks q') = length (q_blocks q)"
proof -
  note i = queue_invD [OF inv]
  obtain h t where b: "block_is bs (int (unat (q_last q) div length (q_blocks q))) h t (int (unat (q_last q) div length (q_blocks q))) bs (blk q (unat (q_last q)))"
    using i(11) by (auto simp: active_block_def)
  show ?thesis
  proof (cases "t < bs")
    case True
    then show ?thesis
      using push_loop_room [OF inv b True, of v False] pushed [of Local] tail_full [OF b i(6)]
      by (auto simp: push_back_def ring_full_def)
  next
    case False
    then have t: "t = bs" using b by (simp add: block_is_def)
    note put = block_put_full [OF b [unfolded t] i(6), of v]
    show ?thesis
    proof (cases "ring_full bs q")
      case True
      then have "push_back v q = Some (Inr (Inl v, q))"
        using advance_blocked [OF inv room]
        by (simp add: push_back_def ring_full_def) (subst push_loop.simps, simp add: current_block [OF inv] put)
      then show ?thesis using True full by blast
    next
      case nf: False
      obtain q1 where q1: "advance_put_index (q_last q) q = Some (Inr (Some (q_last q1), q1))" "queue_inv bs q1"
        "contents q1 = contents q" "exposed q1 = contents q" "length (q_blocks q1) = length (q_blocks q)"
        "block_is bs (int (unat (q_last q1) div length (q_blocks q1))) 0 0 (int (unat (q_last q1) div length (q_blocks q1))) bs (blk q1 (unat (q_last q1)))"
        using advance_ok [OF inv room _ b [unfolded t]] nf tail_full [OF b i(6)] t unfolding ring_full_def by metis
      obtain q' where q': "push_loop v True (q_last q1) q1 = Some (Inr (Inr Granted, q'))" "queue_inv bs q'"
        "contents q' = contents q1 @ [v]" "exposed q' = exposed q1" "length (q_blocks q') = length (q_blocks q1)"
        using push_loop_room [OF q1(2,6) i(5), of v True] by auto
      have "push_back v q = Some (Inr (Inr Granted, q'))"
        unfolding push_back_def by (subst push_loop.simps) (simp add: current_block [OF inv] put q1(1) q'(1))
      then show ?thesis using pushed [of Granted q'] nf q'(2-5) q1(3-5) by simp
    qed
  qed
qed

lemma retreat_ok:
  assumes inv: "queue_inv bs q" and ne: "q_start q \<noteq> q_last q"
    and empty: "block_is bs (int (unat (q_last q) div length (q_blocks q))) h h (int (unat (q_last q) div length (q_blocks q))) bs (blk q (unat (q_last q)))"
  obtains q' where "advance_get_index (q_last q) q = Inr (Some (q_last q'), q')" "queue_inv bs q'" "contents q' = contents q"
    "unat (q_last q) = Suc (unat (q_last q'))" "q_start q' = q_start q" "length (q_blocks q') = length (q_blocks q)"
proof -
  note i = queue_invD [OF inv] and n2 = two_blocks [OF inv]
  let ?n = "length (q_blocks q)" and ?S = "unat (q_start q)" and ?L = "unat (q_last q)"
  have lt: "?S < ?L" using i(7) ne unat_eq_iff [of "q_start q" "q_last q"] by linarith
  define P where "P = ?L - 1"
  have P: "?L = Suc P" "?S \<le> P" "unat (q_last q - 1) = P" "q_last q \<noteq> 0"
    using lt unat_minus_one [of "q_last q"] unat_eq_zero [of "q_last q"] by (auto simp: P_def)
  obtain k where k: "block_is bs (int (P div ?n)) bs bs (int (P div ?n)) k (blk q P)"
    using i(10) [of P] P by (auto simp: granted_block_def)
  define q1 where "q1 = update_block (?L mod ?n) (reduce_generation (blk q ?L)) q"
  define q2 where "q2 = update_block (P mod ?n) (takeover (blk q1 P)) q1"
  define q' where "q' = q2\<lparr>q_last := q_last q - 1\<rparr>"
  have win: "P < ?S + ?n" "?L < ?S + ?n" using i(8) P by simp_all
  have b1: "blk q1 P = blk q P"
    using window_inj [of ?S ?L ?n P] P win n2(2) by (simp add: q1_def blk_update)
  have adv: "advance_get_index (q_last q) q = Inr (Some (q_last q'), q')"
    using ne P(4) by (simp add: advance_get_index_def previous_sequence_def Let_def block_index_eq [OF inv] P(3) q'_def q2_def q1_def blk_def)
  have bl: "blk q' s = (if s = P then takeover (blk q P) else if s = ?L then reduce_generation (blk q ?L) else blk q s)"
    if s: "?S \<le> s" "s < ?S + ?n" for s
  proof -
    have "P mod ?n = s mod ?n \<longleftrightarrow> P = s" "?L mod ?n = s mod ?n \<longleftrightarrow> ?L = s"
      using window_inj [of ?S P ?n s] window_inj [of ?S ?L ?n s] P win s by simp_all
    then show ?thesis
      using n2(2) blk_update [of q ?L "reduce_generation (blk q ?L)" s] blk_update [of q1 P "takeover (blk q1 P)" s] b1
      by (auto simp: q'_def q2_def q1_def blk_def)
  qed
  have fr: "q_start q' = q_start q" "unat (q_last q') = P" "length (q_blocks q') = ?n" "q_mask q' = q_mask q" "q_shift q' = q_shift q"
    using P(3) by (simp_all add: q'_def q2_def q1_def)
  note tk = takeover_block [OF k]
  have lv: "live (takeover (blk q P)) = live (blk q P)" using live_swap [OF k conjunct1 [OF tk] conjunct2 [OF tk] i(6)] .
  have inv': "queue_inv bs q'"
  proof (rule queue_invI, unfold fr)
    show "P div ?n < 2 ^ 56" using i(9) le_less_trans [OF div_le_mono [of P ?L ?n]] P(1) by simp
    fix s assume "?S \<le> s" "s < P"
    then show "granted_block bs (int (s div ?n)) (blk q' s)" using bl [of s] win i(10) [of s] P(1) by simp
  next
    show "active_block bs (int (P div ?n)) (blk q' P)" using bl [of P] P win tk by (auto simp: active_block_def)
  next
    fix s assume s: "P < s" "s < ?S + ?n"
    then show "free_block bs (int (s div ?n)) (blk q' s)"
      using bl [of s] P i(12) [of s] reduce_block [OF empty] by (auto simp: free_block_def)
  qed (use i P win in simp_all)
  have "exposed q' @ live (blk q' P) = exposed q"
    using bl P win lv by (subst exposed_cong [of q' q P]) (simp_all add: fr exposed_def)
  moreover have "live (blk q ?L) = []" using live_eq [OF empty i(6)] empty by (auto simp: block_is_def)
  ultimately have "contents q' = contents q" by (simp add: contents_def fr(2))
  then show ?thesis using that [OF adv inv'] P(1) fr by simp
qed

lemma pop_loop_ok:
  assumes "queue_inv bs q"
  shows "\<exists>q'. pop_loop (q_last q) q = Some (Inr (if contents q = [] then None else Some (last (contents q)), q')) \<and>
    queue_inv bs q' \<and> contents q' = butlast (contents q) \<and> length (q_blocks q') = length (q_blocks q) \<and> unat (q_last q') \<le> unat (q_last q)"
  using assms
proof (induction "unat (q_last q)" arbitrary: q rule: less_induct)
  case less
  note inv = less.prems and i = queue_invD [OF less.prems]
  obtain h t where b: "block_is bs (int (unat (q_last q) div length (q_blocks q))) h t (int (unat (q_last q) div length (q_blocks q))) bs (blk q (unat (q_last q)))"
    using i(11) by (auto simp: active_block_def)
  have ht: "h \<le> t" using b by (auto simp: block_is_def)
  show ?case
  proof (cases "h = t")
    case False
    then obtain t' where t': "t = Suc t'" "h \<le> t'" using ht by (cases t) auto
    obtain v b' where g: "block_get (blk q (unat (q_last q))) = Inr (Some v, b')"
      "block_is bs (int (unat (q_last q) div length (q_blocks q))) h t' (int (unat (q_last q) div length (q_blocks q))) bs b'"
      "live (blk q (unat (q_last q))) = live b' @ [v]"
      by (rule block_get_some [OF b [unfolded t'(1)] i(6) t'(2)])
    have "pop_loop (q_last q) q = Some (Inr (Some v, update_block (block_index q (q_last q)) b' q))"
      by (subst pop_loop.simps) (simp add: current_block [OF inv] g(1))
    then show ?thesis
      using update_last [OF inv, of b'] g(2,3) by (auto simp: active_block_def contents_def [of q] butlast_append)
  next
    case True
    note get = block_get_empty [OF b [folded True] i(6)]
    have lv: "live (blk q (unat (q_last q))) = []" using live_eq [OF b i(6)] True b by (auto simp: block_is_def)
    show ?thesis
    proof (cases "q_start q = q_last q")
      case start: True
      have "pop_loop (q_last q) q = Some (Inr (None, q))"
        by (subst pop_loop.simps) (simp add: current_block [OF inv] get advance_get_index_def start)
      moreover have "contents q = []" using lv start by (simp add: contents_def exposed_def)
      ultimately show ?thesis using inv by simp
    next
      case start: False
      obtain q' where q': "advance_get_index (q_last q) q = Inr (Some (q_last q'), q')" "queue_inv bs q'" "contents q' = contents q"
        "unat (q_last q) = Suc (unat (q_last q'))" "q_start q' = q_start q" "length (q_blocks q') = length (q_blocks q)"
        by (rule retreat_ok [OF inv start b [folded True]])
      have "pop_loop (q_last q) q = pop_loop (q_last q') q'"
        by (subst pop_loop.simps) (simp add: current_block [OF inv] get q'(1))
      then show ?thesis using less.hyps [of q'] q'(2,3,4,6) by force
    qed
  qed
qed

section \<open>Thieves\<close>

lemma update_exposed:
  assumes inv: "queue_inv bs q" and s: "unat (q_start q) \<le> unat s" "unat s < unat (q_last q)"
    and b: "granted_block bs (int (unat s div length (q_blocks q))) b"
  defines "q' \<equiv> update_block (block_index q s) b q"
  shows "queue_inv bs q'"
    "exposed q' = concat (map (\<lambda>s. live (blk q s)) [unat (q_start q)..<unat s]) @ live b @
      concat (map (\<lambda>s. live (blk q s)) [Suc (unat s)..<unat (q_last q)])"
    "blk q' (unat (q_last q)) = blk q (unat (q_last q))"
proof -
  note i = queue_invD [OF inv] and n2 = two_blocks [OF inv]
  let ?n = "length (q_blocks q)" and ?S = "unat (q_start q)" and ?L = "unat (q_last q)"
  have q': "q' = update_block (unat s mod ?n) b q" by (simp add: q'_def block_index_eq [OF inv])
  have bl: "blk q' x = (if x = unat s then b else blk q x)" if "?S \<le> x" "x < ?S + ?n" for x
    using that window_inj [of ?S "unat s" ?n x] i(8) s n2(2) by (auto simp: q' blk_update)
  show "queue_inv bs q'"
    by (rule queue_invI) (use i b bl s in \<open>simp_all add: q'\<close>)
  show "blk q' ?L = blk q ?L" using bl [OF i(7,8)] s by simp
  have up: "[?S..<?L] = [?S..<unat s] @ unat s # [Suc (unat s)..<?L]"
    using s by (metis le_Suc_ex upt_add_eq_append upt_conv_Cons less_imp_le)
  have fr: "unat (q_start q') = ?S" "unat (q_last q') = ?L" by (simp_all add: q')
  have "map (\<lambda>x. live (blk q' x)) [?S..<unat s] = map (\<lambda>x. live (blk q x)) [?S..<unat s]"
    "map (\<lambda>x. live (blk q' x)) [Suc (unat s)..<?L] = map (\<lambda>x. live (blk q x)) [Suc (unat s)..<?L]"
    "live (blk q' (unat s)) = live b"
    using bl s i(8) by auto
  then show "exposed q' = concat (map (\<lambda>s. live (blk q s)) [?S..<unat s]) @ live b @
      concat (map (\<lambda>s. live (blk q s)) [Suc (unat s)..<?L])"
    unfolding exposed_def fr up by (simp only: map_append list.map concat_append concat.simps)
qed

lemma steal_loop_ok:
  assumes inv: "queue_inv bs q" and s: "unat (q_start q) \<le> unat s" "unat s \<le> unat (q_last q)"
    and room: "unat s = unat (q_last q) \<Longrightarrow> sequences_left q"
    and none: "\<And>s'. \<lbrakk>unat (q_start q) \<le> s'; s' < unat s\<rbrakk> \<Longrightarrow> live (blk q s') = []"
  shows "\<exists>q'. steal_loop s q = Some (Inr (if exposed q = [] then None else Some (hd (exposed q)), q')) \<and>
    queue_inv bs q' \<and> exposed q' = tl (exposed q) \<and> contents q' = tl (exposed q) @ live (blk q (unat (q_last q)))
    \<and> length (q_blocks q') = length (q_blocks q) \<and> q_last q' = q_last q"
  using s none room
proof (induction "unat (q_last q) - unat s" arbitrary: s rule: less_induct)
  case less
  note i = queue_invD [OF inv]
  let ?n = "length (q_blocks q)" and ?S = "unat (q_start q)" and ?L = "unat (q_last q)" and ?g = "int (unat s div length (q_blocks q))"
  have cur: "q_blocks q ! block_index q s = blk q (unat s)" by (simp add: block_index_eq [OF inv] blk_def)
  have g: "0 \<le> ?g" "?g < 2 ^ 56" using i(9) div_le_mono [OF less.prems(2), of ?n] by simp_all
  have split: "exposed q = concat (map (\<lambda>s. live (blk q s)) [unat s..<?L])"
  proof -
    have "[?S..<?L] = [?S..<unat s] @ [unat s..<?L]" using less.prems(1,2) by (metis le_Suc_ex upt_add_eq_append)
    moreover have "concat (map (\<lambda>s. live (blk q s)) [?S..<unat s]) = []" using less.prems(3) by simp
    ultimately show ?thesis by (simp add: exposed_def)
  qed
  have "Suc (unat s) < 2 ^ 64 \<and> Suc (unat s) div ?n < 2 ^ 56"
  proof (cases "unat s = ?L")
    case True
    then show ?thesis using less.prems(4) by (simp add: sequences_left_def)
  next
    case False
    then have "Suc (unat s) \<le> ?L" using less.prems(2) by simp
    then show ?thesis using i(9) div_le_mono [of "Suc (unat s)" ?L ?n] unat_less_u64 [of "q_last q"] by (simp del: unat_less_u64)
  qed
  note nx = next_sequence_ok [OF inv conjunct1 [OF this] conjunct2 [OF this]]
  show ?case
  proof (cases "unat s = ?L")
    case True
    then obtain h t where b: "block_is bs ?g h t ?g bs (blk q (unat s))" using i(11) by (auto simp: active_block_def)
    have "\<not> s + 1 < q_last q" using True nx(2) by (simp add: word_less_nat_alt)
    then have "steal_loop s q = Some (Inr (None, q))"
      by (subst steal_loop.simps) (simp add: cur generation_eq [OF inv] block_steal_done [OF b i(6) g] advance_steal_index_def nx(1) del: of_int_of_nat_eq)
    moreover have "exposed q = []" using split True by simp
    ultimately show ?thesis using inv by (simp add: contents_def)
  next
    case False
    then have lt: "unat s < ?L" using less.prems(2) by simp
    then obtain k where b: "block_is bs ?g bs bs ?g k (blk q (unat s))" using i(10) less.prems(1) by (auto simp: granted_block_def)
    show ?thesis
    proof (cases "k = bs")
      case True
      note dn = block_steal_done [OF b [unfolded True] i(6) g]
      have lv: "live (blk q (unat s)) = []" using live_eq [OF b i(6)] True by simp
      show ?thesis
      proof (cases "s + 1 < q_last q")
        case more: True
        have "steal_loop s q = steal_loop (s + 1) q"
          by (subst steal_loop.simps) (simp add: cur generation_eq [OF inv] dn advance_steal_index_def nx(1) more del: of_int_of_nat_eq)
        moreover have "live (blk q s') = []" if "?S \<le> s'" "s' < unat (s + 1)" for s'
          using that less.prems(3) lv nx(2) by (cases "s' = unat s") auto
        moreover have "unat (s + 1) \<noteq> ?L" using more by (simp add: word_less_nat_alt)
        ultimately show ?thesis using less.hyps [of "s + 1"] lt less.prems(1) nx(2) by simp
      next
        case end_reached: False
        have "Suc (unat s) = ?L" using end_reached lt nx(2) by (simp add: word_less_nat_alt)
        then have "exposed q = []" using split lv by (simp add: upt_conv_Cons)
        moreover have "steal_loop s q = Some (Inr (None, q))"
          by (subst steal_loop.simps) (simp add: cur generation_eq [OF inv] dn advance_steal_index_def nx(1) end_reached del: of_int_of_nat_eq)
        ultimately show ?thesis using inv by (simp add: contents_def)
      qed
    next
      case False
      then have k: "k < bs" using b by (simp add: block_is_def)
      obtain v b' where st: "block_steal (of_int ?g) (blk q (unat s)) = Inr (Taken v, b')"
        "block_is bs ?g bs bs ?g (Suc k) b'" "live (blk q (unat s)) = v # live b'"
        by (rule block_steal_some [OF b i(6) k g])
      have "steal_loop s q = Some (Inr (Some v, update_block (block_index q s) b' q))"
        by (subst steal_loop.simps) (simp add: cur generation_eq [OF inv] st(1) del: of_int_of_nat_eq)
      moreover have "granted_block bs ?g b'" using st(2) by (auto simp: granted_block_def)
      note up = update_exposed [OF inv less.prems(1) lt this]
      have "exposed q = v # exposed (update_block (block_index q s) b' q)"
        using split st(3) lt less.prems(3) up(2) by (simp add: upt_conv_Cons)
      ultimately show ?thesis using up(1,3) by (simp add: contents_def [of "update_block _ _ _"])
    qed
  qed
qed

section \<open>Construction\<close>

lemma trailing_zeros_pow: "trailing_zeros (2 ^ k) = k"
proof (induction k)
  case (Suc k)
  then show ?case by (subst trailing_zeros.simps) simp
qed (simp add: trailing_zeros.simps)

lemma power_of_two_iff: "is_power_of_two n \<longleftrightarrow> (\<exists>k. n = 2 ^ k)"
  by (auto simp: is_power_of_two_def trailing_zeros_pow)

lemma new_block_free: "bs < 256 \<Longrightarrow> block_is bs (- 1) bs bs (- 1) bs (new_block bs)"
  by (simp add: block_is_def new_block_def Let_def code_initial)

lemma new_queue_ok:
  assumes k: "1 \<le> k" "k < 64" and bs: "0 < bs" "bs < 256"
  obtains q where "new_queue (2 ^ k) bs = Some (Inr q)" "queue_inv bs q" "contents q = []" "sequences_left q"
    "length (q_blocks q) = 2 ^ k"
proof -
  obtain b0 where b0: "reclaim 0 (new_block bs :: 'a block) = Some b0" "block_is bs 0 0 0 0 bs b0" "live b0 = []"
    using reclaim_block [OF new_block_free [OF bs(2)] bs(2) refl, of 0] by auto
  define q where "q = \<lparr>q_last = 0, q_start = 0, q_blocks = (replicate (2 ^ k) (new_block bs))[0 := b0],
     q_mask = of_nat (2 ^ k - 1), q_shift = k\<rparr>"
  have two: "2 \<le> (2 :: nat) ^ k" using k(1) power_increasing [of 1 k "2 :: nat"] by simp
  have new: "new_queue (2 ^ k) bs = Some (Inr q)"
    using two bs b0(1) by (simp add: new_queue_def power_of_two_iff SLOT_BITS_def trailing_zeros_pow q_def)
  have bl: "blk q s = (if s = 0 then b0 else new_block bs)" if "s < 2 ^ k" for s
    using that by (simp add: blk_def q_def nth_list_update)
  have len: "length (q_blocks q) = 2 ^ k" by (simp add: q_def)
  have inv: "queue_inv bs q"
  proof (rule queue_invI, unfold len)
    show "active_block bs (int (unat (q_last q) div 2 ^ k)) (blk q (unat (q_last q)))"
      using bl [of 0] b0(2) by (auto simp: active_block_def q_def)
    fix s assume "unat (q_last q) < s" "s < unat (q_start q) + 2 ^ k"
    then show "free_block bs (int (s div 2 ^ k)) (blk q s)"
      using bl [of s] new_block_free [OF bs(2)] by (auto simp: free_block_def q_def)
  qed (use k bs in \<open>auto simp: q_def\<close>)
  moreover have "contents q = []" using bl [of 0] b0(3) by (simp add: contents_def exposed_def q_def)
  moreover have "sequences_left q" using two by (simp add: sequences_left_def q_def)
  ultimately show ?thesis using that [OF new _ _ _ len] by blast
qed

section \<open>The contract of a work-stealing queue\<close>

text \<open>
  What a scheduler relies on: the owner appends and takes at one end, thieves take at the other, a
  refused value is handed back with the queue unchanged, and nothing is lost or duplicated.
\<close>

datatype 'a queue_op = Push 'a | Pop | Steal

text \<open>A run returns what was accepted and what was handed out.\<close>

fun queue_run ::
  "('a \<Rightarrow> 'q \<Rightarrow> ('a option \<times> 'q) option) \<Rightarrow> ('q \<Rightarrow> ('a option \<times> 'q) option) \<Rightarrow> ('q \<Rightarrow> ('a option \<times> 'q) option) \<Rightarrow>
    'a queue_op list \<Rightarrow> 'q \<Rightarrow> ('a list \<times> 'a list \<times> 'q) option" where
  "queue_run push pop steal [] q = Some ([], [], q)"
| "queue_run push pop steal (op # ops) q =
     (case op of
        Push v \<Rightarrow> (case push v q of None \<Rightarrow> None
            | Some (r, q') \<Rightarrow> map_option (\<lambda>(a, t, q'). (if r = None then v # a else a, t, q')) (queue_run push pop steal ops q'))
      | Pop \<Rightarrow> (case pop q of None \<Rightarrow> None
            | Some (r, q') \<Rightarrow> map_option (\<lambda>(a, t, q'). (a, (case r of None \<Rightarrow> t | Some v \<Rightarrow> v # t), q')) (queue_run push pop steal ops q'))
      | Steal \<Rightarrow> (case steal q of None \<Rightarrow> None
            | Some (r, q') \<Rightarrow> map_option (\<lambda>(a, t, q'). (a, (case r of None \<Rightarrow> t | Some v \<Rightarrow> v # t), q')) (queue_run push pop steal ops q')))"

locale steal_queue =
  fixes inv :: "'q \<Rightarrow> bool"
    and abs :: "'q \<Rightarrow> 'a list"
    and push :: "'a \<Rightarrow> 'q \<Rightarrow> ('a option \<times> 'q) option"
    and pop :: "'q \<Rightarrow> ('a option \<times> 'q) option"
    and steal :: "'q \<Rightarrow> ('a option \<times> 'q) option"
  assumes push_law: "\<lbrakk>inv q; push v q = Some (r, q')\<rbrakk> \<Longrightarrow>
      inv q' \<and> (case r of None \<Rightarrow> abs q' = abs q @ [v] | Some v' \<Rightarrow> v' = v \<and> abs q' = abs q)"
    and pop_law: "\<lbrakk>inv q; pop q = Some (r, q')\<rbrakk> \<Longrightarrow>
      inv q' \<and> (case r of None \<Rightarrow> abs q = [] \<and> abs q' = [] | Some v \<Rightarrow> abs q = abs q' @ [v])"
    and steal_law: "\<lbrakk>inv q; steal q = Some (r, q')\<rbrakk> \<Longrightarrow>
      inv q' \<and> (case r of None \<Rightarrow> abs q' = abs q | Some v \<Rightarrow> abs q = v # abs q')"
begin

lemma conservation:
  assumes "inv q" "queue_run push pop steal ops q = Some (a, t, q')"
  shows "inv q' \<and> mset (abs q) + mset a = mset t + mset (abs q')"
  using assms
proof (induction ops arbitrary: q a t)
  case (Cons op ops)
  show ?case
  proof (cases op)
    case (Push v)
    then obtain r q1 a1 where p: "push v q = Some (r, q1)" "queue_run push pop steal ops q1 = Some (a1, t, q')" "a = (if r = None then v # a1 else a1)"
      using Cons.prems by (auto split: option.splits)
    then show ?thesis using Cons.IH [OF _ p(2)] push_law [OF Cons.prems(1) p(1)] by (auto split: option.splits)
  next
    case Pop
    then obtain r q1 t1 where p: "pop q = Some (r, q1)" "queue_run push pop steal ops q1 = Some (a, t1, q')" "t = (case r of None \<Rightarrow> t1 | Some v \<Rightarrow> v # t1)"
      using Cons.prems by (auto split: option.splits)
    then show ?thesis using Cons.IH [OF _ p(2)] pop_law [OF Cons.prems(1) p(1)] by (auto split: option.splits)
  next
    case Steal
    then obtain r q1 t1 where p: "steal q = Some (r, q1)" "queue_run push pop steal ops q1 = Some (a, t1, q')" "t = (case r of None \<Rightarrow> t1 | Some v \<Rightarrow> v # t1)"
      using Cons.prems by (auto split: option.splits)
    then show ?thesis using Cons.IH [OF _ p(2)] steal_law [OF Cons.prems(1) p(1)] by (auto split: option.splits)
  qed
qed simp

end

text \<open>The operations in the shape of the contract; a call that panics or spins gives no result.\<close>

definition owner_push :: "'a \<Rightarrow> 'a lifo_queue \<Rightarrow> ('a option \<times> 'a lifo_queue) option" where
  "owner_push v q = (case push_back v q of
      Some (Inr (Inl v', q')) \<Rightarrow> Some (Some v', q') | Some (Inr (Inr _, q')) \<Rightarrow> Some (None, q') | _ \<Rightarrow> None)"

definition owner_pop :: "'a lifo_queue \<Rightarrow> ('a option \<times> 'a lifo_queue) option" where
  "owner_pop q = (case pop_back q of Some (Inr r) \<Rightarrow> Some r | _ \<Rightarrow> None)"

definition thief_steal :: "'a lifo_queue \<Rightarrow> ('a option \<times> 'a lifo_queue) option" where
  "thief_steal q = (case steal_front q of Some (Inr r) \<Rightarrow> Some r | _ \<Rightarrow> None)"

definition sequence_panics :: "panic set" where
  "sequence_panics = {Panic ''block sequence exhausted'', Panic ''generation overflow''}"

lemma sequences_out:
  assumes inv: "queue_inv bs q" and out: "\<not> sequences_left q"
  obtains p where "next_sequence q (q_last q) = Inl p" "p \<in> sequence_panics"
proof (cases "Suc (unat (q_last q)) < 2 ^ 64")
  case True
  then have w: "unat (q_last q + 1) = Suc (unat (q_last q))" by (intro unat_succ) auto
  have "unat (drop_bit (q_shift q) (q_last q + 1)) = Suc (unat (q_last q)) div length (q_blocks q)"
    unfolding queue_invD(1) [OF inv] w [symmetric] by (rule trans [OF unat_drop_bit_eq]) (simp add: drop_bit_eq_div)
  moreover have "unat MAX_GENERATION = 2 ^ 56 - 1" by (simp add: MAX_GENERATION_def)
  ultimately have "\<not> drop_bit (q_shift q) (q_last q + 1) \<le> MAX_GENERATION"
    using out True by (simp add: sequences_left_def word_le_nat_alt)
  moreover have "checked_add (q_last q) 1 = Some (q_last q + 1)" using True by (simp add: checked_add_Some)
  ultimately show ?thesis using that by (simp add: next_sequence_def sequence_panics_def)
next
  case False
  then have "checked_add (q_last q) 1 = None" by (simp add: checked_add_None)
  then show ?thesis using that by (simp add: next_sequence_def sequence_panics_def)
qed

lemma push_exhausted:
  assumes inv: "queue_inv bs q" and out: "\<not> sequences_left q"
  shows "(\<exists>p \<in> sequence_panics. push_back v q = Some (Inl p)) \<or>
    (\<exists>q'. push_back v q = Some (Inr (Inr Local, q')) \<and> queue_inv bs q' \<and> contents q' = contents q @ [v])"
proof -
  note i = queue_invD [OF inv]
  obtain h t where b: "block_is bs (int (unat (q_last q) div length (q_blocks q))) h t (int (unat (q_last q) div length (q_blocks q))) bs (blk q (unat (q_last q)))"
    using i(11) by (auto simp: active_block_def)
  show ?thesis
  proof (cases "t < bs")
    case True
    then show ?thesis using push_loop_room [OF inv b True, of v False] by (auto simp: push_back_def)
  next
    case False
    then have t: "t = bs" using b by (simp add: block_is_def)
    obtain p where p: "next_sequence q (q_last q) = Inl p" "p \<in> sequence_panics" by (rule sequences_out [OF assms])
    have "push_back v q = Some (Inl p)"
      unfolding push_back_def
      by (subst push_loop.simps) (simp add: current_block [OF inv] block_put_full [OF b [unfolded t] i(6)] advance_put_index_def p(1) Let_def)
    then show ?thesis using p(2) by blast
  qed
qed

lemma steal_exhausted:
  assumes inv: "queue_inv bs q" and out: "\<not> sequences_left q" and one: "q_start q = q_last q"
  shows "\<exists>p. steal_front q = Some (Inl p)"
proof -
  note i = queue_invD [OF inv]
  obtain h t where b: "block_is bs (int (unat (q_last q) div length (q_blocks q))) h t (int (unat (q_last q) div length (q_blocks q))) bs (blk q (unat (q_last q)))"
    using i(11) by (auto simp: active_block_def)
  obtain p where p: "next_sequence q (q_last q) = Inl p" "p \<in> sequence_panics" by (rule sequences_out [OF inv out])
  have "steal_front q = Some (Inl p)"
    unfolding steal_front_def one using i(9)
    by (subst steal_loop.simps)
      (simp add: current_block [OF inv] generation_eq [OF inv] block_steal_done [OF b i(6)] advance_steal_index_def p del: of_int_of_nat_eq)
  then show ?thesis by blast
qed

lemma steal_front_ok:
  assumes inv: "queue_inv bs q" and room: "sequences_left q \<or> q_start q \<noteq> q_last q"
  shows "\<exists>q'. steal_front q = Some (Inr (if exposed q = [] then None else Some (hd (exposed q)), q')) \<and>
    queue_inv bs q' \<and> exposed q' = tl (exposed q) \<and> contents q' = tl (exposed q) @ live (blk q (unat (q_last q)))
    \<and> length (q_blocks q') = length (q_blocks q) \<and> q_last q' = q_last q"
  unfolding steal_front_def
  by (rule steal_loop_ok [OF inv]) (use queue_invD [OF inv] room unat_eq_iff in auto)

interpretation deque: steal_queue "queue_inv bs" contents owner_push owner_pop thief_steal for bs :: nat
proof
  fix q q' :: "'a lifo_queue" and v r
  assume inv: "queue_inv bs q" and p: "owner_push v q = Some (r, q')"
  show "queue_inv bs q' \<and> (case r of None \<Rightarrow> contents q' = contents q @ [v] | Some v' \<Rightarrow> v' = v \<and> contents q' = contents q)"
  proof (cases "sequences_left q")
    case True
    show ?thesis
      by (rule push_back_ok [OF inv True, of v]) (use inv p in \<open>auto simp: owner_push_def\<close>)
  qed (use push_exhausted [OF inv, of v] p in \<open>auto simp: owner_push_def\<close>)
next
  fix q q' :: "'a lifo_queue" and r
  assume inv: "queue_inv bs q" and p: "owner_pop q = Some (r, q')"
  obtain q1 where "pop_back q = Some (Inr (if contents q = [] then None else Some (last (contents q)), q1))"
    "queue_inv bs q1" "contents q1 = butlast (contents q)"
    using pop_loop_ok [OF inv] by (auto simp: pop_back_def)
  then show "queue_inv bs q' \<and> (case r of None \<Rightarrow> contents q = [] \<and> contents q' = [] | Some v \<Rightarrow> contents q = contents q' @ [v])"
    using p by (auto simp: owner_pop_def split: if_splits)
next
  fix q q' :: "'a lifo_queue" and r
  assume inv: "queue_inv bs q" and p: "thief_steal q = Some (r, q')"
  show "queue_inv bs q' \<and> (case r of None \<Rightarrow> contents q' = contents q | Some v \<Rightarrow> contents q = v # contents q')"
  proof (cases "sequences_left q \<or> q_start q \<noteq> q_last q")
    case True
    then show ?thesis
      using steal_front_ok [OF inv True] p
      by (cases "exposed q") (auto simp: thief_steal_def contents_def [of q])
  qed (use steal_exhausted [OF inv] p in \<open>auto simp: thief_steal_def\<close>)
qed

section \<open>Dropping the queue\<close>

definition queue_drop :: "'a lifo_queue \<Rightarrow> 'a option list" where
  "queue_drop q = concat (map block_drop (q_blocks q))"

lemma window_bij:
  assumes "0 < n"
  shows "bij_betw (\<lambda>s. s mod n) {a..<a + n} {..<n :: nat}"
proof (rule bij_betw_imageI)
  show inj: "inj_on (\<lambda>s. s mod n) {a..<a + n}" using window_inj by (auto simp: inj_on_def)
  show "(\<lambda>s. s mod n) ` {a..<a + n} = {..<n}"
    by (rule card_subset_eq) (use assms card_image [OF inj] in auto)
qed

lemma block_in_window:
  assumes inv: "queue_inv bs q" and s: "unat (q_start q) \<le> s" "s < unat (q_start q) + length (q_blocks q)"
  shows "block_drop (blk q s) = map Some (live (blk q s))" "unat (q_last q) < s \<Longrightarrow> live (blk q s) = []"
proof -
  note i = queue_invD [OF inv]
  have "\<exists>gh h t st k. block_is bs gh h t st k (blk q s) \<and> (unat (q_last q) < s \<longrightarrow> h = t \<and> k = bs)"
  proof (cases s "unat (q_last q)" rule: linorder_cases)
    case less
    then show ?thesis using i(10) s(1) unfolding granted_block_def by fastforce
  next
    case equal
    then show ?thesis using i(11) unfolding active_block_def by blast
  next
    case greater
    then show ?thesis using i(12) s(2) unfolding free_block_def by blast
  qed
  then obtain gh h t st k where b: "block_is bs gh h t st k (blk q s)" "unat (q_last q) < s \<longrightarrow> h = t \<and> k = bs" by blast
  show "block_drop (blk q s) = map Some (live (blk q s))" by (rule drop_holds_values [OF b(1) i(6)])
  have "min h k \<ge> t" if "unat (q_last q) < s" using b that by (simp add: block_is_def)
  then show "unat (q_last q) < s \<Longrightarrow> live (blk q s) = []" by (simp add: live_eq [OF b(1) i(6)])
qed

lemma queue_drop_exact:
  assumes inv: "queue_inv bs q"
  shows "mset (queue_drop q) = mset (map Some (contents q))"
proof -
  note i = queue_invD [OF inv] and n2 = two_blocks [OF inv]
  let ?n = "length (q_blocks q)" and ?S = "unat (q_start q)" and ?L = "unat (q_last q)"
  have "mset (queue_drop q) = (\<Sum>j<?n. mset (block_drop (q_blocks q ! j)))"
    by (simp add: queue_drop_def mset_concat sum_list_sum_nth atLeast0LessThan)
  also have "\<dots> = (\<Sum>s\<in>{?S..<?S + ?n}. mset (block_drop (blk q s)))"
    using sum.reindex_bij_betw [OF window_bij [of ?n ?S], of "\<lambda>j. mset (block_drop (q_blocks q ! j))"] n2(2)
    by (simp add: blk_def)
  also have "\<dots> = (\<Sum>s\<in>{?S..<?S + ?n}. mset (map Some (live (blk q s))))"
    using block_in_window(1) [OF inv] by (intro sum.cong) auto
  also have "\<dots> = (\<Sum>s\<in>{?S..<Suc ?L}. mset (map Some (live (blk q s))))"
    using i(7,8) block_in_window(2) [OF inv] by (intro sum.mono_neutral_right) auto
  also have "\<dots> = mset (map Some (concat (map (\<lambda>s. live (blk q s)) [?S..<Suc ?L])))"
    by (simp only: map_concat mset_concat map_map comp_def interv_sum_list_conv_sum_set_nat set_upt)
  also have "concat (map (\<lambda>s. live (blk q s)) [?S..<Suc ?L]) = contents q"
    using i(7) by (simp add: contents_def exposed_def)
  finally show ?thesis .
qed

section \<open>Properties\<close>

text \<open>
  C7: The queue of blocks is a list.  As long as block sequences are left, a push returns without
  spinning and appends the value, or hands it back with the queue unchanged exactly if the ring is
  used up; a pop returns the newest value, and none only if the queue is empty; a thief takes the oldest
  exposed value, and comes back empty-handed exactly if nothing is exposed.  None of them
  panics, and none reads a slot that holds no value.
\<close>

theorem bwos_is_a_deque:
  assumes "queue_inv bs q" "sequences_left q"
  shows "(if ring_full bs q then push_back v q = Some (Inr (Inl v, q))
      else \<exists>r q'. push_back v q = Some (Inr (Inr r, q')) \<and> queue_inv bs q' \<and> contents q' = contents q @ [v]
         \<and> exposed q' = (case r of Local \<Rightarrow> exposed q | Granted \<Rightarrow> contents q))
    \<and> (\<exists>q'. pop_back q = Some (Inr (if contents q = [] then None else Some (last (contents q)), q'))
         \<and> queue_inv bs q' \<and> contents q' = butlast (contents q))
    \<and> (\<exists>q'. steal_front q = Some (Inr (if exposed q = [] then None else Some (hd (exposed q)), q'))
         \<and> queue_inv bs q' \<and> contents q' = (if exposed q = [] then contents q else tl (contents q)))"
proof -
  have "if ring_full bs q then push_back v q = Some (Inr (Inl v, q))
      else \<exists>r q'. push_back v q = Some (Inr (Inr r, q')) \<and> queue_inv bs q' \<and> contents q' = contents q @ [v]
         \<and> exposed q' = (case r of Local \<Rightarrow> exposed q | Granted \<Rightarrow> contents q)"
    by (rule push_back_ok [OF assms, of v]) simp_all
  moreover have "\<exists>q'. pop_back q = Some (Inr (if contents q = [] then None else Some (last (contents q)), q'))
         \<and> queue_inv bs q' \<and> contents q' = butlast (contents q)"
    using pop_loop_ok [OF assms(1)] by (auto simp: pop_back_def)
  moreover have "\<exists>q'. steal_front q = Some (Inr (if exposed q = [] then None else Some (hd (exposed q)), q'))
         \<and> queue_inv bs q' \<and> contents q' = (if exposed q = [] then contents q else tl (contents q))"
    using steal_front_ok [OF assms(1)] assms(2) by (cases "exposed q") (auto simp: contents_def [of q])
  ultimately show ?thesis by blast
qed

theorem bwos_is_a_deque_witness:
  "\<exists>q :: nat lifo_queue. new_queue 4 2 = Some (Inr q) \<and> queue_inv 2 q \<and> sequences_left q \<and>
     (\<exists>q'. pop_back q = Some (Inr (None, q')) \<and> contents q' = [])"
proof -
  obtain q :: "nat lifo_queue" where q: "new_queue (2 ^ 2) 2 = Some (Inr q)" "queue_inv 2 q" "contents q = []" "sequences_left q"
    by (rule new_queue_ok [of 2 2]) simp_all
  show ?thesis using q bwos_is_a_deque [OF q(2,4), of 0] by auto
qed

text \<open>
  Over any sequence of pushes, pops and thefts on a fresh queue, the values handed out together
  with the values still queued are exactly the values accepted: none is lost and none is handed out twice.
\<close>

theorem bwos_conserves_values:
  fixes q :: "'a lifo_queue"
  assumes "1 \<le> k" "k < 64" "0 < bs" "bs < 256" "new_queue (2 ^ k) bs = Some (Inr q)"
    "queue_run owner_push owner_pop thief_steal ops q = Some (accepted, taken, q')"
  shows "mset accepted = mset taken + mset (contents q')"
proof -
  obtain q0 :: "'a lifo_queue" where q0: "new_queue (2 ^ k) bs = Some (Inr q0)" "queue_inv bs q0" "contents q0 = []"
    using new_queue_ok [OF assms(1-4)] by metis
  then have "q0 = q" using assms(5) by simp
  then show ?thesis using deque.conservation [OF _ assms(6), of bs] q0(2,3) by simp
qed

theorem bwos_conserves_values_witness:
  "\<exists>(q :: nat lifo_queue) a t q'. new_queue (2 ^ 2) 2 = Some (Inr q) \<and>
     queue_run owner_push owner_pop thief_steal [Pop, Steal] q = Some (a, t, q') \<and> mset a = mset t + mset (contents q')"
proof -
  obtain q :: "nat lifo_queue" where q: "new_queue (2 ^ 2) 2 = Some (Inr q)" "queue_inv 2 q" "contents q = []" "sequences_left q"
    by (rule new_queue_ok [of 2 2]) simp_all
  obtain q1 where q1: "pop_back q = Some (Inr (None, q1))" "queue_inv 2 q1" "contents q1 = []"
    "length (q_blocks q1) = length (q_blocks q)" "unat (q_last q1) \<le> unat (q_last q)"
    using pop_loop_ok [OF q(2)] q(3) by (auto simp: pop_back_def)
  have "sequences_left q1"
    using q(4) q1(4,5) div_le_mono [of "Suc (unat (q_last q1))" "Suc (unat (q_last q))" "length (q_blocks q)"]
    by (simp add: sequences_left_def)
  then obtain q2 where q2: "steal_front q1 = Some (Inr (None, q2))"
    using steal_front_ok [OF q1(2)] q1(3) by (auto simp: contents_def)
  have "queue_run owner_push owner_pop thief_steal [Pop, Steal] q = Some ([], [], q2)"
    using q1(1) q2 by (simp add: owner_pop_def thief_steal_def)
  then show ?thesis using bwos_conserves_values [OF _ _ _ _ q(1)] q(1) by fastforce
qed



end
