(* ===== verification/Scheduler.thy ===== *)
theory Scheduler
  imports Bwos
begin

text \<open>
  The run queues (\<^verbatim>\<open>Scheduler\<close> in \<^verbatim>\<open>rskynet-core/src/mq.rs\<close>, \<^verbatim>\<open>Handoff\<close> in \<^verbatim>\<open>handoff.rs\<close>): a
  work-stealing queue and a handoff slot per worker, one injector for everybody, a counter of queued
  services, and bitmaps of idle workers and of queues worth stealing from.  The thread-local worker
  number is the argument \<^verbatim>\<open>me\<close>.  This theory runs every operation as one step; the wake-up protocol
  between threads is in the theory \<^verbatim>\<open>Wakeup\<close>.
\<close>

section \<open>State\<close>

definition INJECT_INTERVAL :: nat where "INJECT_INTERVAL = 64"
definition SPIN_ROUNDS :: nat where "SPIN_ROUNDS = 256"
definition STEAL_ATTEMPTS :: nat where "STEAL_ATTEMPTS = 2"

text \<open>The unpark token of the bound thread; a slot without a thread cannot be woken.\<close>

record 's worker_slot =
  ws_tick :: u64
  ws_rng :: u64
  ws_thread :: bool
  ws_token :: bool
  ws_handoff :: "'s option"

record 's scheduler =
  sd_locals :: "'s lifo_queue list"
  sd_slots :: "'s worker_slot list"
  sd_injector :: "'s list"
  sd_pending :: u64
  sd_idle :: "u64 list"
  sd_searching :: u64
  sd_max_searchers :: u64
  sd_stealable :: "u64 list"
  sd_quit :: bool

definition new_slot :: "nat \<Rightarrow> 's worker_slot" where
  "new_slot wid = \<lparr>ws_tick = 0, ws_rng = (of_nat wid * 0x9E3779B97F4A7C15) OR 1, ws_thread = False, ws_token = False,
     ws_handoff = None\<rparr>"

definition next_random :: "'s worker_slot \<Rightarrow> u64 \<times> 's worker_slot" where
  "next_random slot =
     (let x = ws_rng slot;
          x = x XOR push_bit 13 x;
          x = x XOR drop_bit 7 x;
          x = x XOR push_bit 17 x
      in (x, slot\<lparr>ws_rng := x\<rparr>))"

definition offer_raw :: "'s \<Rightarrow> 's option \<Rightarrow> 's option + 's" where
  "offer_raw s h = (case h of None \<Rightarrow> Inl (Some s) | Some _ \<Rightarrow> Inr s)"

definition take_raw :: "'s option \<Rightarrow> 's option \<times> 's option" where
  "take_raw h = (h, None)"

definition slot_wake :: "'s worker_slot \<Rightarrow> 's worker_slot" where
  "slot_wake slot = (if ws_thread slot then slot\<lparr>ws_token := True\<rparr> else slot)"

definition update_slot :: "nat \<Rightarrow> ('s worker_slot \<Rightarrow> 's worker_slot) \<Rightarrow> 's scheduler \<Rightarrow> 's scheduler" where
  "update_slot i f sd = sd\<lparr>sd_slots := (sd_slots sd)[i := f (sd_slots sd ! i)]\<rparr>"

text \<open>Offering to and taking from the handoff slot of a worker.\<close>

definition slot_offer :: "nat \<Rightarrow> 's \<Rightarrow> 's scheduler \<Rightarrow> 's option \<times> 's scheduler" where
  "slot_offer i s sd =
     (case offer_raw s (ws_handoff (sd_slots sd ! i)) of
        Inl h \<Rightarrow> (None, update_slot i (\<lambda>slot. slot\<lparr>ws_handoff := h\<rparr>) sd)
      | Inr s' \<Rightarrow> (Some s', sd))"

definition slot_take :: "nat \<Rightarrow> 's scheduler \<Rightarrow> 's option \<times> 's scheduler" where
  "slot_take i sd =
     (let (r, h) = take_raw (ws_handoff (sd_slots sd ! i))
      in (r, update_slot i (\<lambda>slot. slot\<lparr>ws_handoff := h\<rparr>) sd))"

text \<open>Bits of the two bitmaps.\<close>

definition bit_set :: "nat \<Rightarrow> u64 list \<Rightarrow> u64 list" where
  "bit_set i ws = ws[i div 64 := ws ! (i div 64) OR push_bit (i mod 64) 1]"

definition bit_clear :: "nat \<Rightarrow> u64 list \<Rightarrow> u64 list" where
  "bit_clear i ws = ws[i div 64 := ws ! (i div 64) AND NOT (push_bit (i mod 64) 1)]"

definition bit_test :: "nat \<Rightarrow> u64 list \<Rightarrow> bool" where
  "bit_test i ws = (ws ! (i div 64) AND push_bit (i mod 64) 1 \<noteq> 0)"

fun new_locals :: "nat \<Rightarrow> 's lifo_queue list outcome option" where
  "new_locals 0 = Some (Inr [])"
| "new_locals (Suc n) =
     obind (new_queue NUM_BLOCKS BLOCK_SIZE) (\<lambda>q. obind (new_locals n) (\<lambda>qs. Some (Inr (q # qs))))"

definition new_scheduler :: "nat \<Rightarrow> 's scheduler outcome option" where
  "new_scheduler workers =
     (let workers = max workers 1; words = (workers + 63) div 64
      in obind (new_locals workers) (\<lambda>locals.
           Some (Inr \<lparr>sd_locals = locals, sd_slots = map new_slot [0..<workers], sd_injector = [], sd_pending = 0,
                      sd_idle = replicate words 0, sd_searching = 0, sd_max_searchers = of_nat (max (workers div 2) 1),
                      sd_stealable = replicate words 0, sd_quit = False\<rparr>)))"

definition register_worker :: "nat \<Rightarrow> 's scheduler \<Rightarrow> 's scheduler outcome" where
  "register_worker wid sd =
     (if wid < length (sd_locals sd) then Inr (update_slot wid (\<lambda>slot. slot\<lparr>ws_thread := True\<rparr>) sd)
      else Inl (Panic ''worker number''))"

section \<open>Waking\<close>

text \<open>The lowest set bit of a word; \<^verbatim>\<open>trailing_zeros\<close> on machine words.\<close>

definition lowest_bit :: "u64 \<Rightarrow> nat option" where
  "lowest_bit w = List.find (bit w) [0..<64]"

fun claim_words :: "nat \<Rightarrow> u64 list \<Rightarrow> nat option" where
  "claim_words i [] = None"
| "claim_words i (w # ws) = (case lowest_bit w of Some b \<Rightarrow> Some (i * 64 + b) | None \<Rightarrow> claim_words (Suc i) ws)"

definition claim_idle :: "'s scheduler \<Rightarrow> nat option \<times> 's scheduler" where
  "claim_idle sd =
     (case claim_words 0 (sd_idle sd) of
        None \<Rightarrow> (None, sd)
      | Some wid \<Rightarrow> (Some wid, sd\<lparr>sd_idle := bit_clear wid (sd_idle sd)\<rparr>))"

definition wake_one :: "'s scheduler \<Rightarrow> 's scheduler" where
  "wake_one sd =
     (case claim_idle sd of (None, sd') \<Rightarrow> sd' | (Some wid, sd') \<Rightarrow> update_slot wid slot_wake sd')"

definition mark_idle :: "nat \<Rightarrow> 's scheduler \<Rightarrow> 's scheduler" where
  "mark_idle wid sd = sd\<lparr>sd_idle := bit_set wid (sd_idle sd)\<rparr>"

definition clear_idle :: "nat \<Rightarrow> 's scheduler \<Rightarrow> 's scheduler" where
  "clear_idle wid sd = sd\<lparr>sd_idle := bit_clear wid (sd_idle sd)\<rparr>"

definition is_stealable :: "nat \<Rightarrow> 's scheduler \<Rightarrow> bool" where
  "is_stealable wid sd = bit_test wid (sd_stealable sd)"

definition mark_stealable :: "nat \<Rightarrow> 's scheduler \<Rightarrow> 's scheduler" where
  "mark_stealable wid sd = sd\<lparr>sd_stealable := bit_set wid (sd_stealable sd)\<rparr>"

definition take_stealable :: "nat \<Rightarrow> 's scheduler \<Rightarrow> bool \<times> 's scheduler" where
  "take_stealable wid sd = (bit_test wid (sd_stealable sd), sd\<lparr>sd_stealable := bit_clear wid (sd_stealable sd)\<rparr>)"

definition clear_stealable :: "nat \<Rightarrow> 's scheduler \<Rightarrow> 's scheduler" where
  "clear_stealable wid sd = sd\<lparr>sd_stealable := bit_clear wid (sd_stealable sd)\<rparr>"

section \<open>Placing and taking services\<close>

definition set_local :: "nat \<Rightarrow> 's lifo_queue \<Rightarrow> 's scheduler \<Rightarrow> 's scheduler" where
  "set_local wid q sd = sd\<lparr>sd_locals := (sd_locals sd)[wid := q]\<rparr>"

definition place :: "nat option \<Rightarrow> 's \<Rightarrow> 's scheduler \<Rightarrow> 's scheduler outcome option" where
  "place me s sd =
     (case me of
        None \<Rightarrow> Some (Inr (sd\<lparr>sd_injector := sd_injector sd @ [s]\<rparr>))
      | Some wid \<Rightarrow>
          obind (push_back s (sd_locals sd ! wid)) (\<lambda>(r, q).
            let sd' = set_local wid q sd in
            Some (Inr (case r of
                Inr Granted \<Rightarrow> mark_stealable wid sd'
              | Inr Local \<Rightarrow> sd'
              | Inl s' \<Rightarrow> sd'\<lparr>sd_injector := sd_injector sd' @ [s']\<rparr>))))"

definition sched_push :: "nat option \<Rightarrow> 's \<Rightarrow> 's scheduler \<Rightarrow> 's scheduler outcome option" where
  "sched_push me s sd =
     (let sd = sd\<lparr>sd_pending := sd_pending sd + 1\<rparr> in
      if sd_searching sd > 0
      then (let sd = sd\<lparr>sd_injector := sd_injector sd @ [s]\<rparr>
            in Some (Inr (if sd_searching sd = 0 then wake_one sd else sd)))
      else (case claim_idle sd of
              (Some wid, sd) \<Rightarrow>
                (case slot_offer wid s sd of
                   (None, sd) \<Rightarrow> Some (Inr (update_slot wid slot_wake sd))
                 | (Some s, sd) \<Rightarrow> obind (place me s sd) (\<lambda>sd. Some (Inr (update_slot wid slot_wake sd))))
            | (None, sd) \<Rightarrow>
                obind (place me s sd) (\<lambda>sd.
                  Some (Inr (if me = None \<and> sd_searching sd = 0 then wake_one sd else sd)))))"

definition pop_injector :: "'s scheduler \<Rightarrow> 's option \<times> 's scheduler" where
  "pop_injector sd =
     (case sd_injector sd of
        [] \<Rightarrow> (None, sd)
      | s # ss \<Rightarrow> (Some s, sd\<lparr>sd_injector := ss, sd_pending := sd_pending sd - 1\<rparr>))"

fun steal_from :: "nat \<Rightarrow> nat list \<Rightarrow> nat \<Rightarrow> 's scheduler \<Rightarrow> ('s option \<times> 's scheduler) outcome option" where
  "steal_from wid [] attempts sd = Some (Inr (None, sd))"
| "steal_from wid (victim # victims) attempts sd =
     (if victim = wid \<or> \<not> is_stealable victim sd then steal_from wid victims attempts sd
      else (case take_stealable victim sd of
              (False, sd) \<Rightarrow> steal_from wid victims attempts sd
            | (True, sd) \<Rightarrow>
                obind (steal_front (sd_locals sd ! victim)) (\<lambda>(r, q).
                  let sd = set_local victim q sd in
                  case r of
                    Some s \<Rightarrow> (let sd = mark_stealable victim sd in Some (Inr (Some s, sd\<lparr>sd_pending := sd_pending sd - 1\<rparr>)))
                  | None \<Rightarrow> if STEAL_ATTEMPTS \<le> attempts + 1 then Some (Inr (None, sd))
                            else steal_from wid victims (attempts + 1) sd)))"

definition sched_steal :: "nat \<Rightarrow> 's scheduler \<Rightarrow> ('s option \<times> 's scheduler) outcome option" where
  "sched_steal wid sd =
     (let count = length (sd_locals sd) in
      if count < 2 then Some (Inr (None, sd))
      else (let (x, slot) = next_random (sd_slots sd ! wid);
                sd = update_slot wid (\<lambda>_. slot) sd;
                start = unat (x mod of_nat count)
            in steal_from wid (map (\<lambda>offset. (start + offset) mod count) [0..<count]) 0 sd))"

definition pop_local :: "nat \<Rightarrow> 's scheduler \<Rightarrow> ('s option \<times> 's scheduler) outcome option" where
  "pop_local wid sd =
     obind (pop_back (sd_locals sd ! wid)) (\<lambda>(r, q). Some (Inr (r, set_local wid q sd)))"

definition pop_rest :: "nat \<Rightarrow> 's scheduler \<Rightarrow> ('s option \<times> 's scheduler) outcome option" where
  "pop_rest wid sd =
     obind (pop_local wid sd) (\<lambda>(r, sd).
       case r of
         Some s \<Rightarrow> Some (Inr (Some s, sd\<lparr>sd_pending := sd_pending sd - 1\<rparr>))
       | None \<Rightarrow> (case pop_injector sd of (Some s, sd) \<Rightarrow> Some (Inr (Some s, sd)) | (None, sd) \<Rightarrow> sched_steal wid sd))"

definition pop_runnable :: "nat option \<Rightarrow> 's scheduler \<Rightarrow> ('s option \<times> 's scheduler) outcome option" where
  "pop_runnable me sd =
     (case me of
        None \<Rightarrow> Some (Inr (pop_injector sd))
      | Some wid \<Rightarrow>
          (case slot_take wid sd of
             (Some s, sd) \<Rightarrow> Some (Inr (Some s, sd\<lparr>sd_pending := sd_pending sd - 1\<rparr>))
           | (None, sd) \<Rightarrow>
               if sd_pending sd = 0 then Some (Inr (None, sd))
               else (let tick = ws_tick (sd_slots sd ! wid);
                         sd = update_slot wid (\<lambda>slot. slot\<lparr>ws_tick := tick + 1\<rparr>) sd
                     in if tick AND of_nat (INJECT_INTERVAL - 1) = 0
                        then (case pop_injector sd of
                                (Some s, sd) \<Rightarrow> Some (Inr (Some s, sd))
                              | (None, sd) \<Rightarrow> pop_rest wid sd)
                        else pop_rest wid sd)))"

partial_function (option) flush_loop :: "nat \<Rightarrow> 's scheduler \<Rightarrow> 's scheduler outcome option" where
  "flush_loop wid sd =
     Option.bind (pop_local wid sd) (\<lambda>r.
       case r of
         Inl p \<Rightarrow> Some (Inl p)
       | Inr (None, sd) \<Rightarrow> Some (Inr sd)
       | Inr (Some s, sd) \<Rightarrow> flush_loop wid (sd\<lparr>sd_injector := sd_injector sd @ [s]\<rparr>))"

definition flush_local :: "nat option \<Rightarrow> 's scheduler \<Rightarrow> 's scheduler outcome option" where
  "flush_local me sd =
     (case me of
        None \<Rightarrow> Some (Inr sd)
      | Some wid \<Rightarrow>
          (let sd = (case slot_take wid sd of (Some s, sd) \<Rightarrow> sd\<lparr>sd_injector := sd_injector sd @ [s]\<rparr> | (None, sd) \<Rightarrow> sd)
           in obind (flush_loop wid sd) (\<lambda>sd. Some (Inr (clear_stealable wid sd)))))"

definition poke :: "'s scheduler \<Rightarrow> 's scheduler" where
  "poke sd = (if sd_pending sd > 0 then wake_one sd else sd)"

definition should_yield :: "'s scheduler \<Rightarrow> bool" where
  "should_yield sd = (sd_pending sd > 0 \<or> sd_quit sd)"

definition set_quit :: "'s scheduler \<Rightarrow> 's scheduler" where
  "set_quit sd = sd\<lparr>sd_quit := True, sd_slots := map slot_wake (sd_slots sd)\<rparr>"

section \<open>Looking for work before parking\<close>

datatype 's search = Found 's | Quitting | WillPark

fun search_rounds :: "nat \<Rightarrow> nat \<Rightarrow> 's scheduler \<Rightarrow> ('s search option \<times> 's scheduler) outcome option" where
  "search_rounds wid 0 sd = Some (Inr (None, sd))"
| "search_rounds wid (Suc n) sd =
     obind (pop_runnable (Some wid) sd) (\<lambda>(r, sd).
       case r of
         Some s \<Rightarrow> Some (Inr (Some (Found s), sd\<lparr>sd_searching := sd_searching sd - 1\<rparr>))
       | None \<Rightarrow> if sd_quit sd then Some (Inr (Some Quitting, sd\<lparr>sd_searching := sd_searching sd - 1\<rparr>))
                 else search_rounds wid n sd)"

text \<open>\<^verbatim>\<open>find_work_or_park\<close> up to the call of \<^verbatim>\<open>park\<close>, and what follows that call.\<close>

definition find_work_or_park :: "nat \<Rightarrow> 's scheduler \<Rightarrow> ('s search \<times> 's scheduler) outcome option" where
  "find_work_or_park wid sd =
     (let searching = sd_searching sd; sd = sd\<lparr>sd_searching := searching + 1\<rparr>;
          rounds = (if searching < sd_max_searchers sd then SPIN_ROUNDS else 0)
      in obind (search_rounds wid rounds sd) (\<lambda>(r, sd).
           case r of
             Some x \<Rightarrow> Some (Inr (x, sd))
           | None \<Rightarrow>
               (let sd = mark_idle wid sd; sd = sd\<lparr>sd_searching := sd_searching sd - 1\<rparr>
                in obind (pop_runnable (Some wid) sd) (\<lambda>(r, sd).
                     case r of
                       Some s \<Rightarrow> Some (Inr (Found s, clear_idle wid sd))
                     | None \<Rightarrow> if sd_quit sd then Some (Inr (Quitting, clear_idle wid sd)) else Some (Inr (WillPark, sd))))))"

definition after_park :: "nat \<Rightarrow> 's scheduler \<Rightarrow> 's scheduler" where
  "after_park wid sd = clear_idle wid (update_slot wid (\<lambda>slot. slot\<lparr>ws_token := False\<rparr>) sd)"

section \<open>Invariant\<close>

definition handoffs :: "'s scheduler \<Rightarrow> 's multiset" where
  "handoffs sd = sum_list (map (\<lambda>slot. mset_set (set_option (ws_handoff slot))) (sd_slots sd))"

definition in_locals :: "'s scheduler \<Rightarrow> 's multiset" where
  "in_locals sd = sum_list (map (\<lambda>q. mset (contents q)) (sd_locals sd))"

definition queued :: "'s scheduler \<Rightarrow> 's multiset" where
  "queued sd = mset (sd_injector sd) + handoffs sd + in_locals sd"

text \<open>Everything but the counter, and the counter.\<close>

definition sched_core :: "'s scheduler \<Rightarrow> bool" where
  "sched_core sd =
     (length (sd_slots sd) = length (sd_locals sd) \<and> 0 < length (sd_locals sd) \<and>
      (\<forall>q \<in> set (sd_locals sd). queue_inv BLOCK_SIZE q) \<and>
      length (sd_idle sd) = (length (sd_locals sd) + 63) div 64 \<and>
      length (sd_stealable sd) = (length (sd_locals sd) + 63) div 64 \<and>
      (\<forall>i < 64 * length (sd_idle sd). bit_test i (sd_idle sd) \<longrightarrow> i < length (sd_locals sd)))"

definition sched_inv :: "'s scheduler \<Rightarrow> bool" where [inv_defs]:
  "sched_inv sd = (sched_core sd \<and> sd_pending sd = of_nat (size (queued sd)))"

text \<open>Every local queue still has block sequences to use.\<close>

definition sched_fresh :: "'s scheduler \<Rightarrow> bool" where
  "sched_fresh sd = (\<forall>q \<in> set (sd_locals sd). sequences_left q)"

lemma sum_list_update:
  "i < length xs \<Longrightarrow> sum_list (map f (xs[i := y])) + f (xs ! i) = sum_list (map f xs) + (f y :: 'b multiset)"
proof (induction xs arbitrary: i)
  case (Cons x xs)
  then show ?case by (cases i) (auto simp: ac_simps)
qed simp

lemma sum_list_member: "x \<in> set xs \<Longrightarrow> f x \<subseteq># (sum_list (map f xs) :: 'b multiset)"
  by (induction xs) (auto intro: subset_mset.add_increasing subset_mset.add_increasing2)

section \<open>Bitmaps\<close>

lemma bit_pow: "bit (2 ^ k :: u64) n \<longleftrightarrow> n = k \<and> k < 64"
  by (auto simp: bit_exp_iff)

lemma bit_test_bit: "bit_test i ws = bit (ws ! (i div 64)) (i mod 64)"
proof -
  have "ws ! (i div 64) AND push_bit (i mod 64) 1 \<noteq> 0 \<longleftrightarrow> bit (ws ! (i div 64)) (i mod 64)"
  proof
    assume "ws ! (i div 64) AND push_bit (i mod 64) 1 \<noteq> 0"
    then obtain n where "bit (ws ! (i div 64) AND push_bit (i mod 64) 1) n" by (metis bit_eq_iff bit_0_eq bot_apply bot_bool_def)
    then show "bit (ws ! (i div 64)) (i mod 64)" by (auto simp: bit_and_iff bit_pow)
  next
    assume "bit (ws ! (i div 64)) (i mod 64)"
    then have "bit (ws ! (i div 64) AND push_bit (i mod 64) 1) (i mod 64)" by (simp add: bit_and_iff bit_pow)
    then show "ws ! (i div 64) AND push_bit (i mod 64) 1 \<noteq> 0" by auto
  qed
  then show ?thesis by (simp add: bit_test_def)
qed

lemma length_bits [simp]: "length (bit_set i ws) = length ws" "length (bit_clear i ws) = length ws"
  by (simp_all add: bit_set_def bit_clear_def)

lemma same_bit: "i div 64 = j div 64 \<and> i mod 64 = j mod 64 \<longleftrightarrow> i = (j :: nat)"
  by (metis div_mult_mod_eq)

lemma bit_test_set:
  assumes "i < 64 * length ws"
  shows "bit_test j (bit_set i ws) = (j = i \<or> bit_test j ws)"
proof -
  have i: "i div 64 < length ws" using assms by (simp add: less_mult_imp_div_less mult.commute)
  show ?thesis
    using i same_bit [of i j] unfolding bit_test_bit bit_set_def
    by (cases "j div 64 = i div 64") (auto simp: bit_or_iff bit_pow)
qed

lemma bit_test_clear:
  assumes "i < 64 * length ws"
  shows "bit_test j (bit_clear i ws) = (j \<noteq> i \<and> bit_test j ws)"
proof -
  have i: "i div 64 < length ws" using assms by (simp add: less_mult_imp_div_less mult.commute)
  have "bit (NOT (push_bit (i mod 64) 1) :: u64) (j mod 64) \<longleftrightarrow> j mod 64 \<noteq> i mod 64"
    by (auto simp: bit_not_iff bit_pow)
  then show ?thesis
    using i same_bit [of i j] unfolding bit_test_bit bit_clear_def
    by (cases "j div 64 = i div 64") (auto simp: bit_and_iff)
qed

lemma lowest_bit_Some: "lowest_bit w = Some b \<Longrightarrow> b < 64 \<and> bit w b"
  by (auto simp: lowest_bit_def find_Some_iff)

lemma lowest_bit_None: "lowest_bit w = None \<longleftrightarrow> w = 0"
  by (auto simp: lowest_bit_def find_None_iff bit_eq_iff bit_imp_le_length)

lemma claim_words_Some:
  "claim_words i ws = Some n \<Longrightarrow> \<exists>k < length ws. n div 64 = i + k \<and> bit (ws ! k) (n mod 64)"
proof (induction i ws rule: claim_words.induct)
  case (2 i w ws)
  show ?case
  proof (cases "lowest_bit w")
    case None
    then obtain k where "k < length ws" "n div 64 = Suc i + k" "bit (ws ! k) (n mod 64)" using 2 by auto
    then show ?thesis by (intro exI [of _ "Suc k"]) simp
  next
    case (Some b)
    then show ?thesis using 2 lowest_bit_Some [OF Some] by (intro exI [of _ 0]) auto
  qed
qed simp

lemma claim_words_None: "claim_words i ws = None \<longleftrightarrow> (\<forall>w \<in> set ws. w = 0)"
proof (induction i ws rule: claim_words.induct)
  case (2 i w ws)
  then show ?case using lowest_bit_None [of w] by (cases "lowest_bit w") auto
qed simp

lemma claim_idle_Some:
  assumes inv: "sched_core sd" and c: "claim_idle sd = (Some w, sd')"
  shows "w < length (sd_locals sd)" "bit_test w (sd_idle sd)" "sd' = clear_idle w sd" "w < 64 * length (sd_idle sd)"
proof -
  have cl: "claim_words 0 (sd_idle sd) = Some w" "sd' = clear_idle w sd"
    using c by (auto simp: claim_idle_def clear_idle_def split: option.splits)
  obtain k where k: "k < length (sd_idle sd)" "w div 64 = k" "bit (sd_idle sd ! k) (w mod 64)"
    using claim_words_Some [OF cl(1)] by auto
  then show b: "bit_test w (sd_idle sd)" by (simp add: bit_test_bit)
  show l: "w < 64 * length (sd_idle sd)" using k by (metis div_less_iff_less_mult mult.commute zero_less_numeral)
  show "w < length (sd_locals sd)" using inv b l by (simp add: sched_core_def)
  show "sd' = clear_idle w sd" by (rule cl(2))
qed

lemma claim_idle_None: "claim_idle sd = (None, sd') \<Longrightarrow> sd' = sd"
  by (auto simp: claim_idle_def split: option.splits)

section \<open>Bookkeeping steps\<close>

text \<open>Steps that change neither the queues nor the shape: two schedulers with the same content.\<close>

definition same_content :: "'s scheduler \<Rightarrow> 's scheduler \<Rightarrow> bool" where
  "same_content sd sd' =
     (sd_locals sd' = sd_locals sd \<and> sd_injector sd' = sd_injector sd \<and> sd_pending sd' = sd_pending sd \<and>
      map ws_handoff (sd_slots sd') = map ws_handoff (sd_slots sd))"

lemma handoffs_map: "handoffs sd = sum_list (map (\<lambda>h. mset_set (set_option h)) (map ws_handoff (sd_slots sd)))"
  by (simp add: handoffs_def comp_def)

lemma same_content_queued: "same_content sd sd' \<Longrightarrow> queued sd' = queued sd"
  by (simp add: same_content_def queued_def in_locals_def handoffs_map)

lemma same_content_refl [simp]: "same_content sd sd"
  by (simp add: same_content_def)

lemma same_content_trans: "same_content a b \<Longrightarrow> same_content b c \<Longrightarrow> same_content a c"
  by (simp add: same_content_def)

lemma update_slot_content:
  "(\<And>slot. ws_handoff (f slot) = ws_handoff slot) \<Longrightarrow> same_content sd (update_slot i f sd)"
proof -
  assume f: "\<And>slot. ws_handoff (f slot) = ws_handoff slot"
  have "map ws_handoff ((sd_slots sd)[i := f (sd_slots sd ! i)]) = map ws_handoff (sd_slots sd)"
    by (cases "i < length (sd_slots sd)") (auto intro!: nth_equalityI simp: nth_list_update f)
  then show ?thesis by (simp add: same_content_def update_slot_def)
qed

lemma update_slot_core [simp]: "sched_core (update_slot i f sd) = sched_core sd"
  by (simp add: sched_core_def update_slot_def)

lemma slot_wake_handoff [simp]: "ws_handoff (slot_wake slot) = ws_handoff slot"
  by (simp add: slot_wake_def)

lemma core_idle:
  assumes "sched_core sd" "i < 64 * length (sd_idle sd)"
  shows "sched_core (clear_idle i sd)" "i < length (sd_locals sd) \<Longrightarrow> sched_core (mark_idle i sd)"
  using assms by (auto simp: sched_core_def clear_idle_def mark_idle_def bit_test_clear bit_test_set)

lemma core_flags [simp]:
  "sched_core (sd\<lparr>sd_pending := p\<rparr>) = sched_core sd" "sched_core (sd\<lparr>sd_injector := js\<rparr>) = sched_core sd"
  "sched_core (sd\<lparr>sd_searching := n\<rparr>) = sched_core sd"
  "sched_core (mark_stealable i sd) = sched_core sd" "sched_core (clear_stealable i sd) = sched_core sd"
  by (simp_all add: sched_core_def mark_stealable_def clear_stealable_def)

lemma content_flags [simp]:
  "same_content sd (mark_stealable i sd)" "same_content sd (clear_stealable i sd)" "same_content sd (mark_idle i sd)"
  "same_content sd (clear_idle i sd)" "same_content sd (sd\<lparr>sd_searching := n\<rparr>)"
  by (simp_all add: same_content_def mark_stealable_def clear_stealable_def mark_idle_def clear_idle_def)

lemma wake_one_ok:
  assumes core: "sched_core sd"
  shows "sched_core (wake_one sd)" "same_content sd (wake_one sd)"
proof -
  obtain r sd' where c: "claim_idle sd = (r, sd')" by (cases "claim_idle sd")
  show "sched_core (wake_one sd)"
    using c core claim_idle_None [of sd sd'] claim_idle_Some [OF core] core_idle [OF core]
    by (cases r) (auto simp: wake_one_def)
  have "same_content sd sd'"
    using c claim_idle_None [of sd sd'] claim_idle_Some(3) [OF core] by (cases r) auto
  then show "same_content sd (wake_one sd)"
    using c update_slot_content [of slot_wake sd'] by (auto simp: wake_one_def intro: same_content_trans split: option.splits)
qed

lemma inv_content: "\<lbrakk>sched_inv sd; sched_core sd'; same_content sd sd'\<rbrakk> \<Longrightarrow> sched_inv sd'"
  using same_content_queued [of sd sd'] by (simp add: sched_inv_def same_content_def)

section \<open>Moving services\<close>

lemma set_local_ok:
  assumes "sched_core sd" "i < length (sd_locals sd)" "queue_inv BLOCK_SIZE q"
  shows "sched_core (set_local i q sd)"
    "queued (set_local i q sd) + mset (contents (sd_locals sd ! i)) = queued sd + mset (contents q)"
proof -
  show "sched_core (set_local i q sd)"
    using assms set_update_subset_insert [of "sd_locals sd" i q] by (fastforce simp: sched_core_def set_local_def)
  have "in_locals (set_local i q sd) + mset (contents (sd_locals sd ! i)) = in_locals sd + mset (contents q)"
    using sum_list_update [OF assms(2), of "\<lambda>q. mset (contents q)" q] by (simp add: in_locals_def set_local_def)
  then show "queued (set_local i q sd) + mset (contents (sd_locals sd ! i)) = queued sd + mset (contents q)"
    by (simp add: queued_def handoffs_def set_local_def add.assoc)
qed

lemma handoff_ok:
  assumes "i < length (sd_slots sd)"
  shows "queued (update_slot i (\<lambda>slot. slot\<lparr>ws_handoff := h\<rparr>) sd) + mset_set (set_option (ws_handoff (sd_slots sd ! i)))
    = queued sd + mset_set (set_option h)"
proof -
  have "handoffs (update_slot i (\<lambda>slot. slot\<lparr>ws_handoff := h\<rparr>) sd) + mset_set (set_option (ws_handoff (sd_slots sd ! i)))
      = handoffs sd + mset_set (set_option h)"
    using sum_list_update [OF assms, of "\<lambda>slot. mset_set (set_option (ws_handoff slot))" "(sd_slots sd ! i)\<lparr>ws_handoff := h\<rparr>"]
    by (simp add: handoffs_def update_slot_def)
  then show ?thesis by (simp add: queued_def in_locals_def update_slot_def ac_simps)
qed

lemma injector_ok: "queued (sd\<lparr>sd_injector := sd_injector sd @ [s]\<rparr>) = add_mset s (queued sd)"
  by (simp add: queued_def handoffs_def in_locals_def)

lemma queued_pending [simp]: "queued (sd\<lparr>sd_pending := p\<rparr>) = queued sd"
  by (simp add: queued_def handoffs_def in_locals_def)

text \<open>Who calls: a worker of this scheduler, or another thread.\<close>

definition valid_caller :: "nat option \<Rightarrow> 's scheduler \<Rightarrow> bool" where
  "valid_caller me sd = (case me of None \<Rightarrow> True | Some w \<Rightarrow> w < length (sd_locals sd))"

lemma local_inv: "\<lbrakk>sched_core sd; i < length (sd_locals sd)\<rbrakk> \<Longrightarrow> queue_inv BLOCK_SIZE (sd_locals sd ! i)"
  by (simp add: sched_core_def)

lemma place_ok:
  assumes core: "sched_core sd" and me: "valid_caller me sd" and p: "place me s sd = Some (Inr sd')"
  shows "sched_core sd'" "queued sd' = add_mset s (queued sd)" "sd_pending sd' = sd_pending sd"
    "length (sd_locals sd') = length (sd_locals sd)"
proof -
  have "sched_core sd' \<and> queued sd' = add_mset s (queued sd) \<and> sd_pending sd' = sd_pending sd \<and>
      length (sd_locals sd') = length (sd_locals sd)"
  proof (cases me)
    case None
    then show ?thesis using p core by (auto simp: place_def injector_ok)
  next
    case (Some w)
    then have w: "w < length (sd_locals sd)" using me by (simp add: valid_caller_def)
    obtain x where x: "push_back s (sd_locals sd ! w) = Some (Inr x)" using p Some by (auto simp: place_def obind_Inr)
    obtain r q where "x = (r, q)" by (cases x)
    then have r: "push_back s (sd_locals sd ! w) = Some (Inr (r, q))"
      "sd' = (case r of Inr Granted \<Rightarrow> mark_stealable w (set_local w q sd) | Inr Local \<Rightarrow> set_local w q sd
        | Inl s' \<Rightarrow> (set_local w q sd)\<lparr>sd_injector := sd_injector sd @ [s']\<rparr>)"
      using p Some x by (auto simp: place_def Let_def set_local_def split: sum.splits pushed.splits)
    have law: "queue_inv BLOCK_SIZE q \<and> (case r of Inl s' \<Rightarrow> s' = s \<and> contents q = contents (sd_locals sd ! w) | Inr _ \<Rightarrow> contents q = contents (sd_locals sd ! w) @ [s])"
      using deque.push_law [OF local_inv [OF core w], of s "case r of Inl s' \<Rightarrow> Some s' | Inr _ \<Rightarrow> None" q] r(1)
      by (auto simp: owner_push_def split: sum.splits)
    note st = set_local_ok [OF core w conjunct1 [OF law]]
    have len: "length (sd_locals (set_local w q sd)) = length (sd_locals sd)" "sd_pending (set_local w q sd) = sd_pending sd"
      "sd_injector (set_local w q sd) = sd_injector sd"
      by (simp_all add: set_local_def)
    show ?thesis
    proof (cases r)
      case (Inl s')
      then show ?thesis using r(2) law st len injector_ok [of "set_local w q sd" s] by simp
    next
      case (Inr g)
      have "queued (mark_stealable w (set_local w q sd)) = queued (set_local w q sd)"
        by (rule same_content_queued) simp
      moreover have "queued (set_local w q sd) = add_mset s (queued sd)" using st(2) law Inr by simp
      ultimately show ?thesis
        using r(2) Inr st len content_flags(1) [of "set_local w q sd" w] by (cases g) (auto simp: same_content_def)
    qed
  qed
  then show "sched_core sd'" "queued sd' = add_mset s (queued sd)" "sd_pending sd' = sd_pending sd"
    "length (sd_locals sd') = length (sd_locals sd)" by blast+
qed

lemma inv_add:
  assumes "sched_inv sd" "sched_core sd'" "queued sd' = add_mset s (queued sd)" "sd_pending sd' = sd_pending sd + 1"
  shows "sched_inv sd'"
  using assms by (simp add: sched_inv_def)

lemma inv_remove:
  assumes "sched_inv sd" "sched_core sd'" "queued sd = add_mset s (queued sd')" "sd_pending sd' = sd_pending sd - 1"
  shows "sched_inv sd'"
  using assms by (simp add: sched_inv_def)

lemma sched_push_ok:
  assumes inv: "sched_inv sd" and me: "valid_caller me sd" and p: "sched_push me s sd = Some (Inr sd')"
  shows "sched_inv sd' \<and> queued sd' = add_mset s (queued sd) \<and> length (sd_locals sd') = length (sd_locals sd)"
proof -
  define sd1 where "sd1 = sd\<lparr>sd_pending := sd_pending sd + 1\<rparr>"
  have core: "sched_core sd1" and q1: "queued sd1 = queued sd" "sd_pending sd1 = sd_pending sd + 1" "sd_locals sd1 = sd_locals sd"
    using inv by (simp_all add: sd1_def sched_inv_def)
  have fin: ?thesis
    if "sched_core sd2" "queued sd2 = add_mset s (queued sd1)" "sd_pending sd2 = sd_pending sd1" "length (sd_locals sd2) = length (sd_locals sd1)"
      and "sched_core sd'" "same_content sd2 sd'" for sd2
    using that inv_add [OF inv, of sd' s] same_content_queued [OF that(6)] q1 by (auto simp: same_content_def)
  have me1: "valid_caller me sd1" using me by (auto simp: valid_caller_def q1 split: option.splits)
  show ?thesis
  proof (cases "sd_searching sd1 > 0")
    case True
    then have "sd' = sd1\<lparr>sd_injector := sd_injector sd1 @ [s]\<rparr>" using p by (auto simp: sched_push_def sd1_def Let_def)
    then show ?thesis using fin [of sd'] core injector_ok [of sd1 s] by simp
  next
    case idle: False
    obtain r sd2 where c: "claim_idle sd1 = (r, sd2)" by (cases "claim_idle sd1")
    show ?thesis
    proof (cases r)
      case None
      then have sd2: "sd2 = sd1" using claim_idle_None c by blast
      obtain sd3 where sd3: "place me s sd1 = Some (Inr sd3)" "sd' = (if me = None \<and> sd_searching sd3 = 0 then wake_one sd3 else sd3)"
        using p idle c None sd2 unfolding sched_push_def sd1_def [symmetric] Let_def by (auto simp: obind_Inr)
      note pl = place_ok [OF core me1 sd3(1)]
      show ?thesis using fin [OF pl] sd3(2) wake_one_ok [OF pl(1)] pl(1) by auto
    next
      case (Some w)
      note cl = claim_idle_Some [OF core c [unfolded Some]]
      have core2: "sched_core sd2" and q2: "queued sd2 = queued sd1" "sd_pending sd2 = sd_pending sd1" "sd_locals sd2 = sd_locals sd1"
        using cl core_idle(1) [OF core cl(4)] same_content_queued [OF content_flags(4)] by (simp_all add: clear_idle_def)
      have w: "w < length (sd_slots sd2)" using core2 cl(1) q2(3) by (simp add: sched_core_def)
      obtain o' sd3 where o': "slot_offer w s sd2 = (o', sd3)" by (cases "slot_offer w s sd2")
      note wk = update_slot_content [of slot_wake, OF slot_wake_handoff]
      show ?thesis
      proof (cases o')
        case None
        then have sd3: "sd3 = update_slot w (\<lambda>slot. slot\<lparr>ws_handoff := Some s\<rparr>) sd2" "ws_handoff (sd_slots sd2 ! w) = None"
          using o' by (auto simp: slot_offer_def offer_raw_def split: option.splits sum.splits)
        have "sd' = update_slot w slot_wake sd3"
          using p idle c Some o' None unfolding sched_push_def sd1_def [symmetric] Let_def by simp
        moreover have "queued sd3 = add_mset s (queued sd2)" using handoff_ok [OF w, of "Some s"] sd3 by simp
        moreover have "sched_core sd3" "sd_pending sd3 = sd_pending sd2" "length (sd_locals sd3) = length (sd_locals sd2)"
          using core2 sd3 by simp_all (simp_all add: update_slot_def)
        ultimately show ?thesis using fin [of sd3] q2 wk [of sd3 w] by simp
      next
        case (Some s')
        then have sd3: "sd3 = sd2" "s' = s" using o' by (auto simp: slot_offer_def offer_raw_def split: option.splits sum.splits)
        obtain sd4 where sd4: "place me s sd2 = Some (Inr sd4)" "sd' = update_slot w slot_wake sd4"
          using p idle c \<open>r = Some w\<close> o' Some sd3 unfolding sched_push_def sd1_def [symmetric] Let_def by (auto simp: obind_Inr)
        have "valid_caller me sd2" using me1 q2 by (simp add: valid_caller_def split: option.splits)
        note pl = place_ok [OF core2 this sd4(1)]
        show ?thesis using fin [of sd4] pl q2 sd4(2) wk [of sd4 w] by simp
      qed
    qed
  qed
qed

text \<open>What taking a service does: the counter and the queued services move together.\<close>

definition took :: "'s option \<Rightarrow> 's scheduler \<Rightarrow> 's scheduler \<Rightarrow> bool" where
  "took r sd sd' =
     (sched_inv sd' \<and> length (sd_locals sd') = length (sd_locals sd) \<and>
      (case r of None \<Rightarrow> queued sd' = queued sd | Some s \<Rightarrow> queued sd = add_mset s (queued sd')))"

lemma took_content: "\<lbrakk>took r sd sd'; same_content sd0 sd\<rbrakk> \<Longrightarrow> took r sd0 sd'"
  using same_content_queued [of sd0 sd] by (auto simp: took_def same_content_def split: option.splits)

lemma pop_injector_ok:
  assumes "sched_inv sd" "pop_injector sd = (r, sd')"
  shows "took r sd sd'" "r = None \<longleftrightarrow> sd_injector sd = []" "r = None \<Longrightarrow> sd' = sd"
proof -
  show "took r sd sd'"
  proof (cases "sd_injector sd")
    case Nil
    then show ?thesis using assms by (simp add: pop_injector_def took_def)
  next
    case (Cons s ss)
    then have sd': "r = Some s" "sd' = sd\<lparr>sd_injector := ss, sd_pending := sd_pending sd - 1\<rparr>"
      using assms(2) by (simp_all add: pop_injector_def)
    have "queued sd = add_mset s (queued sd')" using Cons sd' by (simp add: queued_def handoffs_def in_locals_def)
    then show ?thesis using inv_remove [OF assms(1), of sd' s] sd' assms(1) by (simp add: took_def sched_inv_def)
  qed
  show "r = None \<longleftrightarrow> sd_injector sd = []" "r = None \<Longrightarrow> sd' = sd"
    using assms(2) by (auto simp: pop_injector_def split: list.splits)
qed

lemma pop_local_ok:
  assumes core: "sched_core sd" and w: "w < length (sd_locals sd)" and p: "pop_local w sd = Some (Inr (r, sd'))"
  shows "sched_core sd'" "sd_pending sd' = sd_pending sd" "length (sd_locals sd') = length (sd_locals sd)"
    "case r of None \<Rightarrow> queued sd' = queued sd | Some s \<Rightarrow> queued sd = add_mset s (queued sd')"
    "r = None \<Longrightarrow> contents (sd_locals sd ! w) = []" "sd_injector sd' = sd_injector sd" "sd_slots sd' = sd_slots sd"
    "contents (sd_locals sd' ! w) = butlast (contents (sd_locals sd ! w))"
proof -
  obtain q where q: "pop_back (sd_locals sd ! w) = Some (Inr (r, q))" "sd' = set_local w q sd"
    using p by (auto simp: pop_local_def obind_Inr)
  have law: "queue_inv BLOCK_SIZE q \<and> (case r of None \<Rightarrow> contents (sd_locals sd ! w) = [] \<and> contents q = [] | Some v \<Rightarrow> contents (sd_locals sd ! w) = contents q @ [v])"
    using deque.pop_law [OF local_inv [OF core w], of r q] q(1) by (simp add: owner_pop_def)
  note st = set_local_ok [OF core w conjunct1 [OF law]]
  show "sched_core sd'" using st q(2) by simp
  show "sd_pending sd' = sd_pending sd" "length (sd_locals sd') = length (sd_locals sd)" "sd_injector sd' = sd_injector sd" "sd_slots sd' = sd_slots sd"
    by (simp_all add: q(2) set_local_def)
  show "case r of None \<Rightarrow> queued sd' = queued sd | Some s \<Rightarrow> queued sd = add_mset s (queued sd')"
    using st(2) law q(2) by (cases r) auto
  show "r = None \<Longrightarrow> contents (sd_locals sd ! w) = []" using law by simp
  show "contents (sd_locals sd' ! w) = butlast (contents (sd_locals sd ! w))"
    using law w by (cases r) (simp_all add: q(2) set_local_def)
qed

lemma steal_from_ok:
  assumes "sched_inv sd" "\<forall>v \<in> set victims. v < length (sd_locals sd)" "steal_from w victims attempts sd = Some (Inr (r, sd'))"
  shows "took r sd sd'"
  using assms
proof (induction victims arbitrary: attempts sd)
  case Nil
  then show ?case by (simp add: took_def)
next
  case (Cons victim victims)
  have v: "victim < length (sd_locals sd)" using Cons.prems(2) by simp
  define sd1 where "sd1 = sd\<lparr>sd_stealable := bit_clear victim (sd_stealable sd)\<rparr>"
  have same: "same_content sd sd1" and core1: "sched_core sd1" and len1: "sd_locals sd1 = sd_locals sd"
    using Cons.prems(1) by (auto simp: same_content_def sd1_def sched_core_def sched_inv_def)
  have inv1: "sched_inv sd1" by (rule inv_content [OF Cons.prems(1) core1 same])
  show ?case
  proof (cases "victim = w \<or> \<not> is_stealable victim sd")
    case True
    then show ?thesis using Cons.IH Cons.prems by simp
  next
    case False
    then have tk: "take_stealable victim sd = (True, sd1)" by (simp add: take_stealable_def is_stealable_def sd1_def)
    have "obind (steal_front (sd_locals sd1 ! victim)) (\<lambda>(r, q).
        let sd = set_local victim q sd1 in
        case r of
          Some s \<Rightarrow> (let sd = mark_stealable victim sd in Some (Inr (Some s, sd\<lparr>sd_pending := sd_pending sd - 1\<rparr>)))
        | None \<Rightarrow> if STEAL_ATTEMPTS \<le> attempts + 1 then Some (Inr (None, sd))
                  else steal_from w victims (attempts + 1) sd) = Some (Inr (r, sd'))"
      using Cons.prems(3) False tk by simp
    then obtain o' q where st: "steal_front (sd_locals sd1 ! victim) = Some (Inr (o', q))"
      and res: "(case o' of
          Some s \<Rightarrow> (let sd = mark_stealable victim (set_local victim q sd1) in Some (Inr (Some s, sd\<lparr>sd_pending := sd_pending sd - 1\<rparr>)))
        | None \<Rightarrow> if STEAL_ATTEMPTS \<le> attempts + 1 then Some (Inr (None, set_local victim q sd1))
                  else steal_from w victims (attempts + 1) (set_local victim q sd1)) = Some (Inr (r, sd'))"
      by (auto simp: obind_Inr Let_def)
    have v1: "victim < length (sd_locals sd1)" using v len1 by simp
    have law: "queue_inv BLOCK_SIZE q \<and> (case o' of None \<Rightarrow> contents q = contents (sd_locals sd1 ! victim) | Some x \<Rightarrow> contents (sd_locals sd1 ! victim) = x # contents q)"
      using deque.steal_law [OF local_inv [OF core1 v1], of o' q] st by (simp add: thief_steal_def)
    define sd2 where "sd2 = set_local victim q sd1"
    note sl = set_local_ok [OF core1 v1 conjunct1 [OF law], folded sd2_def]
    have fr: "sd_pending sd2 = sd_pending sd1" "length (sd_locals sd2) = length (sd_locals sd1)" by (simp_all add: sd2_def set_local_def)
    have "took r sd1 sd'"
    proof (cases o')
      case (Some s)
      have q2: "queued sd1 = add_mset s (queued sd2)" using sl(2) law Some by simp
      define sd3 where "sd3 = mark_stealable victim sd2"
      have sd3: "r = Some s" "sd' = sd3\<lparr>sd_pending := sd_pending sd3 - 1\<rparr>"
        using res Some by (simp_all add: Let_def sd2_def sd3_def)
      have "same_content sd2 sd3" "sched_core sd3" using sl(1) by (simp_all add: sd3_def)
      then show ?thesis
        using inv_remove [OF inv1, of sd' s] q2 fr sd3 same_content_queued [of sd2 sd3] by (auto simp: took_def same_content_def)
    next
      case None
      have q2: "queued sd2 = queued sd1" using sl(2) law None by simp
      have inv2: "sched_inv sd2" using inv1 sl(1) q2 fr by (simp add: sched_inv_def)
      show ?thesis
      proof (cases "STEAL_ATTEMPTS \<le> attempts + 1")
        case True
        then show ?thesis using res None inv2 q2 fr by (simp add: took_def sd2_def)
      next
        case more: False
        then have "steal_from w victims (attempts + 1) sd2 = Some (Inr (r, sd'))" using res None by (simp add: sd2_def)
        moreover have "took r sd2 sd'"
          using Cons.IH [OF inv2 _ calculation] Cons.prems(2) fr(2) len1 by simp
        ultimately show ?thesis using q2 fr by (auto simp: took_def split: option.splits)
      qed
    qed
    then show ?thesis using took_content same by blast
  qed
qed

lemma sched_steal_ok:
  assumes inv: "sched_inv sd" and p: "sched_steal w sd = Some (Inr (r, sd'))"
  shows "took r sd sd'"
proof (cases "length (sd_locals sd) < 2")
  case True
  then show ?thesis using p inv by (simp add: sched_steal_def took_def)
next
  case False
  define n where "n = length (sd_locals sd)"
  obtain x slot where x: "next_random (sd_slots sd ! w) = (x, slot)" by (cases "next_random (sd_slots sd ! w)")
  define sd1 where "sd1 = update_slot w (\<lambda>_. slot) sd"
  define vs where "vs = map (\<lambda>offset. (unat (x mod of_nat n) + offset) mod n) [0..<n]"
  have st: "steal_from w vs 0 sd1 = Some (Inr (r, sd'))"
    using p False x by (simp add: sched_steal_def Let_def vs_def sd1_def n_def)
  have h: "ws_handoff slot = ws_handoff (sd_slots sd ! w)" using x by (auto simp: next_random_def Let_def)
  have "map ws_handoff ((sd_slots sd)[w := slot]) = map ws_handoff (sd_slots sd)"
    by (cases "w < length (sd_slots sd)") (auto intro!: nth_equalityI simp: nth_list_update h)
  then have same: "same_content sd sd1" by (simp add: same_content_def sd1_def update_slot_def)
  have inv1: "sched_inv sd1" using inv_content [OF inv _ same] inv by (simp add: sd1_def sched_inv_def)
  have "0 < n" "length (sd_locals sd1) = n" using False by (auto simp: n_def sd1_def update_slot_def)
  then have "\<forall>v \<in> set vs. v < length (sd_locals sd1)" by (simp add: vs_def)
  then show ?thesis using steal_from_ok [OF inv1 _ st] took_content [OF _ same] by blast
qed

lemma pop_rest_ok:
  assumes inv: "sched_inv sd" and w: "w < length (sd_locals sd)" and p: "pop_rest w sd = Some (Inr (r, sd'))"
  shows "took r sd sd'" "r = None \<Longrightarrow> sd_injector sd = [] \<and> contents (sd_locals sd ! w) = []"
proof -
  have core: "sched_core sd" using inv by (simp add: sched_inv_def)
  obtain r1 sd1 where l: "pop_local w sd = Some (Inr (r1, sd1))" using p by (auto simp: pop_rest_def obind_Inr)
  note pl = pop_local_ok [OF core w l]
  have "took r sd sd' \<and> (r = None \<longrightarrow> sd_injector sd = [] \<and> contents (sd_locals sd ! w) = [])"
  proof (cases r1)
    case (Some s)
    then have "r = Some s" "sd' = sd1\<lparr>sd_pending := sd_pending sd1 - 1\<rparr>" using p l by (auto simp: pop_rest_def)
    then show ?thesis using inv_remove [OF inv, of sd' s] pl Some by (simp add: took_def)
  next
    case None
    then have inv1: "sched_inv sd1" and q1: "queued sd1 = queued sd" using inv pl by (simp_all add: sched_inv_def)
    obtain r2 sd2 where i: "pop_injector sd1 = (r2, sd2)" by (cases "pop_injector sd1")
    note pi = pop_injector_ok [OF inv1 i]
    have "took r sd1 sd' \<and> (r = None \<longrightarrow> sd_injector sd1 = [])"
    proof (cases r2)
      case (Some s)
      then show ?thesis using p l None i pi by (auto simp: pop_rest_def)
    next
      case none2: None
      then show ?thesis using p l None i pi sched_steal_ok [OF inv1] by (auto simp: pop_rest_def)
    qed
    then show ?thesis using pl None q1 by (auto simp: took_def split: option.splits)
  qed
  then show "took r sd sd'" "r = None \<Longrightarrow> sd_injector sd = [] \<and> contents (sd_locals sd ! w) = []" by blast+
qed

lemma slot_take_ok:
  assumes inv: "sched_inv sd" and w: "w < length (sd_locals sd)" and t: "slot_take w sd = (r, sd1)"
  shows "sched_core sd1" "sd_pending sd1 = sd_pending sd" "sd_locals sd1 = sd_locals sd" "sd_injector sd1 = sd_injector sd"
    "case r of None \<Rightarrow> queued sd1 = queued sd | Some s \<Rightarrow> queued sd = add_mset s (queued sd1)"
    "r = ws_handoff (sd_slots sd ! w)" "ws_handoff (sd_slots sd1 ! w) = None"
proof -
  have w': "w < length (sd_slots sd)" using inv w by (simp add: sched_inv_def sched_core_def)
  have sd1: "r = ws_handoff (sd_slots sd ! w)" "sd1 = update_slot w (\<lambda>slot. slot\<lparr>ws_handoff := None\<rparr>) sd"
    using t by (auto simp: slot_take_def take_raw_def)
  show "sched_core sd1" using inv sd1 by (simp add: sched_inv_def)
  show "sd_pending sd1 = sd_pending sd" "sd_locals sd1 = sd_locals sd" "sd_injector sd1 = sd_injector sd" "ws_handoff (sd_slots sd1 ! w) = None"
    using w' by (simp_all add: sd1 update_slot_def)
  show "r = ws_handoff (sd_slots sd ! w)" by (rule sd1)
  show "case r of None \<Rightarrow> queued sd1 = queued sd | Some s \<Rightarrow> queued sd = add_mset s (queued sd1)"
    using handoff_ok [OF w', of None] sd1 by (auto split: option.splits)
qed

text \<open>A worker that comes away with nothing has seen its slot, its queue and the injector empty.\<close>

lemma pop_runnable_ok:
  assumes inv: "sched_inv sd" and me: "valid_caller me sd" and p: "pop_runnable me sd = Some (Inr (r, sd'))"
  shows "took r sd sd'"
    "\<lbrakk>r = None; size (queued sd) < 2 ^ 64; me = Some w\<rbrakk> \<Longrightarrow>
      ws_handoff (sd_slots sd ! w) = None \<and> sd_injector sd = [] \<and> contents (sd_locals sd ! w) = []"
proof -
  have "took r sd sd' \<and> (r = None \<and> size (queued sd) < 2 ^ 64 \<longrightarrow> (\<forall>w. me = Some w \<longrightarrow>
      ws_handoff (sd_slots sd ! w) = None \<and> sd_injector sd = [] \<and> contents (sd_locals sd ! w) = []))"
  proof (cases me)
    case None
    then show ?thesis using p pop_injector_ok [OF inv] by (auto simp: pop_runnable_def)
  next
    case (Some w)
    then have w: "w < length (sd_locals sd)" using me by (simp add: valid_caller_def)
    obtain h sd1 where t: "slot_take w sd = (h, sd1)" by (cases "slot_take w sd")
    note tk = slot_take_ok [OF inv w t]
    show ?thesis
    proof (cases h)
      case h: (Some s)
      then have "r = Some s" "sd' = sd1\<lparr>sd_pending := sd_pending sd1 - 1\<rparr>" using p Some t by (auto simp: pop_runnable_def)
      then show ?thesis using inv_remove [OF inv, of sd' s] tk(1-5) h by (simp add: took_def)
    next
      case h: None
      have inv1: "sched_inv sd1" and q1: "queued sd1 = queued sd" using inv tk h by (simp_all add: sched_inv_def)
      show ?thesis
      proof (cases "sd_pending sd1 = 0")
        case True
        then have "r = None" "sd' = sd1" using p Some t h by (auto simp: pop_runnable_def)
        moreover have "queued sd = {#}" if "size (queued sd) < 2 ^ 64"
        proof -
          have "unat (of_nat (size (queued sd)) :: u64) = size (queued sd)" using that by (intro unat_of_nat_less) simp
          moreover have "(of_nat (size (queued sd)) :: u64) = 0" using True inv1 q1 by (simp add: sched_inv_def)
          ultimately have "size (queued sd) = 0" by (metis unat_0)
          then show ?thesis by simp
        qed
        moreover have "sd_injector sd = [] \<and> contents (sd_locals sd ! w) = []" if "queued sd = {#}"
          using that w sum_list_member [of "sd_locals sd ! w" "sd_locals sd" "\<lambda>q. mset (contents q)"]
          by (auto simp: queued_def in_locals_def)
        ultimately show ?thesis using inv1 q1 tk h Some by (auto simp: took_def)
      next
        case False
        define sd2 where "sd2 = update_slot w (\<lambda>slot. slot\<lparr>ws_tick := ws_tick (sd_slots sd1 ! w) + 1\<rparr>) sd1"
        have same: "same_content sd1 sd2" unfolding sd2_def by (rule update_slot_content) simp
        have inv2: "sched_inv sd2" using inv_content [OF inv1 _ same] inv1 by (simp add: sd2_def sched_inv_def)
        have w2: "w < length (sd_locals sd2)" and l2: "sd_locals sd2 = sd_locals sd" "sd_injector sd2 = sd_injector sd"
          using w tk same by (simp_all add: same_content_def)
        have "took r sd2 sd' \<and> (r = None \<longrightarrow> sd_injector sd2 = [] \<and> contents (sd_locals sd2 ! w) = [])"
        proof (cases "ws_tick (sd_slots sd1 ! w) AND of_nat (INJECT_INTERVAL - 1) = 0")
          case tick: True
          obtain r2 sd3 where i: "pop_injector sd2 = (r2, sd3)" by (cases "pop_injector sd2")
          note pi = pop_injector_ok [OF inv2 i]
          show ?thesis
            using p Some t h False tick i pi pop_rest_ok [OF inv2 w2, of r sd']
            by (cases r2) (auto simp: pop_runnable_def Let_def sd2_def [symmetric])
        next
          case False': False
          then show ?thesis
            using p Some t h False pop_rest_ok [OF inv2 w2, of r sd'] by (auto simp: pop_runnable_def Let_def sd2_def [symmetric])
        qed
        then show ?thesis
          using l2 h tk(6) Some q1 same_content_queued [OF same] tk(3) same
          by (auto simp: took_def same_content_def split: option.splits)
      qed
    qed
  qed
  then show "took r sd sd'"
    "\<lbrakk>r = None; size (queued sd) < 2 ^ 64; me = Some w\<rbrakk> \<Longrightarrow>
      ws_handoff (sd_slots sd ! w) = None \<and> sd_injector sd = [] \<and> contents (sd_locals sd ! w) = []"
    by blast+
qed

section \<open>Leaving\<close>

lemma flush_loop_ok:
  assumes "sched_core sd" "w < length (sd_locals sd)"
  shows "\<exists>sd'. flush_loop w sd = Some (Inr sd') \<and> sched_core sd' \<and> queued sd' = queued sd \<and> sd_pending sd' = sd_pending sd \<and>
    contents (sd_locals sd' ! w) = [] \<and> length (sd_locals sd') = length (sd_locals sd) \<and> sd_slots sd' = sd_slots sd"
  using assms
proof (induction "length (contents (sd_locals sd ! w))" arbitrary: sd rule: less_induct)
  case less
  obtain q where q: "pop_back (sd_locals sd ! w) =
      Some (Inr (if contents (sd_locals sd ! w) = [] then None else Some (last (contents (sd_locals sd ! w))), q))"
    using pop_loop_ok [OF local_inv [OF less.prems]] by (auto simp: pop_back_def)
  define r where "r = (if contents (sd_locals sd ! w) = [] then None else Some (last (contents (sd_locals sd ! w))))"
  have l: "pop_local w sd = Some (Inr (r, set_local w q sd))" using q by (simp add: pop_local_def r_def)
  note pl = pop_local_ok [OF less.prems l]
  show ?case
  proof (cases "contents (sd_locals sd ! w) = []")
    case True
    then have "flush_loop w sd = Some (Inr (set_local w q sd))" using l by (subst flush_loop.simps) (simp add: r_def)
    then show ?thesis using pl True by (simp add: r_def)
  next
    case False
    define s where "s = last (contents (sd_locals sd ! w))"
    define sd1 where "sd1 = (set_local w q sd)\<lparr>sd_injector := sd_injector (set_local w q sd) @ [s]\<rparr>"
    have fl: "flush_loop w sd = flush_loop w sd1" using l False by (subst flush_loop.simps) (simp add: r_def sd1_def s_def)
    have q1: "queued sd1 = queued sd" using pl(4) False injector_ok [of "set_local w q sd" s] by (simp add: r_def sd1_def s_def)
    have "length (contents (sd_locals sd1 ! w)) < length (contents (sd_locals sd ! w))" using pl(8) False by (simp add: sd1_def)
    moreover have "sched_core sd1" "w < length (sd_locals sd1)" using pl less.prems by (simp_all add: sd1_def)
    ultimately show ?thesis using less.hyps [of sd1] fl q1 pl(2,3,7) by (simp add: sd1_def)
  qed
qed

lemma flush_local_ok:
  assumes inv: "sched_inv sd" and w: "w < length (sd_locals sd)"
  shows "\<exists>sd'. flush_local (Some w) sd = Some (Inr sd') \<and> sched_inv sd' \<and> queued sd' = queued sd \<and>
    ws_handoff (sd_slots sd' ! w) = None \<and> contents (sd_locals sd' ! w) = [] \<and> length (sd_locals sd') = length (sd_locals sd)"
proof -
  obtain h sd1 where t: "slot_take w sd = (h, sd1)" by (cases "slot_take w sd")
  note tk = slot_take_ok [OF inv w t]
  define sd2 where "sd2 = (case h of Some s \<Rightarrow> sd1\<lparr>sd_injector := sd_injector sd1 @ [s]\<rparr> | None \<Rightarrow> sd1)"
  have sd2: "sched_core sd2" "queued sd2 = queued sd" "sd_pending sd2 = sd_pending sd" "sd_locals sd2 = sd_locals sd" "sd_slots sd2 = sd_slots sd1"
    using tk(1-5) injector_ok [of sd1] by (auto simp: sd2_def split: option.splits)
  obtain sd3 where sd3: "flush_loop w sd2 = Some (Inr sd3)" "sched_core sd3" "queued sd3 = queued sd2" "sd_pending sd3 = sd_pending sd2"
    "contents (sd_locals sd3 ! w) = []" "sd_slots sd3 = sd_slots sd2" "length (sd_locals sd3) = length (sd_locals sd2)"
    using flush_loop_ok [OF sd2(1)] w sd2(4) by auto
  have "flush_local (Some w) sd = Some (Inr (clear_stealable w sd3))"
    using t sd3(1) by (cases h) (simp_all add: flush_local_def Let_def sd2_def)
  moreover have "same_content sd3 (clear_stealable w sd3)" by simp
  then have "sched_inv (clear_stealable w sd3)" "queued (clear_stealable w sd3) = queued sd"
    using sd3 sd2 inv same_content_queued [of sd3 "clear_stealable w sd3"] by (auto simp: sched_inv_def same_content_def)
  ultimately show ?thesis using sd3(5-7) sd2(4,5) tk(7) by (simp add: clear_stealable_def)
qed

section \<open>Construction\<close>

lemma block_params: "1 \<le> (6 :: nat)" "(6 :: nat) < 64" "0 < BLOCK_SIZE" "BLOCK_SIZE < 256" "NUM_BLOCKS = 2 ^ 6"
  by (simp_all add: BLOCK_SIZE_def NUM_BLOCKS_def)

lemma new_locals_ok:
  "\<exists>qs :: 's lifo_queue list. new_locals n = Some (Inr qs) \<and> length qs = n \<and>
     (\<forall>q \<in> set qs. queue_inv BLOCK_SIZE q \<and> contents q = [] \<and> sequences_left q)"
proof (induction n)
  case (Suc n)
  obtain q :: "'s lifo_queue" where "new_queue NUM_BLOCKS BLOCK_SIZE = Some (Inr q)" "queue_inv BLOCK_SIZE q" "contents q = []" "sequences_left q"
    using new_queue_ok [OF block_params(1-4)] block_params(5) by metis
  then show ?case using Suc by auto
qed simp

lemma sum_list_empty: "(\<And>x. x \<in> set xs \<Longrightarrow> f x = {#}) \<Longrightarrow> sum_list (map f xs) = {#}"
  by (induction xs) auto

lemma new_scheduler_ok:
  "\<exists>sd :: 's scheduler. new_scheduler n = Some (Inr sd) \<and> sched_inv sd \<and> queued sd = {#} \<and> sched_fresh sd \<and>
     length (sd_locals sd) = max n 1"
proof -
  obtain qs :: "'s lifo_queue list" where qs: "new_locals (max n 1) = Some (Inr qs)" "length qs = max n 1"
    "\<forall>q \<in> set qs. queue_inv BLOCK_SIZE q \<and> contents q = [] \<and> sequences_left q"
    using new_locals_ok by metis
  define sd :: "'s scheduler" where "sd = \<lparr>sd_locals = qs, sd_slots = map new_slot [0..<max n 1], sd_injector = [], sd_pending = 0,
     sd_idle = replicate ((max n 1 + 63) div 64) 0, sd_searching = 0, sd_max_searchers = of_nat (max (max n 1 div 2) 1),
     sd_stealable = replicate ((max n 1 + 63) div 64) 0, sd_quit = False\<rparr>"
  have new: "new_scheduler n = Some (Inr sd)" using qs(1) by (simp add: new_scheduler_def Let_def sd_def)
  have "handoffs sd = {#}" unfolding handoffs_def by (rule sum_list_empty) (auto simp: sd_def new_slot_def)
  moreover have "in_locals sd = {#}" unfolding in_locals_def by (rule sum_list_empty) (use qs(3) in \<open>auto simp: sd_def\<close>)
  ultimately have q: "queued sd = {#}" by (simp add: queued_def sd_def)
  have "bit_test i (sd_idle sd) = False" if "i < 64 * length (sd_idle sd)" for i
  proof -
    have "i div 64 < length (sd_idle sd)" using that by (simp add: less_mult_imp_div_less mult.commute)
    then show ?thesis by (simp add: bit_test_bit sd_def)
  qed
  then have "sched_core sd" using qs(2,3) by (auto simp: sched_core_def sd_def)
  then have "sched_inv sd" using q by (simp add: sched_inv_def) (simp add: sd_def)
  then show ?thesis using new q qs(2,3) by (auto simp: sched_fresh_def sd_def)
qed

section \<open>The operations return\<close>

lemma place_total:
  assumes "sched_core sd" "sched_fresh sd" "valid_caller me sd"
  shows "\<exists>sd'. place me s sd = Some (Inr sd')"
proof (cases me)
  case (Some w)
  then have w: "w < length (sd_locals sd)" using assms(3) by (simp add: valid_caller_def)
  then have "sequences_left (sd_locals sd ! w)" using assms(2) by (simp add: sched_fresh_def)
  then obtain r q where "push_back s (sd_locals sd ! w) = Some (Inr (r, q))"
    using push_back_ok [OF local_inv [OF assms(1) w], of s] by metis
  then show ?thesis using Some by (simp add: place_def Let_def)
qed (simp add: place_def)

lemma sched_push_total:
  assumes inv: "sched_inv sd" and fresh: "sched_fresh sd" and me: "valid_caller me sd"
  shows "\<exists>sd'. sched_push me s sd = Some (Inr sd')"
proof -
  define sd1 where "sd1 = sd\<lparr>sd_pending := sd_pending sd + 1\<rparr>"
  have core: "sched_core sd1" using inv by (simp add: sd1_def sched_inv_def)
  obtain r sd2 where c: "claim_idle sd1 = (r, sd2)" by (cases "claim_idle sd1")
  have core2: "sched_core sd2" and same2: "same_content sd1 sd2"
    using c core claim_idle_None [of sd1 sd2] claim_idle_Some [OF core] core_idle [OF core] by (cases r; auto)+
  have "sched_fresh sd2" "valid_caller me sd2"
    using fresh me same2 by (auto simp: sched_fresh_def valid_caller_def same_content_def sd1_def split: option.splits)
  then obtain sd3 where pl: "place me s sd2 = Some (Inr sd3)" using place_total [OF core2] by blast
  have off: "slot_offer w s sd2 = (None, sd4) \<or> slot_offer w s sd2 = (Some s, sd2)" if "sd4 = snd (slot_offer w s sd2)" for w sd4
    using that by (auto simp: slot_offer_def offer_raw_def split: option.splits)
  show ?thesis
  proof (cases r)
    case None
    then show ?thesis using c pl unfolding sched_push_def sd1_def [symmetric] Let_def by simp
  next
    case (Some w)
    obtain o' sd4 where o': "slot_offer w s sd2 = (o', sd4)" by (cases "slot_offer w s sd2")
    then have "o' = None \<or> o' = Some s \<and> sd4 = sd2" using off [OF refl, of w] by auto
    then show ?thesis using c pl Some o' unfolding sched_push_def sd1_def [symmetric] Let_def by auto
  qed
qed

lemma steal_from_total:
  assumes "sched_core sd" "sched_fresh sd" "\<forall>v \<in> set victims. v < length (sd_locals sd)"
  shows "\<exists>r sd'. steal_from w victims attempts sd = Some (Inr (r, sd'))"
  using assms
proof (induction victims arbitrary: attempts sd)
  case (Cons victim victims)
  define sd1 where "sd1 = sd\<lparr>sd_stealable := bit_clear victim (sd_stealable sd)\<rparr>"
  have core1: "sched_core sd1" "sd_locals sd1 = sd_locals sd" using Cons.prems(1) by (auto simp: sd1_def sched_core_def)
  have v: "victim < length (sd_locals sd)" using Cons.prems(3) by simp
  then have left: "sequences_left (sd_locals sd ! victim)" using Cons.prems(2) by (simp add: sched_fresh_def)
  obtain r q where st: "steal_front (sd_locals sd ! victim) = Some (Inr (r, q))" "queue_inv BLOCK_SIZE q"
    "length (q_blocks q) = length (q_blocks (sd_locals sd ! victim))" "q_last q = q_last (sd_locals sd ! victim)"
    using steal_front_ok [OF local_inv [OF Cons.prems(1) v]] left by metis
  have "sequences_left q" using left st(3,4) by (simp add: sequences_left_def)
  then have "sched_fresh (set_local victim q sd1)"
    using Cons.prems(2) set_update_subset_insert [of "sd_locals sd" victim q] core1(2) by (auto simp: sched_fresh_def set_local_def)
  moreover have "sched_core (set_local victim q sd1)" using set_local_ok(1) [OF core1(1) _ st(2), of victim] v core1(2) by simp
  ultimately have IH: "\<exists>r sd'. steal_from w victims (attempts + 1) (set_local victim q sd1) = Some (Inr (r, sd'))"
    using Cons.IH Cons.prems(3) core1(2) by (simp add: set_local_def)
  show ?case
    using Cons.IH [of sd attempts] Cons.prems st(1) IH core1(2)
    by (auto simp: take_stealable_def is_stealable_def sd1_def [symmetric] Let_def split: option.splits)
qed simp

lemma pop_runnable_total:
  assumes inv: "sched_inv sd" and fresh: "sched_fresh sd" and me: "valid_caller me sd"
  shows "\<exists>r sd'. pop_runnable me sd = Some (Inr (r, sd'))"
proof (cases me)
  case (Some w)
  then have w: "w < length (sd_locals sd)" using me by (simp add: valid_caller_def)
  have steal: "\<exists>r sd'. sched_steal w sd1 = Some (Inr (r, sd'))" if core: "sched_core sd1" "sched_fresh sd1" for sd1 :: "'a scheduler"
  proof (cases "length (sd_locals sd1) < 2")
    case False
    then have "sd_locals sd1 \<noteq> []" by auto
    then show ?thesis
      using steal_from_total [of "update_slot w (\<lambda>_. snd (next_random (sd_slots sd1 ! w))) sd1"] core False
      by (simp add: sched_steal_def Let_def split_beta sched_fresh_def) (simp add: update_slot_def)
  qed (simp add: sched_steal_def)
  have rest: "\<exists>r sd'. pop_rest w sd1 = Some (Inr (r, sd'))"
    if core: "sched_core sd1" and fr: "sched_fresh sd1" and w1: "w < length (sd_locals sd1)" for sd1 :: "'a scheduler"
  proof -
    obtain r q where q: "pop_back (sd_locals sd1 ! w) = Some (Inr (r, q))" "queue_inv BLOCK_SIZE q"
      "length (q_blocks q) = length (q_blocks (sd_locals sd1 ! w))" "unat (q_last q) \<le> unat (q_last (sd_locals sd1 ! w))"
      using pop_loop_ok [OF local_inv [OF core w1]] unfolding pop_back_def by blast
    have "sequences_left (sd_locals sd1 ! w)" using fr w1 by (simp add: sched_fresh_def)
    then have "sequences_left q"
      using q(3,4) div_le_mono [of "Suc (unat (q_last q))" "Suc (unat (q_last (sd_locals sd1 ! w)))" "length (q_blocks q)"]
      by (simp add: sequences_left_def)
    then have "sched_fresh (set_local w q sd1)"
      using fr set_update_subset_insert [of "sd_locals sd1" w q] by (auto simp: sched_fresh_def set_local_def)
    then show ?thesis
      using steal [OF set_local_ok(1) [OF core w1 q(2)]] q(1)
      by (cases r) (auto simp: pop_rest_def pop_local_def pop_injector_def split: list.splits)
  qed
  obtain h sd1 where t: "slot_take w sd = (h, sd1)" by (cases "slot_take w sd")
  note tk = slot_take_ok [OF inv w t]
  define sd2 where "sd2 = update_slot w (\<lambda>slot. slot\<lparr>ws_tick := ws_tick (sd_slots sd1 ! w) + 1\<rparr>) sd1"
  have "sched_core sd2" "sched_fresh sd2" "w < length (sd_locals sd2)"
    using tk fresh w by (simp_all add: sd2_def sched_fresh_def) (simp_all add: update_slot_def)
  then show ?thesis
    using rest [of sd2] Some t
    by (cases h) (auto simp: pop_runnable_def Let_def sd2_def [symmetric] pop_injector_def split: list.splits)
qed (simp add: pop_runnable_def)

lemma place_settles:
  assumes "sched_core sd" "valid_caller me sd"
  shows "settles sequence_panics (place me s sd) (\<lambda>_. True)"
proof (cases me)
  case (Some w)
  then have w: "w < length (sd_locals sd)" using assms(2) by (simp add: valid_caller_def)
  note q = local_inv [OF assms(1) w]
  have "settles sequence_panics (push_back s (sd_locals sd ! w)) (\<lambda>_. True)"
  proof (cases "sequences_left (sd_locals sd ! w)")
    case True
    then show ?thesis by (rule push_back_ok [OF q, where v = s]) simp_all
  next
    case False
    then show ?thesis using push_exhausted [OF q, of s] by auto
  qed
  then have "settles sequence_panics (obind (push_back s (sd_locals sd ! w)) (\<lambda>x. Some (Inr (g x)))) (\<lambda>_. True)" for g
    by (rule settles_bind) simp
  then show ?thesis using Some by (simp add: place_def Let_def split_def)
qed (simp add: place_def)

lemma sched_push_returns:
  assumes inv: "sched_inv sd" and me: "valid_caller me sd"
  shows "settles sequence_panics (sched_push me s sd) (\<lambda>_. True)"
proof -
  define sd1 where "sd1 = sd\<lparr>sd_pending := sd_pending sd + 1\<rparr>"
  have core: "sched_core sd1" using inv by (simp add: sd1_def sched_inv_def)
  obtain r sd2 where c: "claim_idle sd1 = (r, sd2)" by (cases "claim_idle sd1")
  have core2: "sched_core sd2" and same2: "same_content sd1 sd2"
    using c core claim_idle_None [of sd1 sd2] claim_idle_Some [OF core] core_idle [OF core] by (cases r; auto)+
  have "valid_caller me sd2" using me same2 by (auto simp: valid_caller_def same_content_def sd1_def split: option.splits)
  then have pl: "settles sequence_panics (obind (place me s sd2) (\<lambda>x. Some (Inr (g x)))) (\<lambda>_. True)" for g
    by (intro settles_bind [OF place_settles [OF core2]]) simp_all
  have off: "slot_offer w s sd2 = (None, snd (slot_offer w s sd2)) \<or> slot_offer w s sd2 = (Some s, sd2)" for w
    by (auto simp: slot_offer_def offer_raw_def split: option.splits)
  show ?thesis
  proof (cases r)
    case None
    then show ?thesis using c unfolding sched_push_def sd1_def [symmetric] Let_def by (auto intro: pl)
  next
    case (Some w)
    show ?thesis
      using off [of w] pl c Some unfolding sched_push_def sd1_def [symmetric] Let_def by (auto split: prod.splits)
  qed
qed

lemma sched_push_settles:
  assumes inv: "sched_inv sd" and me: "valid_caller me sd"
  shows "settles sequence_panics (sched_push me s sd) (\<lambda>sd'. sched_inv sd' \<and> valid_caller me sd')"
proof (rule settles_mono [OF settles_conj [OF sched_push_returns [OF assms]]])
  show "returns (sched_push me s sd) (\<lambda>sd'. sched_inv sd' \<and> valid_caller me sd')"
    using sched_push_ok [OF assms] me by (auto simp: returns_def valid_caller_def split: option.splits)
qed simp

section \<open>The quit flag\<close>

lemma quit_frame [simp]:
  "sd_quit (update_slot w f sd) = sd_quit sd" "sd_quit (set_local w q sd) = sd_quit sd"
  "sd_quit (mark_stealable w sd) = sd_quit sd" "sd_quit (snd (take_stealable w sd)) = sd_quit sd"
  "sd_quit (clear_stealable w sd) = sd_quit sd"
  "sd_quit (mark_idle w sd) = sd_quit sd" "sd_quit (clear_idle w sd) = sd_quit sd"
  "sd_quit (snd (claim_idle sd)) = sd_quit sd" "sd_quit (wake_one sd) = sd_quit sd"
  "sd_quit (snd (slot_offer w s sd)) = sd_quit sd" "sd_quit (snd (slot_take w sd)) = sd_quit sd"
  "sd_quit (snd (pop_injector sd)) = sd_quit sd" "sd_quit (set_quit sd)" "sd_quit (poke sd) = sd_quit sd"
  by (auto simp: update_slot_def set_local_def mark_stealable_def take_stealable_def clear_stealable_def mark_idle_def
      clear_idle_def claim_idle_def wake_one_def slot_offer_def slot_take_def pop_injector_def set_quit_def poke_def
      split: option.splits list.splits prod.splits sum.splits)

lemma place_quit: "returns (place me s sd) (\<lambda>sd'. sd_quit sd' = sd_quit sd)"
proof (cases me)
  case (Some w)
  then show ?thesis
    by (auto simp: place_def Let_def intro!: returns_bind_any split: sum.split pushed.split)
qed (simp add: place_def)

lemma sched_push_quit: "returns (sched_push me s sd) (\<lambda>sd'. sd_quit sd' = sd_quit sd)"
proof -
  define sd1 where "sd1 = sd\<lparr>sd_pending := sd_pending sd + 1\<rparr>"
  have q: "sd_quit sd1 = sd_quit sd" by (simp add: sd1_def)
  obtain r sd2 where c: "claim_idle sd1 = (r, sd2)" by (cases "claim_idle sd1")
  have q2: "sd_quit sd2 = sd_quit sd" using q c quit_frame(8) [of sd1] by simp
  show ?thesis
  proof (cases r)
    case None
    then show ?thesis
      unfolding sched_push_def sd1_def [symmetric] Let_def using c q q2
      by (auto intro!: returns_bind [OF place_quit])
  next
    case (Some w)
    obtain r3 sd3 where o: "slot_offer w s sd2 = (r3, sd3)" by (cases "slot_offer w s sd2")
    have q3: "sd_quit sd3 = sd_quit sd" using q2 o quit_frame(10) [of w s sd2] by simp
    then show ?thesis
      unfolding sched_push_def sd1_def [symmetric] Let_def using c q Some o
      by (cases r3) (auto intro!: returns_bind [OF place_quit])
  qed
qed

lemma steal_from_quit:
  fixes sd :: "'a scheduler"
  shows "returns (steal_from w vs k sd) (\<lambda>x. sd_quit (snd x) = sd_quit sd)"
proof (induction vs arbitrary: k sd)
  case (Cons v vs)
  obtain t sd1 where t: "take_stealable v sd = (t, sd1)" by (cases "take_stealable v sd")
  have q: "sd_quit sd1 = sd_quit sd" using t quit_frame(4) [of v sd] by simp
  have ih: "returns (steal_from w vs k' sd') (\<lambda>x. sd_quit (snd x) = sd_quit sd)" if "sd_quit sd' = sd_quit sd" for k' and sd' :: "'a scheduler"
    using Cons.IH [of k' sd'] that by simp
  show ?case
    using t q ih by (cases t) (auto intro!: returns_bind_any simp: Let_def split: option.split)
qed simp

lemma pop_runnable_quit:
  fixes sd :: "'a scheduler"
  shows "returns (pop_runnable me sd) (\<lambda>x. sd_quit (snd x) = sd_quit sd)"
proof (cases me)
  case (Some w)
  have steal: "returns (sched_steal w sd') (\<lambda>x. sd_quit (snd x) = sd_quit sd)" if "sd_quit sd' = sd_quit sd" for sd' :: "'a scheduler"
    using that by (simp add: sched_steal_def Let_def split_beta returns_mono [OF steal_from_quit])
  have inj: "sd_quit sd2 = sd_quit sd'" if "pop_injector sd' = (r, sd2)" for r sd2 and sd' :: "'a scheduler"
    using that quit_frame(12) [of sd'] by simp
  have loc: "returns (pop_local w sd') (\<lambda>x. sd_quit (snd x) = sd_quit sd')" for sd' :: "'a scheduler"
    by (auto simp: pop_local_def intro!: returns_bind_any)
  have rest: "returns (pop_rest w sd') (\<lambda>x. sd_quit (snd x) = sd_quit sd)" if "sd_quit sd' = sd_quit sd" for sd' :: "'a scheduler"
    unfolding pop_rest_def
    by (rule returns_bind [OF loc]) (use that steal inj in \<open>auto split: option.split prod.split\<close>)
  obtain r sd1 where t: "slot_take w sd = (r, sd1)" by (cases "slot_take w sd")
  define sd2 where "sd2 = update_slot w (\<lambda>slot. slot\<lparr>ws_tick := ws_tick (sd_slots sd1 ! w) + 1\<rparr>) sd1"
  obtain r3 sd3 where p: "pop_injector sd2 = (r3, sd3)" by (cases "pop_injector sd2")
  have "sd_quit sd1 = sd_quit sd" using t quit_frame(11) [of w sd] by simp
  moreover have "sd_quit sd2 = sd_quit sd" using calculation by (simp add: sd2_def)
  moreover have "sd_quit sd3 = sd_quit sd" using calculation inj [OF p] by simp
  ultimately show ?thesis
    using Some t p rest unfolding pop_runnable_def Let_def
    by (cases r; cases r3) (simp_all add: sd2_def [symmetric])
qed (simp add: pop_runnable_def)

section \<open>Properties\<close>

text \<open>The operations of a scheduler by callers, and a run of them: services pushed and services taken.\<close>

datatype 's sched_op = SPush "nat option" 's | SPop "nat option" | SFlush nat | SPoke

fun sched_run :: "'s sched_op list \<Rightarrow> 's scheduler \<Rightarrow> ('s list \<times> 's list \<times> 's scheduler) outcome option" where
  "sched_run [] sd = Some (Inr ([], [], sd))"
| "sched_run (SPush me s # ops) sd =
     obind (sched_push me s sd) (\<lambda>sd. obind (sched_run ops sd) (\<lambda>(a, t, sd). Some (Inr (s # a, t, sd))))"
| "sched_run (SPop me # ops) sd =
     obind (pop_runnable me sd) (\<lambda>(r, sd). obind (sched_run ops sd) (\<lambda>(a, t, sd).
       Some (Inr (a, (case r of None \<Rightarrow> t | Some s \<Rightarrow> s # t), sd))))"
| "sched_run (SFlush w # ops) sd = obind (flush_local (Some w) sd) (\<lambda>sd. sched_run ops sd)"
| "sched_run (SPoke # ops) sd = sched_run ops (poke sd)"

fun op_caller :: "'s sched_op \<Rightarrow> nat option" where
  "op_caller (SPush me s) = me"
| "op_caller (SPop me) = me"
| "op_caller (SFlush w) = Some w"
| "op_caller SPoke = None"

lemma sched_run_ok:
  assumes "sched_inv sd" "list_all (\<lambda>op. valid_caller (op_caller op) sd) ops" "sched_run ops sd = Some (Inr (a, t, sd'))"
  shows "sched_inv sd' \<and> queued sd + mset a = mset t + queued sd'"
  using assms
proof (induction ops arbitrary: sd a t)
  case (Cons op ops)
  have vc: "list_all (\<lambda>op. valid_caller (op_caller op) sd1) ops" if "length (sd_locals sd1) = length (sd_locals sd)" for sd1 :: "'a scheduler"
    using Cons.prems(2) that by (auto simp: list_all_iff valid_caller_def split: option.splits)
  show ?case
  proof (cases op)
    case (SPush me s)
    then obtain sd1 a1 where p: "sched_push me s sd = Some (Inr sd1)" "sched_run ops sd1 = Some (Inr (a1, t, sd'))" "a = s # a1"
      using Cons.prems(3) by (auto simp: obind_Inr)
    have ok: "sched_inv sd1 \<and> queued sd1 = add_mset s (queued sd) \<and> length (sd_locals sd1) = length (sd_locals sd)"
      using sched_push_ok [OF Cons.prems(1) _ p(1)] Cons.prems(2) SPush by simp
    then show ?thesis using Cons.IH [OF _ vc p(2)] p(3) by simp
  next
    case (SPop me)
    then obtain r sd1 t1 where p: "pop_runnable me sd = Some (Inr (r, sd1))" "sched_run ops sd1 = Some (Inr (a, t1, sd'))"
      "t = (case r of None \<Rightarrow> t1 | Some s \<Rightarrow> s # t1)"
      using Cons.prems(3) by (auto simp: obind_Inr)
    have "took r sd sd1" using pop_runnable_ok(1) [OF Cons.prems(1) _ p(1)] Cons.prems(2) SPop by simp
    then show ?thesis using Cons.IH [OF _ vc p(2)] p(3) by (auto simp: took_def split: option.splits)
  next
    case (SFlush w)
    then obtain sd1 where p: "flush_local (Some w) sd = Some (Inr sd1)" "sched_run ops sd1 = Some (Inr (a, t, sd'))"
      using Cons.prems(3) by (auto simp: obind_Inr)
    have w: "w < length (sd_locals sd)" using Cons.prems(2) SFlush by (simp add: valid_caller_def)
    have ok: "sched_inv sd1" "queued sd1 = queued sd" "length (sd_locals sd1) = length (sd_locals sd)"
      using flush_local_ok [OF Cons.prems(1) w] p(1) by auto
    then show ?thesis using Cons.IH [OF ok(1) vc p(2)] by simp
  next
    case SPoke
    have same: "same_content sd (poke sd)" "sched_core (poke sd)"
      using wake_one_ok [of sd] Cons.prems(1) by (auto simp: poke_def sched_inv_def)
    have inv: "sched_inv (poke sd)" by (rule inv_content [OF Cons.prems(1) same(2,1)])
    have r: "sched_run ops (poke sd) = Some (Inr (a, t, sd'))" using Cons.prems(3) SPoke by simp
    have "length (sd_locals (poke sd)) = length (sd_locals sd)" using same(1) by (simp add: same_content_def)
    then show ?thesis using Cons.IH [OF inv vc r] same_content_queued [OF same(1)] by simp
  qed
qed simp



text \<open>
  C36: A worker that asks for a service gets an answer, and it goes away empty-handed only if nothing
  was in its own handoff slot, in its own queue or in the injector; the services and the counter
  change together.
\<close>

theorem worker_pop_complete:
  assumes "sched_inv sd" "sched_fresh sd" "w < length (sd_locals sd)" "size (queued sd) < 2 ^ 64"
  shows "\<exists>r sd'. pop_runnable (Some w) sd = Some (Inr (r, sd')) \<and> sched_inv sd' \<and>
    (case r of
       Some s \<Rightarrow> queued sd = add_mset s (queued sd')
     | None \<Rightarrow> queued sd' = queued sd \<and> ws_handoff (sd_slots sd ! w) = None \<and> sd_injector sd = [] \<and> contents (sd_locals sd ! w) = [])"
proof -
  have me: "valid_caller (Some w) sd" using assms(3) by (simp add: valid_caller_def)
  obtain r sd' where r: "pop_runnable (Some w) sd = Some (Inr (r, sd'))" using pop_runnable_total [OF assms(1,2) me] by blast
  show ?thesis using r pop_runnable_ok [OF assms(1) me r] assms(4) by (auto simp: took_def split: option.splits)
qed

theorem worker_pop_complete_witness:
  "\<exists>sd :: nat scheduler. new_scheduler 2 = Some (Inr sd) \<and> (\<exists>r sd'. pop_runnable (Some 1) sd = Some (Inr (r, sd')) \<and> r = None)"
proof -
  obtain sd :: "nat scheduler" where sd: "new_scheduler 2 = Some (Inr sd)" "sched_inv sd" "sched_fresh sd" "length (sd_locals sd) = Suc (Suc 0)" "queued sd = {#}"
    using new_scheduler_ok [of 2] by auto
  have "\<exists>r sd'. pop_runnable (Some 1) sd = Some (Inr (r, sd')) \<and> r = None"
    using worker_pop_complete [OF sd(2,3), of 1] sd(4,5) by (auto split: option.splits)
  then show ?thesis using sd(1) by blast
qed

end
