(* ===== verification/Wakeup.thy ===== *)
theory Wakeup
  imports Prelude
begin

text \<open>
  The wake-up protocol of the scheduler (\<^verbatim>\<open>push\<close>, \<^verbatim>\<open>pop_runnable\<close>, \<^verbatim>\<open>find_work_or_park\<close> and
  \<^verbatim>\<open>claim_idle\<close> in \<^verbatim>\<open>rskynet-core/src/mq.rs\<close>) as atomic steps of any number of threads, of which the
  first n are workers.  Services are counted, not named: the injector and the local queues are
  numbers, a handoff slot is full or empty.  Steals may fail at will, as in the source.  Every load,
  store, read-modify-write and queue operation is one step, and steps interleave arbitrarily, in one
  sequentially consistent order (the source pairs sequentially consistent fences at the points that
  matter; weaker orders are not modelled).  The number of search rounds is left open, which covers
  \<^verbatim>\<open>max_searchers\<close>.  The quit flag, which only makes a worker return earlier, and \<^verbatim>\<open>flush_local\<close>, which a
  worker calls after it, are left out.
\<close>

section \<open>State\<close>

text \<open>Which call of \<^verbatim>\<open>pop\<close> a worker is in: from its main loop, while spinning, or the last before parking.\<close>

datatype pop_call = CRun | CSpin | CLast

text \<open>
  Where a thread is.  Pushing: about to look at the counter of searchers, to push to the injector, to
  look again, to test an idle bit (to hand over, or only to wake), to offer to a claimed worker, to
  place the service and then wake it, to place it with nobody to wake, to unpark.  Taking: about
  to look into the slot, at the counter, into the injector, its own queue, the injector again, to
  steal, to decrement the counter.  Searching: about to count itself, between rounds, about to leave with a
  service, to set the idle bit, to uncount itself, to park; parked; about to clear the idle bit.
\<close>

datatype wphase =
    Out
  | PLook | PInj | PRe | PTest nat | PClaim nat | POffer nat | PPlaceW nat | PPlace | PWake nat
  | QHand pop_call | QChk pop_call | QInj1 pop_call | QLoc pop_call | QInj2 pop_call | QSteal pop_call | QDec pop_call
  | SInc | Spin | SFound | SMark | SDec
  | LPark | LSleep | LClear

record wsys =
  wk_inj :: nat
  wk_hand :: "nat \<Rightarrow> bool"
  wk_loc :: "nat \<Rightarrow> nat"
  wk_pending :: nat
  wk_searching :: nat
  wk_idle :: "nat \<Rightarrow> bool"
  wk_token :: "nat \<Rightarrow> bool"
  wk_ph :: "nat \<Rightarrow> wphase"

definition init_wsys :: wsys where
  "init_wsys = \<lparr>wk_inj = 0, wk_hand = (\<lambda>_. False), wk_loc = (\<lambda>_. 0), wk_pending = 0, wk_searching = 0,
     wk_idle = (\<lambda>_. False), wk_token = (\<lambda>_. False), wk_ph = (\<lambda>_. Out)\<rparr>"

abbreviation at :: "nat \<Rightarrow> wphase \<Rightarrow> wsys \<Rightarrow> wsys" where
  "at t p s \<equiv> s\<lparr>wk_ph := (wk_ph s)(t := p)\<rparr>"

text \<open>Where a worker goes when a call of \<^verbatim>\<open>pop\<close> finds nothing, and when it has found something.\<close>

fun after_none :: "pop_call \<Rightarrow> wphase" where
  "after_none CRun = Out"
| "after_none CSpin = Spin"
| "after_none CLast = LPark"

fun after_some :: "pop_call \<Rightarrow> wphase" where
  "after_some CRun = Out"
| "after_some CSpin = SFound"
| "after_some CLast = LClear"

section \<open>Steps\<close>

text \<open>
  \<^verbatim>\<open>push\<close>, with \<^verbatim>\<open>place\<close> and \<^verbatim>\<open>claim_idle\<close>, and \<^verbatim>\<open>poke\<close>, by a worker or by another thread.
  \<^verbatim>\<open>claim_idle\<close> tests the bits one at a time in their order; the load of a whole word and its
  compare-and-swap are runs of such tests with nothing in between.
\<close>

inductive push_step :: "nat \<Rightarrow> wsys \<Rightarrow> wsys \<Rightarrow> bool" for n :: nat where
  start: "wk_ph s t = Out \<Longrightarrow> push_step n s (at t PLook (s\<lparr>wk_pending := wk_pending s + 1\<rparr>))"
| look_some: "\<lbrakk>wk_ph s t = PLook; 0 < wk_searching s\<rbrakk> \<Longrightarrow> push_step n s (at t PInj s)"
| look_none: "\<lbrakk>wk_ph s t = PLook; wk_searching s = 0\<rbrakk> \<Longrightarrow> push_step n s (at t (PClaim 0) s)"
| inject: "wk_ph s t = PInj \<Longrightarrow> push_step n s (at t PRe (s\<lparr>wk_inj := wk_inj s + 1\<rparr>))"
| again_some: "\<lbrakk>wk_ph s t = PRe; 0 < wk_searching s\<rbrakk> \<Longrightarrow> push_step n s (at t Out s)"
| again_none: "\<lbrakk>wk_ph s t = PRe; wk_searching s = 0\<rbrakk> \<Longrightarrow> push_step n s (at t (PTest 0) s)"
| test_hit: "\<lbrakk>wk_ph s t = PTest j; j < n; wk_idle s j\<rbrakk> \<Longrightarrow>
    push_step n s (at t (PWake j) (s\<lparr>wk_idle := (wk_idle s)(j := False)\<rparr>))"
| test_miss: "\<lbrakk>wk_ph s t = PTest j; j < n; \<not> wk_idle s j\<rbrakk> \<Longrightarrow> push_step n s (at t (PTest (Suc j)) s)"
| test_end: "\<lbrakk>wk_ph s t = PTest j; n \<le> j\<rbrakk> \<Longrightarrow> push_step n s (at t Out s)"
| claim_hit: "\<lbrakk>wk_ph s t = PClaim j; j < n; wk_idle s j\<rbrakk> \<Longrightarrow>
    push_step n s (at t (POffer j) (s\<lparr>wk_idle := (wk_idle s)(j := False)\<rparr>))"
| claim_miss: "\<lbrakk>wk_ph s t = PClaim j; j < n; \<not> wk_idle s j\<rbrakk> \<Longrightarrow> push_step n s (at t (PClaim (Suc j)) s)"
| claim_end: "\<lbrakk>wk_ph s t = PClaim j; n \<le> j\<rbrakk> \<Longrightarrow> push_step n s (at t PPlace s)"
| offer_ok: "\<lbrakk>wk_ph s t = POffer w; \<not> wk_hand s w\<rbrakk> \<Longrightarrow>
    push_step n s (at t (PWake w) (s\<lparr>wk_hand := (wk_hand s)(w := True)\<rparr>))"
| offer_full: "\<lbrakk>wk_ph s t = POffer w; wk_hand s w\<rbrakk> \<Longrightarrow> push_step n s (at t (PPlaceW w) s)"
| place_wake_local: "\<lbrakk>wk_ph s t = PPlaceW w; t < n\<rbrakk> \<Longrightarrow>
    push_step n s (at t (PWake w) (s\<lparr>wk_loc := (wk_loc s)(t := wk_loc s t + 1)\<rparr>))"
| place_wake_inj: "wk_ph s t = PPlaceW w \<Longrightarrow> push_step n s (at t (PWake w) (s\<lparr>wk_inj := wk_inj s + 1\<rparr>))"
| place_local: "\<lbrakk>wk_ph s t = PPlace; t < n\<rbrakk> \<Longrightarrow>
    push_step n s (at t Out (s\<lparr>wk_loc := (wk_loc s)(t := wk_loc s t + 1)\<rparr>))"
| place_inj: "wk_ph s t = PPlace \<Longrightarrow>
    push_step n s (at t (if t < n then Out else PRe) (s\<lparr>wk_inj := wk_inj s + 1\<rparr>))"
| wake: "wk_ph s t = PWake w \<Longrightarrow> push_step n s (at t Out (s\<lparr>wk_token := (wk_token s)(w := True)\<rparr>))"
| poke: "\<lbrakk>wk_ph s t = Out; 0 < wk_pending s\<rbrakk> \<Longrightarrow> push_step n s (at t (PTest 0) s)"

text \<open>\<^verbatim>\<open>pop_runnable\<close> by a worker, \<^verbatim>\<open>pop_injector\<close> by another thread.\<close>

inductive pop_step :: "nat \<Rightarrow> wsys \<Rightarrow> wsys \<Rightarrow> bool" for n :: nat where
  outside: "\<lbrakk>wk_ph s t = Out; n \<le> t; 0 < wk_inj s\<rbrakk> \<Longrightarrow> pop_step n s (at t (QDec CRun) (s\<lparr>wk_inj := wk_inj s - 1\<rparr>))"
| run: "\<lbrakk>wk_ph s t = Out; t < n\<rbrakk> \<Longrightarrow> pop_step n s (at t (QHand CRun) s)"
| spin: "wk_ph s t = Spin \<Longrightarrow> pop_step n s (at t (QHand CSpin) s)"
| hand_full: "\<lbrakk>wk_ph s t = QHand c; wk_hand s t\<rbrakk> \<Longrightarrow>
    pop_step n s (at t (QDec c) (s\<lparr>wk_hand := (wk_hand s)(t := False)\<rparr>))"
| hand_empty: "\<lbrakk>wk_ph s t = QHand c; \<not> wk_hand s t\<rbrakk> \<Longrightarrow> pop_step n s (at t (QChk c) s)"
| none_pending: "\<lbrakk>wk_ph s t = QChk c; wk_pending s = 0\<rbrakk> \<Longrightarrow> pop_step n s (at t (after_none c) s)"
| look_back: "\<lbrakk>wk_ph s t = QChk c; 0 < wk_pending s\<rbrakk> \<Longrightarrow> pop_step n s (at t (QInj1 c) s)"
| look_local: "\<lbrakk>wk_ph s t = QChk c; 0 < wk_pending s\<rbrakk> \<Longrightarrow> pop_step n s (at t (QLoc c) s)"
| inj1_full: "\<lbrakk>wk_ph s t = QInj1 c; 0 < wk_inj s\<rbrakk> \<Longrightarrow> pop_step n s (at t (QDec c) (s\<lparr>wk_inj := wk_inj s - 1\<rparr>))"
| inj1_empty: "\<lbrakk>wk_ph s t = QInj1 c; wk_inj s = 0\<rbrakk> \<Longrightarrow> pop_step n s (at t (QLoc c) s)"
| loc_full: "\<lbrakk>wk_ph s t = QLoc c; 0 < wk_loc s t\<rbrakk> \<Longrightarrow>
    pop_step n s (at t (QDec c) (s\<lparr>wk_loc := (wk_loc s)(t := wk_loc s t - 1)\<rparr>))"
| loc_empty: "\<lbrakk>wk_ph s t = QLoc c; wk_loc s t = 0\<rbrakk> \<Longrightarrow> pop_step n s (at t (QInj2 c) s)"
| inj2_full: "\<lbrakk>wk_ph s t = QInj2 c; 0 < wk_inj s\<rbrakk> \<Longrightarrow> pop_step n s (at t (QDec c) (s\<lparr>wk_inj := wk_inj s - 1\<rparr>))"
| inj2_empty: "\<lbrakk>wk_ph s t = QInj2 c; wk_inj s = 0\<rbrakk> \<Longrightarrow> pop_step n s (at t (QSteal c) s)"
| steal: "\<lbrakk>wk_ph s t = QSteal c; v < n; v \<noteq> t; 0 < wk_loc s v\<rbrakk> \<Longrightarrow>
    pop_step n s (at t (QDec c) (s\<lparr>wk_loc := (wk_loc s)(v := wk_loc s v - 1)\<rparr>))"
| steal_fails: "wk_ph s t = QSteal c \<Longrightarrow> pop_step n s (at t (after_none c) s)"
| taken: "wk_ph s t = QDec c \<Longrightarrow> pop_step n s (at t (after_some c) (s\<lparr>wk_pending := wk_pending s - 1\<rparr>))"

text \<open>\<^verbatim>\<open>find_work_or_park\<close> around its calls of \<^verbatim>\<open>pop\<close>; \<^verbatim>\<open>park\<close> may also return without a token.\<close>

inductive park_step :: "nat \<Rightarrow> wsys \<Rightarrow> wsys \<Rightarrow> bool" for n :: nat where
  search: "\<lbrakk>wk_ph s t = Out; t < n\<rbrakk> \<Longrightarrow> park_step n s (at t SInc s)"
| count: "wk_ph s t = SInc \<Longrightarrow> park_step n s (at t Spin (s\<lparr>wk_searching := wk_searching s + 1\<rparr>))"
| found: "wk_ph s t = SFound \<Longrightarrow> park_step n s (at t Out (s\<lparr>wk_searching := wk_searching s - 1\<rparr>))"
| give_up: "wk_ph s t = Spin \<Longrightarrow> park_step n s (at t SMark s)"
| mark: "wk_ph s t = SMark \<Longrightarrow> park_step n s (at t SDec (s\<lparr>wk_idle := (wk_idle s)(t := True)\<rparr>))"
| uncount: "wk_ph s t = SDec \<Longrightarrow> park_step n s (at t (QHand CLast) (s\<lparr>wk_searching := wk_searching s - 1\<rparr>))"
| park: "\<lbrakk>wk_ph s t = LPark; \<not> wk_token s t\<rbrakk> \<Longrightarrow> park_step n s (at t LSleep s)"
| unparked: "\<lbrakk>wk_ph s t = LPark \<or> wk_ph s t = LSleep; wk_token s t\<rbrakk> \<Longrightarrow>
    park_step n s (at t LClear (s\<lparr>wk_token := (wk_token s)(t := False)\<rparr>))"
| spurious: "wk_ph s t = LSleep \<Longrightarrow> park_step n s (at t LClear s)"
| clear: "wk_ph s t = LClear \<Longrightarrow> park_step n s (at t Out (s\<lparr>wk_idle := (wk_idle s)(t := False)\<rparr>))"

inductive wsys_reach :: "nat \<Rightarrow> wsys \<Rightarrow> bool" for n :: nat where
  init: "wsys_reach n init_wsys"
| push: "\<lbrakk>wsys_reach n s; push_step n s s'\<rbrakk> \<Longrightarrow> wsys_reach n s'"
| pop: "\<lbrakk>wsys_reach n s; pop_step n s s'\<rbrakk> \<Longrightarrow> wsys_reach n s'"
| park: "\<lbrakk>wsys_reach n s; park_step n s s'\<rbrakk> \<Longrightarrow> wsys_reach n s'"

section \<open>The invariant\<close>

fun worker_only :: "wphase \<Rightarrow> bool" where
  "worker_only (QHand c) = True" | "worker_only (QChk c) = True" | "worker_only (QInj1 c) = True"
| "worker_only (QLoc c) = True" | "worker_only (QInj2 c) = True" | "worker_only (QSteal c) = True"
| "worker_only (QDec c) = (c \<noteq> CRun)" | "worker_only SInc = True" | "worker_only Spin = True"
| "worker_only SFound = True" | "worker_only SMark = True" | "worker_only SDec = True" | "worker_only LPark = True"
| "worker_only LSleep = True" | "worker_only LClear = True" | "worker_only _ = False"

text \<open>The worker whose waking a pushing thread has taken on.\<close>

fun promised :: "wphase \<Rightarrow> nat option" where
  "promised (POffer w) = Some w" | "promised (PPlaceW w) = Some w" | "promised (PWake w) = Some w" | "promised _ = None"

fun searching_ph :: "wphase \<Rightarrow> bool" where
  "searching_ph Spin = True" | "searching_ph SFound = True" | "searching_ph SMark = True" | "searching_ph SDec = True"
| "searching_ph (QHand c) = (c = CSpin)" | "searching_ph (QChk c) = (c = CSpin)" | "searching_ph (QInj1 c) = (c = CSpin)"
| "searching_ph (QLoc c) = (c = CSpin)" | "searching_ph (QInj2 c) = (c = CSpin)" | "searching_ph (QSteal c) = (c = CSpin)"
| "searching_ph (QDec c) = (c = CSpin)" | "searching_ph _ = False"

text \<open>A thread that has counted a service which is not, or no longer, in a queue.\<close>

fun owes :: "wphase \<Rightarrow> bool" where
  "owes PLook = True" | "owes PInj = True" | "owes (PClaim j) = True" | "owes (POffer w) = True"
| "owes (PPlaceW w) = True" | "owes PPlace = True" | "owes (QDec c) = True" | "owes _ = False"

text \<open>On its way to sleep: since the idle bit was set; since its slot, its queue, the injector were empty.\<close>

fun going :: "wphase \<Rightarrow> bool" where
  "going SDec = True" | "going (QHand c) = (c = CLast)" | "going (QChk c) = (c = CLast)" | "going (QInj1 c) = (c = CLast)"
| "going (QLoc c) = (c = CLast)" | "going (QInj2 c) = (c = CLast)" | "going (QSteal c) = (c = CLast)"
| "going LPark = True" | "going LSleep = True" | "going _ = False"

fun past_hand :: "wphase \<Rightarrow> bool" where
  "past_hand (QChk c) = (c = CLast)" | "past_hand (QInj1 c) = (c = CLast)" | "past_hand (QLoc c) = (c = CLast)"
| "past_hand (QInj2 c) = (c = CLast)" | "past_hand (QSteal c) = (c = CLast)" | "past_hand LPark = True"
| "past_hand LSleep = True" | "past_hand _ = False"

fun past_loc :: "wphase \<Rightarrow> bool" where
  "past_loc (QInj2 c) = (c = CLast)" | "past_loc (QSteal c) = (c = CLast)" | "past_loc LPark = True"
| "past_loc LSleep = True" | "past_loc _ = False"

fun past_inj :: "wphase \<Rightarrow> bool" where
  "past_inj (QSteal c) = (c = CLast)" | "past_inj LPark = True" | "past_inj LSleep = True" | "past_inj _ = False"

text \<open>A pushing thread that has placed its service and has yet to look whom to wake.\<close>

fun fresh_ph :: "wphase \<Rightarrow> bool" where
  "fresh_ph PRe = True" | "fresh_ph (PTest j) = (j = 0)" | "fresh_ph _ = False"

definition rescued :: "wsys \<Rightarrow> nat \<Rightarrow> bool" where
  "rescued s w = (wk_token s w \<or> (\<exists>t. promised (wk_ph s t) = Some w))"

definition in_queues :: "nat \<Rightarrow> wsys \<Rightarrow> nat" where
  "in_queues n s = wk_inj s + (\<Sum>w<n. of_bool (wk_hand s w) + wk_loc s w)"

definition counts_ok :: "nat \<Rightarrow> wsys \<Rightarrow> bool" where [inv_defs]:
  "counts_ok n s =
     (finite {t. wk_ph s t \<noteq> Out} \<and> (\<forall>t. worker_only (wk_ph s t) \<longrightarrow> t < n) \<and>
      (\<forall>t w. promised (wk_ph s t) = Some w \<longrightarrow> w < n) \<and>
      wk_searching s = card {t. searching_ph (wk_ph s t)} \<and>
      wk_pending s = in_queues n s + card {t. owes (wk_ph s t)})"

definition wake_inv :: "nat \<Rightarrow> wsys \<Rightarrow> bool" where [inv_defs]:
  "wake_inv n s =
     ((\<forall>w<n. going (wk_ph s w) \<longrightarrow> wk_idle s w \<or> rescued s w) \<and>
      (\<forall>w<n. wk_hand s w \<longrightarrow> \<not> past_hand (wk_ph s w) \<or> rescued s w) \<and>
      (\<forall>w<n. 0 < wk_loc s w \<longrightarrow> \<not> past_loc (wk_ph s w)) \<and>
      (0 < wk_inj s \<longrightarrow> (\<exists>w<n. \<not> past_inj (wk_ph s w) \<or> rescued s w) \<or> (\<exists>t. fresh_ph (wk_ph s t))))"

section \<open>The counters\<close>

lemma card_phase_update:
  assumes fin: "finite {t. f t \<noteq> Out}" and out: "\<not> P Out"
  shows "card {x. P ((f(t := p)) x)} + of_bool (P (f t)) = card {x. P (f x)} + (of_bool (P p) :: nat)"
proof -
  have "{x. P (f x)} \<subseteq> {t. f t \<noteq> Out}" using out by auto
  then have fin': "finite {x. P (f x)}" using fin finite_subset by blast
  have eq: "{x. P ((f(t := p)) x)} = (if P p then insert t ({x. P (f x)} - {t}) else {x. P (f x)} - {t})" by auto
  have "card ({x. P (f x)} - {t}) + of_bool (P (f t)) = card {x. P (f x)}"
    using fin' card_Diff_singleton [of t "{x. P (f x)}"] card_gt_0_iff [of "{x. P (f x)}"] by (auto simp: Suc_diff_Suc)
  then show ?thesis unfolding eq using fin' by (auto simp: insert_absorb)
qed

lemma queues_loc: "w < n \<Longrightarrow> in_queues n (s\<lparr>wk_loc := (wk_loc s)(w := k)\<rparr>) + wk_loc s w = in_queues n s + k"
  by (simp add: in_queues_def sum.remove [of "{..<n}" w])

lemma queues_hand:
  "w < n \<Longrightarrow> in_queues n (s\<lparr>wk_hand := (wk_hand s)(w := b)\<rparr>) + of_bool (wk_hand s w) = in_queues n s + of_bool b"
  by (simp add: in_queues_def sum.remove [of "{..<n}" w])

lemma queues_frame [simp]:
  "in_queues n (s\<lparr>wk_ph := f\<rparr>) = in_queues n s" "in_queues n (s\<lparr>wk_idle := i\<rparr>) = in_queues n s"
  "in_queues n (s\<lparr>wk_token := k\<rparr>) = in_queues n s" "in_queues n (s\<lparr>wk_pending := p\<rparr>) = in_queues n s"
  "in_queues n (s\<lparr>wk_searching := q\<rparr>) = in_queues n s" "in_queues n (s\<lparr>wk_inj := j\<rparr>) + wk_inj s = in_queues n s + j"
  by (simp_all add: in_queues_def)

lemma counts_step:
  assumes c: "counts_ok n s" and ph: "wk_ph s1 = wk_ph s" and "worker_only p \<Longrightarrow> t < n"
    and "\<And>w. promised p = Some w \<Longrightarrow> w < n"
    and "wk_searching s1 + of_bool (searching_ph (wk_ph s t)) = wk_searching s + of_bool (searching_ph p)"
    and "wk_pending s1 + of_bool (owes (wk_ph s t)) + in_queues n s = wk_pending s + of_bool (owes p) + in_queues n s1"
  shows "counts_ok n (s1\<lparr>wk_ph := (wk_ph s)(t := p)\<rparr>)"
proof -
  define s' where "s' = s1\<lparr>wk_ph := (wk_ph s)(t := p)\<rparr>"
  have fin: "finite {t. wk_ph s t \<noteq> Out}" using c by (simp add: counts_ok_def)
  have "{x. wk_ph s' x \<noteq> Out} \<subseteq> insert t {t. wk_ph s t \<noteq> Out}" by (auto simp: s'_def ph)
  then have "finite {x. wk_ph s' x \<noteq> Out}" using fin finite_subset by blast
  moreover have "\<forall>x. worker_only (wk_ph s' x) \<longrightarrow> x < n" "\<forall>x w. promised (wk_ph s' x) = Some w \<longrightarrow> w < n"
    using c ph assms(3,4) by (auto simp: counts_ok_def s'_def)
  moreover have "wk_searching s' = card {x. searching_ph (wk_ph s' x)}"
    using card_phase_update [OF fin, of searching_ph t p] c assms(5) by (simp add: counts_ok_def ph s'_def)
  moreover have "wk_pending s' = in_queues n s' + card {x. owes (wk_ph s' x)}"
    using card_phase_update [OF fin, of owes t p] c assms(6) by (simp add: counts_ok_def ph s'_def)
  ultimately show ?thesis unfolding s'_def [symmetric] by (simp add: counts_ok_def)
qed

lemma counted:
  assumes c: "counts_ok n s"
  shows "searching_ph (wk_ph s t) \<Longrightarrow> 0 < wk_searching s" "owes (wk_ph s t) \<Longrightarrow> 0 < wk_pending s"
    "0 < wk_searching s \<Longrightarrow> \<exists>t<n. searching_ph (wk_ph s t)" "in_queues n s \<le> wk_pending s"
    "worker_only (wk_ph s t) \<Longrightarrow> t < n" "promised (wk_ph s t) = Some w \<Longrightarrow> w < n"
proof -
  have sub: "{t. searching_ph (wk_ph s t)} \<subseteq> {t. wk_ph s t \<noteq> Out}" "{t. owes (wk_ph s t)} \<subseteq> {t. wk_ph s t \<noteq> Out}" by auto
  have fin: "finite {t. searching_ph (wk_ph s t)}" "finite {t. owes (wk_ph s t)}"
    using c sub finite_subset unfolding counts_ok_def by blast+
  show "searching_ph (wk_ph s t) \<Longrightarrow> 0 < wk_searching s" "owes (wk_ph s t) \<Longrightarrow> 0 < wk_pending s"
    using c fin by (auto simp: counts_ok_def card_gt_0_iff)
  show "in_queues n s \<le> wk_pending s" "worker_only (wk_ph s t) \<Longrightarrow> t < n" "promised (wk_ph s t) = Some w \<Longrightarrow> w < n"
    using c by (auto simp: counts_ok_def)
  assume "0 < wk_searching s"
  then obtain t where t: "searching_ph (wk_ph s t)" using c fin by (auto simp: counts_ok_def card_gt_0_iff)
  then have "worker_only (wk_ph s t)" by (cases "wk_ph s t") auto
  then show "\<exists>t<n. searching_ph (wk_ph s t)" using t c by (auto simp: counts_ok_def)
qed

lemma queues_empty:
  assumes "in_queues n s = 0"
  shows "wk_inj s = 0" "w < n \<Longrightarrow> \<not> wk_hand s w \<and> wk_loc s w = 0"
  using assms by (auto simp: in_queues_def)

lemma counts_push:
  assumes c: "counts_ok n s" and "push_step n s s'"
  shows "counts_ok n s'"
  using assms(2)
proof cases
  case (offer_ok t w)
  then show ?thesis
    using c counted(6) [OF c, of t w] queues_hand [of w n s True]
    by (auto intro!: counts_step [OF c])
next
  case (place_wake_local t w)
  then show ?thesis
    using c counted(6) [OF c, of t w] queues_loc [of t n s "wk_loc s t + 1"]
    by (auto intro!: counts_step [OF c])
next
  case (place_local t)
  then show ?thesis using c queues_loc [of t n s "wk_loc s t + 1"] by (auto intro!: counts_step [OF c])
next
  case (offer_full t w)
  then show ?thesis using counted(6) [OF c, of t w] by (auto intro!: counts_step [OF c])
next
  case (place_wake_inj t w)
  then show ?thesis using counted(6) [OF c, of t w] by (auto intro!: counts_step [OF c] simp: in_queues_def)
qed (auto intro!: counts_step [OF c] simp: in_queues_def)

lemma counts_pop:
  assumes c: "counts_ok n s" and "pop_step n s s'"
  shows "counts_ok n s'"
  using assms(2)
proof cases
  case (hand_full t k)
  then show ?thesis
    using c counted(5) [OF c, of t] queues_hand [of t n s False] by (auto intro!: counts_step [OF c])
next
  case (loc_full t k)
  then show ?thesis
    using c counted(5) [OF c, of t] queues_loc [of t n s "wk_loc s t - 1"] by (auto intro!: counts_step [OF c])
next
  case (steal t k v)
  then show ?thesis
    using c counted(5) [OF c, of t] queues_loc [of v n s "wk_loc s v - 1"] by (auto intro!: counts_step [OF c])
next
  case (taken t k)
  then show ?thesis
    using c counted(2,5) [OF c, of t] by (cases k) (auto intro!: counts_step [OF c])
next
  case (none_pending t k)
  then show ?thesis using c counted(5) [OF c, of t] by (cases k) (auto intro!: counts_step [OF c])
next
  case (steal_fails t k)
  then show ?thesis using c counted(5) [OF c, of t] by (cases k) (auto intro!: counts_step [OF c])
qed (auto intro!: counts_step [OF c] intro: counted(5) [OF c] simp: in_queues_def)

lemma counts_park:
  assumes c: "counts_ok n s" and "park_step n s s'"
  shows "counts_ok n s'"
  using assms(2)
proof cases
  case (found t)
  then show ?thesis using counted(1) [OF c, of t] by (auto intro!: counts_step [OF c])
next
  case (uncount t)
  then show ?thesis using counted(1,5) [OF c, of t] by (auto intro!: counts_step [OF c])
qed (auto intro!: counts_step [OF c] intro: counted(5) [OF c])

lemma counts_reach: "wsys_reach n s \<Longrightarrow> counts_ok n s"
proof (induction rule: wsys_reach.induct)
  case init
  then show ?case by (simp add: counts_ok_def init_wsys_def in_queues_def)
qed (blast intro: counts_push counts_pop counts_park)+

section \<open>Nobody sleeps on work\<close>

lemma past_going: "past_hand p \<Longrightarrow> going p" "past_loc p \<Longrightarrow> going p" "past_inj p \<Longrightarrow> going p"
  by (cases p; simp)+

lemma rescued_step:
  assumes "wk_ph s1 = wk_ph s"
  shows "rescued (s1\<lparr>wk_ph := (wk_ph s)(t := p)\<rparr>) w \<longleftrightarrow>
    wk_token s1 w \<or> promised p = Some w \<or> (\<exists>t'. t' \<noteq> t \<and> promised (wk_ph s t') = Some w)"
  by (auto simp: rescued_def)

lemma rescued_other:
  "promised (wk_ph s t) = None \<Longrightarrow> rescued s w \<longleftrightarrow> wk_token s w \<or> (\<exists>t'. t' \<noteq> t \<and> promised (wk_ph s t') = Some w)"
  unfolding rescued_def by (metis option.distinct(1))

text \<open>What a step of thread t has to provide.\<close>

lemma wake_stepI:
  fixes s s1 t p
  defines "s' \<equiv> s1\<lparr>wk_ph := (wk_ph s)(t := p)\<rparr>"
  assumes inv: "wake_inv n s" and ph1: "wk_ph s1 = wk_ph s"
    and keep: "\<And>w. \<lbrakk>wk_token s w \<or> promised (wk_ph s t) = Some w; w \<noteq> t \<or> going p\<rbrakk> \<Longrightarrow> wk_token s1 w \<or> promised p = Some w"
    and idle: "\<And>w. \<lbrakk>w < n; w \<noteq> t; wk_idle s w\<rbrakk> \<Longrightarrow> wk_idle s1 w \<or> promised p = Some w"
    and own: "\<lbrakk>t < n; going p\<rbrakk> \<Longrightarrow> wk_idle s1 t \<or> (going (wk_ph s t) \<and> (wk_idle s t \<longrightarrow> wk_idle s1 t))"
    and hand: "\<And>w. \<lbrakk>w < n; wk_hand s1 w\<rbrakk> \<Longrightarrow>
      (wk_hand s w \<and> (w = t \<and> past_hand p \<longrightarrow> past_hand (wk_ph s t))) \<or> promised p = Some w"
    and loc: "\<And>w. \<lbrakk>w < n; 0 < wk_loc s1 w\<rbrakk> \<Longrightarrow>
      if w = t then past_loc p \<longrightarrow> past_loc (wk_ph s t) \<and> 0 < wk_loc s t else 0 < wk_loc s w"
    and inj: "0 < wk_inj s1 \<Longrightarrow>
      (0 < wk_inj s \<and> (past_inj p \<longrightarrow> past_inj (wk_ph s t)) \<and> (fresh_ph (wk_ph s t) \<longrightarrow> fresh_ph p)) \<or> fresh_ph p \<or>
      (\<exists>w<n. \<not> past_inj (wk_ph s' w) \<or> rescued s' w)"
  shows "wake_inv n s'"
proof -
  have ph: "wk_ph s' w = (if w = t then p else wk_ph s w)" for w by (simp add: s'_def)
  have fr: "wk_idle s' = wk_idle s1" "wk_hand s' = wk_hand s1" "wk_loc s' = wk_loc s1" "wk_inj s' = wk_inj s1"
    by (simp_all add: s'_def)
  have kept: "rescued s' w" if "rescued s w" "w \<noteq> t \<or> going p" for w
    using keep [of w] that(2) that(1) [unfolded rescued_def] unfolding s'_def rescued_step [OF ph1] by metis
  have mine: "rescued s' w" if "promised p = Some w" for w
    using that unfolding s'_def rescued_step [OF ph1] by simp
  have "wk_idle s' w \<or> rescued s' w" if "w < n" "going (wk_ph s' w)" for w
    using that inv own idle [of w] kept [of w] mine [of w] unfolding ph fr wake_inv_def by (auto split: if_splits)
  moreover have "\<not> past_hand (wk_ph s' w) \<or> rescued s' w" if "w < n" "wk_hand s' w" for w
    using that inv hand [of w] kept [of w] mine [of w] past_going(1) [of p] unfolding ph fr wake_inv_def
    by (auto split: if_splits)
  moreover have "\<not> past_loc (wk_ph s' w)" if "w < n" "0 < wk_loc s' w" for w
    using that inv loc [of w] unfolding ph fr wake_inv_def by (auto split: if_splits)
  moreover have "(\<exists>w<n. \<not> past_inj (wk_ph s' w) \<or> rescued s' w) \<or> (\<exists>t. fresh_ph (wk_ph s' t))" if i: "0 < wk_inj s'"
  proof (cases "fresh_ph p \<or> (\<exists>w<n. \<not> past_inj (wk_ph s' w) \<or> rescued s' w)")
    case False
    then have old: "0 < wk_inj s" "past_inj p \<longrightarrow> past_inj (wk_ph s t)" "fresh_ph (wk_ph s t) \<longrightarrow> fresh_ph p"
      using inj [OF i [unfolded fr]] by metis+
    then consider w where "w < n" "\<not> past_inj (wk_ph s w) \<or> rescued s w" | t' where "fresh_ph (wk_ph s t')"
      using inv unfolding wake_inv_def by blast
    then show ?thesis
    proof cases
      case (1 w)
      then have "\<not> past_inj (wk_ph s' w) \<or> rescued s' w"
        using old kept [of w] past_going(3) [of p] by (auto simp: ph)
      then show ?thesis using 1 by blast
    next
      case (2 t')
      then have "fresh_ph (wk_ph s' t')" using old by (cases "t' = t") (simp_all add: ph)
      then show ?thesis by blast
    qed
  next
    case True
    then show ?thesis using ph [of t] by metis
  qed
  ultimately show ?thesis unfolding wake_inv_def by blast
qed

lemma wake_push:
  assumes c: "counts_ok n s" and inv: "wake_inv n s" and n: "0 < n" and "push_step n s s'"
  shows "wake_inv n s'"
  using assms(4)
proof cases
  case (again_some t)
  then obtain w where w: "w < n" "searching_ph (wk_ph s w)" using counted(3) [OF c] by blast
  then have "\<not> past_inj (wk_ph s w)" "w \<noteq> t" using again_some by (cases "wk_ph s w"; auto)+
  then show ?thesis
    using again_some w by (auto intro!: wake_stepI [OF inv] simp: rescued_step)
next
  case (test_hit t j)
  then show ?thesis
    by (auto intro!: wake_stepI [OF inv] simp: rescued_step)
next
  case (test_miss t j)
  have "\<not> going (wk_ph s j) \<or> rescued s j" using test_miss inv by (auto simp: wake_inv_def)
  then have "\<not> past_inj (wk_ph s j) \<or> rescued s j" using past_going(3) by blast
  then show ?thesis
    using test_miss
    by (cases "t = j") (auto intro!: wake_stepI [OF inv] exI [of _ j] simp: rescued_step rescued_other [of s t])
next
  case (test_end t j)
  then show ?thesis using n by (auto intro!: wake_stepI [OF inv] simp: rescued_step)
next
  case (place_inj t)
  then show ?thesis
    by (auto intro!: wake_stepI [OF inv] exI [of _ t] simp: rescued_step)
next
  case (place_wake_inj t w)
  then show ?thesis
    using counted(6) [OF c, of t w]
    by (auto intro!: wake_stepI [OF inv] exI [of _ w] simp: rescued_step)
qed (auto intro!: wake_stepI [OF inv])

lemma wake_pop:
  assumes c: "counts_ok n s" and inv: "wake_inv n s" and "pop_step n s s'"
  shows "wake_inv n s'"
  using assms(3)
proof cases
  case (none_pending t k)
  then have "in_queues n s = 0" using counted(4) [OF c] by simp
  from queues_empty [OF this] show ?thesis
    using none_pending by (cases k) (auto intro!: wake_stepI [OF inv])
next
  case (steal_fails t k)
  then show ?thesis by (cases k) (auto intro!: wake_stepI [OF inv])
next
  case (taken t k)
  then show ?thesis by (cases k) (auto intro!: wake_stepI [OF inv])
qed (auto intro!: wake_stepI [OF inv] split: if_splits)

lemma wake_park:
  assumes c: "counts_ok n s" and inv: "wake_inv n s" and "park_step n s s'"
  shows "wake_inv n s'"
  using assms(3) by cases (auto intro!: wake_stepI [OF inv] split: if_splits)

lemma wake_reach:
  assumes n: "0 < n" and "wsys_reach n s"
  shows "wake_inv n s"
  using assms(2)
proof induction
  case init
  then show ?case by (simp add: wake_inv_def init_wsys_def)
next
  case (push s s')
  then show ?case using wake_push n counts_reach by blast
next
  case (pop s s')
  then show ?case using wake_pop counts_reach by blast
next
  case (park s s')
  then show ?case using wake_park counts_reach by blast
qed

lemma card_none: "(\<And>t. \<not> P t) \<Longrightarrow> card {t. P t} = 0"
  by simp

text \<open>
  C2: no wake-up is lost.  Whenever every worker is parked without a token and no other thread is inside an
  operation, there is no service in the injector, in a handoff slot or in a local queue, and the
  count of pending services is zero: whatever was pushed has been taken by somebody.
\<close>

theorem no_lost_wakeup:
  assumes "wsys_reach n s" "0 < n"
    and asleep: "\<And>w. w < n \<Longrightarrow> wk_ph s w = LSleep \<and> \<not> wk_token s w"
    and quiet: "\<And>t. n \<le> t \<Longrightarrow> wk_ph s t = Out"
  shows "wk_pending s = 0 \<and> wk_inj s = 0 \<and> (\<forall>w<n. \<not> wk_hand s w \<and> wk_loc s w = 0)"
proof -
  have inv: "wake_inv n s" using wake_reach assms(1,2) by blast
  have ph: "wk_ph s t = LSleep \<or> wk_ph s t = Out" for t using asleep quiet by (cases "t < n") auto
  have free: "promised (wk_ph s t) = None" "\<not> fresh_ph (wk_ph s t)" "\<not> owes (wk_ph s t)" for t
    using ph [of t] by (elim disjE; simp)+
  then have lost: "\<not> rescued s w" if "w < n" for w using asleep that by (simp add: rescued_def)
  have w: "\<not> wk_hand s w" "wk_loc s w = 0" if "w < n" for w
    using inv lost asleep that by (auto simp: wake_inv_def)
  moreover have "wk_inj s = 0" using inv lost asleep free(2) by (auto simp: wake_inv_def)
  moreover have "wk_pending s = in_queues n s + card {t. owes (wk_ph s t)}"
    using counts_reach assms(1) by (auto simp: counts_ok_def)
  ultimately show ?thesis using card_none [of "\<lambda>t. owes (wk_ph s t)"] free(3) by (simp add: in_queues_def)
qed

lemma one_sleeper:
  "wsys_reach 1 (init_wsys\<lparr>wk_idle := (\<lambda>_. False)(0 := True), wk_ph := (\<lambda>_. Out)(0 := LSleep)\<rparr>)"
  (is "wsys_reach 1 ?s")
proof -
  have r: "wsys_reach 1 (at 0 SInc init_wsys)"
    by (rule wsys_reach.park [OF wsys_reach.init park_step.search]) (simp_all add: init_wsys_def)
  have r: "wsys_reach 1 (at 0 Spin (init_wsys\<lparr>wk_searching := 1\<rparr>))"
    using wsys_reach.park [OF r park_step.count [of _ 0]] by (simp add: init_wsys_def)
  have r: "wsys_reach 1 (at 0 SMark (init_wsys\<lparr>wk_searching := 1\<rparr>))"
    using wsys_reach.park [OF r park_step.give_up [of _ 0]] by (simp add: init_wsys_def)
  have r: "wsys_reach 1 (at 0 SDec (init_wsys\<lparr>wk_searching := 1, wk_idle := (\<lambda>_. False)(0 := True)\<rparr>))"
    using wsys_reach.park [OF r park_step.mark [of _ 0]] by (simp add: init_wsys_def)
  have r: "wsys_reach 1 (at 0 (QHand CLast) (init_wsys\<lparr>wk_idle := (\<lambda>_. False)(0 := True)\<rparr>))"
    using wsys_reach.park [OF r park_step.uncount [of _ 0]] by (simp add: init_wsys_def)
  have r: "wsys_reach 1 (at 0 (QChk CLast) (init_wsys\<lparr>wk_idle := (\<lambda>_. False)(0 := True)\<rparr>))"
    using wsys_reach.pop [OF r pop_step.hand_empty [of _ 0 CLast]] by (simp add: init_wsys_def)
  have r: "wsys_reach 1 (at 0 LPark (init_wsys\<lparr>wk_idle := (\<lambda>_. False)(0 := True)\<rparr>))"
    using wsys_reach.pop [OF r pop_step.none_pending [of _ 0 CLast]] by (simp add: init_wsys_def)
  show ?thesis
    using wsys_reach.park [OF r park_step.park [of _ 0]] by (simp add: init_wsys_def)
qed

theorem no_lost_wakeup_witness:
  "\<exists>s. wsys_reach 1 s \<and> wk_ph s 0 = LSleep \<and> wk_pending s = 0"
proof -
  let ?s = "init_wsys\<lparr>wk_idle := (\<lambda>_. False)(0 := True), wk_ph := (\<lambda>_. Out)(0 := LSleep)\<rparr>"
  have "wk_pending ?s = 0" using no_lost_wakeup [OF one_sleeper] by (simp add: init_wsys_def)
  then show ?thesis using one_sleeper by (intro exI [of _ ?s]) simp
qed

end
