(* ===== verification/Service.thy ===== *)
theory Service
  imports Handle Session Task Mailbox Scheduler
begin

text \<open>
  A service and the node it runs on (\<^verbatim>\<open>ServiceContext\<close>, \<^verbatim>\<open>InitTicket\<close> and the message side of \<^verbatim>\<open>Node\<close> in
  \<^verbatim>\<open>rskynet-core/src/server.rs\<close>).  The node is one record; the services are a store indexed by their
  handle, which stands for the \<^verbatim>\<open>Arc\<close> and stays in the store for as long as somebody may hold it, so that
  upgrading a weak reference succeeds.  Every operation runs alone, from one state to the next; what the
  threads may interleave is in \<^verbatim>\<open>Mailbox_Threads\<close> and \<^verbatim>\<open>Wakeup\<close>.  The caller of an operation is the
  worker and the service its thread runs (\<^verbatim>\<open>CURRENT_WORKER\<close> and \<^verbatim>\<open>CURRENT_SERVICE\<close>).

  The code of the services is not part of the program.  It is an environment of functions: how a future is
  polled and dropped, and how an error is printed.  The polled future may itself use the node.
\<close>

section \<open>State\<close>

datatype lifecycle = Initializing | Running | Failed

text \<open>A service object: whether it has a thread of its own, and the futures it makes.\<close>

record ('b, 'f) instance_code =
  code_exclusive :: bool
  code_init :: "u64 \<Rightarrow> string \<Rightarrow> 'f"
  code_dispatch :: "u64 \<Rightarrow> 'b message \<Rightarrow> 'f"

text \<open>The task of a message, and the first task of a service, which wraps its \<^verbatim>\<open>init\<close>.\<close>

datatype 'f fut = UserFut 'f | InitFut 'f

datatype 'f polled = StillPending 'f | Completed "error + unit"

type_synonym waker = "u64 \<times> task_id"

record ('b, 'f) service =
  sv_kind :: string
  sv_code :: "('b, 'f) instance_code"
  sv_mailbox :: "'b message mailbox"
  sv_sessions :: "('b, waker) session_table"
  sv_tasks :: "'f fut task_set"
  sv_thread :: bool
  sv_token :: bool
  sv_interrupts :: nat
  sv_finished :: bool
  sv_lifecycle :: lifecycle
  sv_init :: "(string + unit) option"
  sv_init_waker :: "waker option"
  sv_init_self_exit :: bool
  sv_pending :: "'b message list option"
  sv_dead :: bool
  sv_reserved :: bool
  sv_destroyed :: bool
  sv_endless :: bool
  sv_message_count :: u64
  sv_started :: "u64 \<times> u64"

text \<open>What the node asks of its time source, which is injected.\<close>

datatype timer_call = TimerTimeout u64 u64 u64 | TimerCancel u64 u64

record ('b, 'f, 'u) node =
  nd_sched :: "u64 scheduler"
  nd_handles :: "unit handle_storage"
  nd_svcs :: "u64 \<Rightarrow> ('b, 'f) service option"
  nd_modules :: "string \<Rightarrow> ('b, 'f) instance_code option"
  nd_exclusives :: "u64 list"
  nd_total :: int
  nd_booted :: bool
  nd_logger :: u64
  nd_timer :: "timer_call list"
  nd_clock :: "u64 \<times> u64"
  nd_stderr :: "(u64 \<times> bytes) list"
  nd_user :: 'u

record caller =
  by_worker :: "nat option"
  by_service :: "u64 option"

text \<open>The code outside the program: the slab's choice of a free key, the user's futures, the printing of errors.\<close>

record ('b, 'f, 'u) env =
  ev_vacant :: "'f fut task_slot option list \<Rightarrow> nat"
  ev_poll :: "caller \<Rightarrow> u64 \<Rightarrow> task_id \<Rightarrow> 'f \<Rightarrow> ('b, 'f, 'u) node \<Rightarrow> ('f polled \<times> ('b, 'f, 'u) node) outcome option"
  ev_drop :: "caller \<Rightarrow> u64 \<Rightarrow> 'f \<Rightarrow> ('b, 'f, 'u) node \<Rightarrow> ('b, 'f, 'u) node outcome option"
  ev_idle :: "caller \<Rightarrow> u64 \<Rightarrow> ('b, 'f, 'u) node \<Rightarrow> ('b, 'f, 'u) node outcome option"
  ev_show :: "error \<Rightarrow> string"

definition owns :: "caller \<Rightarrow> u64 \<Rightarrow> bool" where
  "owns c h = (by_service c = Some h)"

text \<open>\<^verbatim>\<open>Running::enter\<close>: the same thread, now running the service h.\<close>

definition enter :: "caller \<Rightarrow> u64 \<Rightarrow> caller" where
  "enter c h = c\<lparr>by_service := Some h\<rparr>"

definition upd_svc :: "u64 \<Rightarrow> (('b, 'f) service \<Rightarrow> ('b, 'f) service) \<Rightarrow> ('b, 'f, 'u) node \<Rightarrow> ('b, 'f, 'u) node" where
  "upd_svc h g nd = nd\<lparr>nd_svcs := (nd_svcs nd)(h := map_option g (nd_svcs nd h))\<rparr>"

definition new_service_ctx ::
  "string \<Rightarrow> ('b, 'f) instance_code \<Rightarrow> bool \<Rightarrow> u64 \<times> u64 \<Rightarrow> ('b, 'f) service" where
  "new_service_ctx kind inst reserved started =
     \<lparr>sv_kind = kind, sv_code = inst, sv_mailbox = new_mailbox, sv_sessions = new_sessions, sv_tasks = new_tasks,
      sv_thread = False, sv_token = False, sv_interrupts = 0, sv_finished = False,
      sv_lifecycle = Initializing, sv_init = None, sv_init_waker = None, sv_init_self_exit = False,
      sv_pending = Some [], sv_dead = False, sv_reserved = reserved, sv_destroyed = False, sv_endless = False,
      sv_message_count = 0, sv_started = started\<rparr>"

section \<open>Handing work to the executor\<close>

text \<open>\<^verbatim>\<open>Scheduler::push\<close> and \<^verbatim>\<open>Scheduler::pop\<close>, with what they do to the mailbox of the service.\<close>

definition enqueue :: "caller \<Rightarrow> u64 \<Rightarrow> ('b, 'f, 'u) node \<Rightarrow> ('b, 'f, 'u) node outcome option" where
  "enqueue c h nd =
     (case nd_svcs nd h of
        None \<Rightarrow> Some (Inr nd)
      | Some sv \<Rightarrow>
          if code_exclusive (sv_code sv) then Some (Inl (Panic ''an exclusive service must not enter the run queue''))
          else obind (sched_push (by_worker c) h (nd_sched nd)) (\<lambda>sd.
                 Some (Inr ((upd_svc h (\<lambda>sv. sv\<lparr>sv_mailbox := mark_queued (sv_mailbox sv)\<rparr>) nd)\<lparr>nd_sched := sd\<rparr>))))"

definition dequeue :: "caller \<Rightarrow> ('b, 'f, 'u) node \<Rightarrow> (u64 option \<times> ('b, 'f, 'u) node) outcome option" where
  "dequeue c nd =
     obind (pop_runnable (by_worker c) (nd_sched nd)) (\<lambda>(r, sd).
       (let nd = nd\<lparr>nd_sched := sd\<rparr> in
        Some (Inr (r, case r of None \<Rightarrow> nd
                      | Some h \<Rightarrow> upd_svc h (\<lambda>sv. sv\<lparr>sv_mailbox := mark_running (sv_mailbox sv)\<rparr>) nd))))"

definition unpark :: "('b, 'f) service \<Rightarrow> ('b, 'f) service" where
  "unpark sv = (if sv_thread sv then sv\<lparr>sv_token := True\<rparr> else sv)"

definition interrupt_svc :: "('b, 'f) service \<Rightarrow> ('b, 'f) service" where
  "interrupt_svc sv =
     (if code_exclusive (sv_code sv) then (let sv = unpark sv in sv\<lparr>sv_interrupts := sv_interrupts sv + 1\<rparr>) else sv)"

definition wake_svc :: "caller \<Rightarrow> u64 \<Rightarrow> bool \<Rightarrow> ('b, 'f, 'u) node \<Rightarrow> ('b, 'f, 'u) node outcome option" where
  "wake_svc c h q nd =
     (if \<not> q then Some (Inr nd)
      else (case nd_svcs nd h of
              None \<Rightarrow> Some (Inr nd)
            | Some sv \<Rightarrow> if code_exclusive (sv_code sv) then Some (Inr (upd_svc h interrupt_svc nd)) else enqueue c h nd))"

definition mailbox_op ::
  "caller \<Rightarrow> u64 \<Rightarrow> ('b message mailbox \<Rightarrow> bool \<times> 'b message mailbox) \<Rightarrow> ('b, 'f, 'u) node \<Rightarrow>
   ('b, 'f, 'u) node outcome option" where
  "mailbox_op c h g nd =
     (case nd_svcs nd h of
        None \<Rightarrow> Some (Inr nd)
      | Some sv \<Rightarrow>
          (case g (sv_mailbox sv) of (q, mb) \<Rightarrow> wake_svc c h q (upd_svc h (\<lambda>sv. sv\<lparr>sv_mailbox := mb\<rparr>) nd)))"

definition push_svc :: "caller \<Rightarrow> u64 \<Rightarrow> 'b message \<Rightarrow> ('b, 'f, 'u) node \<Rightarrow> ('b, 'f, 'u) node outcome option" where
  "push_svc c h m nd = mailbox_op c h (push_message m) nd"

definition wake_task :: "caller \<Rightarrow> u64 \<Rightarrow> task_id \<Rightarrow> ('b, 'f, 'u) node \<Rightarrow> ('b, 'f, 'u) node outcome option" where
  "wake_task c h task nd = mailbox_op c h (push_ready task) nd"

text \<open>The waker of a task: \<^verbatim>\<open>TaskWaker::wake_by_ref\<close>.\<close>

definition wake_waker :: "caller \<Rightarrow> waker \<Rightarrow> ('b, 'f, 'u) node \<Rightarrow> ('b, 'f, 'u) node outcome option" where
  "wake_waker c w nd =
     (case w of (h, task) \<Rightarrow>
        (case nd_svcs nd h of
           None \<Rightarrow> Some (Inr nd)
         | Some sv \<Rightarrow>
             (case wake_by_ref task (sv_tasks sv) of (first, ts) \<Rightarrow>
                (let nd = upd_svc h (\<lambda>sv. sv\<lparr>sv_tasks := ts\<rparr>) nd in
                 if first then wake_task c h task nd else Some (Inr nd)))))"

fun wake_wakers :: "caller \<Rightarrow> waker list \<Rightarrow> ('b, 'f, 'u) node \<Rightarrow> ('b, 'f, 'u) node outcome option" where
  "wake_wakers c [] nd = Some (Inr nd)"
| "wake_wakers c (w # ws) nd = obind (wake_waker c w nd) (wake_wakers c ws)"

section \<open>Messages and log\<close>

definition send_raw ::
  "caller \<Rightarrow> u64 \<Rightarrow> u64 \<Rightarrow> msg_type \<Rightarrow> u64 \<Rightarrow> 'b payload \<Rightarrow> ('b, 'f, 'u) node \<Rightarrow>
   (unit result \<times> ('b, 'f, 'u) node) outcome option" where
  "send_raw c source dest mtype session p nd =
     (case grab (nd_handles nd) dest of
        None \<Rightarrow> Some (Inr (Inl (NoService dest), nd))
      | Some ctx \<Rightarrow>
          obind (push_svc c (ctx_handle ctx) (new_message source session mtype p) nd) (\<lambda>nd. Some (Inr (Inr (), nd))))"

text \<open>The \<^verbatim>\<open>let _ = send_raw(..)\<close> of an error answer, for each of a list of requests.\<close>

fun send_errors :: "caller \<Rightarrow> u64 \<Rightarrow> (u64 \<times> u64) list \<Rightarrow> ('b, 'f, 'u) node \<Rightarrow> ('b, 'f, 'u) node outcome option" where
  "send_errors c h [] nd = Some (Inr nd)"
| "send_errors c h ((source, session) # rs) nd =
     obind (send_raw c h source ERROR session PNone nd) (\<lambda>(_, nd). send_errors c h rs nd)"

definition resolve :: "('b, 'f, 'u) node \<Rightarrow> addr \<Rightarrow> u64 result" where
  "resolve nd a =
     (case a of
        AddrHandle h \<Rightarrow> Inr h
      | AddrName n \<Rightarrow> (case find_name (nd_handles nd) n of Some h \<Rightarrow> Inr h | None \<Rightarrow> Inl (NameNotFound n)))"

definition utf8 :: "string \<Rightarrow> bytes" where
  "utf8 s = map of_char s"

definition log_node :: "caller \<Rightarrow> u64 \<Rightarrow> bytes \<Rightarrow> ('b, 'f, 'u) node \<Rightarrow> ('b, 'f, 'u) node outcome option" where
  "log_node c source txt nd =
     (let stderr = Some (Inr (nd\<lparr>nd_stderr := nd_stderr nd @ [(source, txt)]\<rparr>)) in
      if nd_logger nd = 0 then stderr
      else (case grab (nd_handles nd) (nd_logger nd) of
              None \<Rightarrow> stderr
            | Some ctx \<Rightarrow>
                (case nd_svcs nd (ctx_handle ctx) of
                   None \<Rightarrow> stderr
                 | Some sv \<Rightarrow>
                     if sv_dead sv then stderr
                     else push_svc c (ctx_handle ctx) (new_message source 0 TEXT (PBytes txt)) nd)))"

text \<open>Literal parts of the log lines, in UTF-8.\<close>

definition INIT_FAILED_TEXT :: bytes where
  "INIT_FAILED_TEXT = [0x65, 0x72, 0x72, 0x6f, 0x72, 0x3a, 0x20, 0xe5, 0x88, 0x9d, 0xe5, 0xa7, 0x8b, 0xe5,
     0x8c, 0x96, 0xe5, 0xa4, 0xb1, 0xe8, 0xb4, 0xa5, 0xef, 0xbc, 0x9a]"

definition OVERLOAD_TEXT :: bytes where
  "OVERLOAD_TEXT = [0x65, 0x72, 0x72, 0x6f, 0x72, 0x3a, 0x20, 0xe6, 0xb6, 0x88, 0xe6, 0x81, 0xaf, 0xe9, 0x98,
     0x9f, 0xe5, 0x88, 0x97, 0xe5, 0x8f, 0xaf, 0xe8, 0x83, 0xbd, 0xe8, 0xbf, 0x87, 0xe8, 0xbd, 0xbd, 0xef,
     0xbc, 0x8c, 0xe9, 0x95, 0xbf, 0xe5, 0xba, 0xa6, 0x20]"

definition ENDLESS_TEXT_1 :: bytes where
  "ENDLESS_TEXT_1 = [0x65, 0x72, 0x72, 0x6f, 0x72, 0x3a, 0x20, 0xe4, 0xbb, 0x8e, 0x20, 0x5b, 0x20, 0x3a]"

definition ENDLESS_TEXT_2 :: bytes where
  "ENDLESS_TEXT_2 = [0x20, 0x5d, 0x20, 0xe5, 0x88, 0xb0, 0x20, 0x5b, 0x20, 0x3a]"

definition ENDLESS_TEXT_3 :: bytes where
  "ENDLESS_TEXT_3 = [0x20, 0x5d, 0x20, 0xe7, 0x9a, 0x84, 0xe4, 0xbb, 0xbb, 0xe5, 0x8a, 0xa1, 0xe5, 0x8f, 0xaf,
     0xe8, 0x83, 0xbd, 0xe9, 0x99, 0xb7, 0xe5, 0x85, 0xa5, 0xe6, 0xad, 0xbb, 0xe5, 0xbe, 0xaa, 0xe7, 0x8e,
     0xaf, 0x20, 0x28, 0x76, 0x65, 0x72, 0x73, 0x69, 0x6f, 0x6e, 0x20, 0x3d, 0x20]"

section \<open>Initialisation\<close>

text \<open>\<^verbatim>\<open>InitShared::complete\<close>: the first result stays, and whoever waits for it is woken.\<close>

definition init_complete :: "caller \<Rightarrow> u64 \<Rightarrow> string + unit \<Rightarrow> ('b, 'f, 'u) node \<Rightarrow> ('b, 'f, 'u) node outcome option" where
  "init_complete c h r nd =
     (case nd_svcs nd h of
        None \<Rightarrow> Some (Inr nd)
      | Some sv \<Rightarrow>
          if sv_init sv \<noteq> None then Some (Inr nd)
          else wake_wakers c (case sv_init_waker sv of Some w \<Rightarrow> [w] | None \<Rightarrow> [])
                 (upd_svc h (\<lambda>sv. sv\<lparr>sv_init := Some r, sv_init_waker := None\<rparr>) nd))"

definition ticket_result :: "('b, 'f) service \<Rightarrow> unit result option" where
  "ticket_result sv =
     map_option (\<lambda>r. case r of Inr u \<Rightarrow> Inr u | Inl reason \<Rightarrow> Inl (InitError (sv_kind sv) reason)) (sv_init sv)"

definition poll_ticket :: "u64 \<Rightarrow> waker \<Rightarrow> ('b, 'f, 'u) node \<Rightarrow> unit result poll \<times> ('b, 'f, 'u) node" where
  "poll_ticket h w nd =
     (case nd_svcs nd h of
        None \<Rightarrow> (Pending, nd)
      | Some sv \<Rightarrow>
          (case ticket_result sv of
             Some r \<Rightarrow> (Ready r, nd)
           | None \<Rightarrow> (Pending, upd_svc h (\<lambda>sv. sv\<lparr>sv_init_waker := Some w\<rparr>) nd)))"

definition TERMINATED_TEXT :: string where
  "TERMINATED_TEXT = map (\<lambda>n. char_of (n :: nat)) [0xe6, 0x9c, 0x8d, 0xe5, 0x8a, 0xa1, 0xe5, 0x9c,
     0xa8, 0xe5, 0x88, 0x9d, 0xe5, 0xa7, 0x8b, 0xe5, 0x8c, 0x96, 0xe5, 0xae, 0x8c, 0xe6, 0x88, 0x90, 0xe5,
     0x89, 0x8d, 0xe8, 0xa2, 0xab, 0xe7, 0xbb, 0x88, 0xe6, 0xad, 0xa2]"

definition EXITED_TEXT :: string where
  "EXITED_TEXT = map (\<lambda>n. char_of (n :: nat)) [0xe6, 0x9c, 0x8d, 0xe5, 0x8a, 0xa1, 0xe5, 0x9c, 0xa8,
     0xe5, 0x88, 0x9d, 0xe5, 0xa7, 0x8b, 0xe5, 0x8c, 0x96, 0xe5, 0xae, 0x8c, 0xe6, 0x88, 0x90, 0xe5, 0x89,
     0x8d, 0xe9, 0x80, 0x80, 0xe5, 0x87, 0xba]"

definition finish_init :: "caller \<Rightarrow> u64 \<Rightarrow> string + unit \<Rightarrow> ('b, 'f, 'u) node \<Rightarrow> ('b, 'f, 'u) node outcome option" where
  "finish_init c h r nd =
     (case nd_svcs nd h of
        None \<Rightarrow> Some (Inr nd)
      | Some sv \<Rightarrow>
          (let r = (if \<not> isl r \<and> sv_dead sv \<and> \<not> sv_init_self_exit sv then Inl TERMINATED_TEXT else r) in
           init_complete c h r
             (upd_svc h (\<lambda>sv. sv\<lparr>sv_lifecycle := (if \<not> isl r then Running else Failed)\<rparr>) nd)))"

definition take_pending :: "u64 \<Rightarrow> ('b, 'f, 'u) node \<Rightarrow> 'b message option \<times> ('b, 'f, 'u) node" where
  "take_pending h nd =
     (case nd_svcs nd h of
        None \<Rightarrow> (None, nd)
      | Some sv \<Rightarrow>
          (case sv_pending sv of
             None \<Rightarrow> (None, nd)
           | Some [] \<Rightarrow> (None, upd_svc h (\<lambda>sv. sv\<lparr>sv_pending := None\<rparr>) nd)
           | Some (m # ms) \<Rightarrow> (Some m, upd_svc h (\<lambda>sv. sv\<lparr>sv_pending := Some ms\<rparr>) nd)))"

end
