(* ===== verification/Node.thy ===== *)
theory Node
  imports Service
begin

text \<open>
  The life of services on a node (\<^verbatim>\<open>Node\<close> and the executing side of \<^verbatim>\<open>ServiceContext\<close> in
  \<^verbatim>\<open>rskynet-core/src/server.rs\<close>, the thread of an exclusive service in \<^verbatim>\<open>rskynet-core/src/exclusive.rs\<close>):
  creation, dispatch, retirement, destruction, the count of services and the end of the node.
  \<^verbatim>\<open>lifecycle_gate\<close> makes the counting and the quit flag one step, which is what an operation is here.
  The measured processing time is left out.
\<close>

section \<open>Retirement\<close>

definition fail_inflight :: "caller \<Rightarrow> u64 \<Rightarrow> ('b, 'f, 'u) node \<Rightarrow> ('b, 'f, 'u) node outcome option" where
  "fail_inflight c h nd =
     (case nd_svcs nd h of
        None \<Rightarrow> Some (Inr nd)
      | Some sv \<Rightarrow>
          if \<not> owns c h then Some (Inr nd)
          else (case take_requests (sv_tasks sv) of (rs, ts) \<Rightarrow>
                  send_errors c h rs (upd_svc h (\<lambda>sv. sv\<lparr>sv_tasks := ts\<rparr>) nd)))"

definition mark_dead :: "('b, 'f) service \<Rightarrow> ('b, 'f) service" where
  "mark_dead sv = sv\<lparr>sv_dead := True\<rparr>"

definition retire_svc :: "caller \<Rightarrow> u64 \<Rightarrow> ('b, 'f, 'u) node \<Rightarrow> (bool \<times> ('b, 'f, 'u) node) outcome option" where
  "retire_svc c h nd =
     (case retire h (nd_handles nd) of
        (None, hs) \<Rightarrow> Some (Inr (False, nd))
      | (Some ctx, hs) \<Rightarrow>
          obind (fail_inflight c (ctx_handle ctx) (upd_svc (ctx_handle ctx) mark_dead (nd\<lparr>nd_handles := hs\<rparr>))) (\<lambda>nd.
          obind (mailbox_op c (ctx_handle ctx) notify nd) (\<lambda>nd. Some (Inr (True, nd)))))"

definition request_exit :: "caller \<Rightarrow> u64 \<Rightarrow> ('b, 'f, 'u) node \<Rightarrow> ('b, 'f, 'u) node outcome option" where
  "request_exit c h nd =
     (let initializing_here = ((case nd_svcs nd h of Some sv \<Rightarrow> sv_lifecycle sv = Initializing | None \<Rightarrow> False) \<and> owns c h) in
      obind (retire_svc c h nd) (\<lambda>(retired, nd).
        Some (Inr (if retired \<and> initializing_here then upd_svc h (\<lambda>sv. sv\<lparr>sv_init_self_exit := True\<rparr>) nd else nd))))"

section \<open>Tasks and messages\<close>

definition assert_ownership :: "caller \<Rightarrow> u64 \<Rightarrow> unit outcome option" where
  "assert_ownership c h = Some (if owns c h then Inr () else Inl (Panic ''only in the execution context of the service''))"

definition install_task ::
  "('b, 'f, 'u) env \<Rightarrow> caller \<Rightarrow> u64 \<Rightarrow> 'f fut \<Rightarrow> (u64 \<times> u64) option \<Rightarrow> u64 \<Rightarrow> ('b, 'f, 'u) node \<Rightarrow>
   ('b, 'f, 'u) node outcome option" where
  "install_task e c h fut request source nd =
     (case nd_svcs nd h of
        None \<Rightarrow> Some (Inr nd)
      | Some sv \<Rightarrow>
          (case insert_task (ev_vacant e) fut request source (sv_tasks sv) of (task, ts) \<Rightarrow>
             wake_task c h task (upd_svc h (\<lambda>sv. sv\<lparr>sv_tasks := ts\<rparr>) nd)))"

definition spawn_task :: "('b, 'f, 'u) env \<Rightarrow> caller \<Rightarrow> u64 \<Rightarrow> 'f \<Rightarrow> ('b, 'f, 'u) node \<Rightarrow> ('b, 'f, 'u) node outcome option" where
  "spawn_task e c h f nd = obind (assert_ownership c h) (\<lambda>_. install_task e c h (UserFut f) None 0 nd)"

definition reply_result :: "'b message \<Rightarrow> 'b payload result" where
  "reply_result m = (if msg_mtype m = ERROR then Inl (CallFailed (msg_source m)) else Inr (fst (take_payload m)))"

definition handle_message ::
  "('b, 'f, 'u) env \<Rightarrow> caller \<Rightarrow> u64 \<Rightarrow> 'b message \<Rightarrow> ('b, 'f, 'u) node \<Rightarrow> ('b, 'f, 'u) node outcome option" where
  "handle_message e c h m nd =
     (case nd_svcs nd h of
        None \<Rightarrow> Some (Inr nd)
      | Some sv \<Rightarrow>
          if is_reply (msg_mtype m) \<and> msg_session m \<noteq> 0 then
            (case complete (msg_session m) (reply_result m) (sv_sessions sv) of (_, ws, t) \<Rightarrow>
               wake_wakers c ws (upd_svc h (\<lambda>sv. sv\<lparr>sv_message_count := sv_message_count sv + 1, sv_sessions := t\<rparr>) nd))
          else if sv_lifecycle sv \<noteq> Running then
            (case sv_pending sv of
               None \<Rightarrow> Some (Inl (Panic ''a service that is not running still has its pending queue''))
             | Some q \<Rightarrow> Some (Inr (upd_svc h (\<lambda>sv. sv\<lparr>sv_pending := Some (q @ [m])\<rparr>) nd)))
          else
            install_task e c h (UserFut (code_dispatch (sv_code sv) h m))
              (if msg_session m \<noteq> 0 \<and> msg_source m \<noteq> 0 then Some (msg_source m, msg_session m) else None) (msg_source m)
              (upd_svc h (\<lambda>sv. sv\<lparr>sv_message_count := sv_message_count sv + 1\<rparr>) nd))"

text \<open>The async block around \<^verbatim>\<open>init\<close>, once the user's future is ready.\<close>

definition init_ready ::
  "('b, 'f, 'u) env \<Rightarrow> caller \<Rightarrow> u64 \<Rightarrow> error + unit \<Rightarrow> ('b, 'f, 'u) node \<Rightarrow> ('b, 'f, 'u) node outcome option" where
  "init_ready e c h r nd =
     (case r of
        Inr _ \<Rightarrow> finish_init c h (Inr ()) nd
      | Inl err \<Rightarrow>
          obind (assert_ownership c h) (\<lambda>_.
          obind (log_node c h (INIT_FAILED_TEXT @ utf8 (ev_show e err)) nd) (\<lambda>nd.
          obind (finish_init c h (Inl (ev_show e err)) nd) (\<lambda>nd.
          obind (assert_ownership c h) (\<lambda>_. request_exit c h nd)))))"

definition poll_task ::
  "('b, 'f, 'u) env \<Rightarrow> caller \<Rightarrow> u64 \<Rightarrow> task_id \<Rightarrow> ('b, 'f, 'u) node \<Rightarrow> ('b, 'f, 'u) node outcome option" where
  "poll_task e c h task nd =
     (case nd_svcs nd h of
        None \<Rightarrow> Some (Inr nd)
      | Some sv \<Rightarrow>
          (case take_task task (sv_tasks sv) of
             (None, ts) \<Rightarrow> Some (Inr nd)
           | (Some (fut, source), ts) \<Rightarrow>
               (let c = enter c h;
                    nd = upd_svc h (\<lambda>sv. sv\<lparr>sv_tasks := ts\<rparr>) nd;
                    remove = (\<lambda>nd. Some (Inr (upd_svc h (\<lambda>sv. sv\<lparr>sv_tasks := remove_task task (sv_tasks sv)\<rparr>) nd)));
                    restore = (\<lambda>fut nd. Some (Inr (upd_svc h (\<lambda>sv. sv\<lparr>sv_tasks := restore_task task fut (sv_tasks sv)\<rparr>) nd)))
                in (case fut of
                      UserFut f \<Rightarrow>
                        obind (ev_poll e c h task f nd) (\<lambda>(r, nd).
                          case r of Completed _ \<Rightarrow> remove nd | StillPending f \<Rightarrow> restore (UserFut f) nd)
                    | InitFut f \<Rightarrow>
                        obind (ev_poll e c h task f nd) (\<lambda>(r, nd).
                          case r of
                            Completed r \<Rightarrow> obind (init_ready e c h r nd) remove
                          | StillPending f \<Rightarrow> restore (InitFut f) nd)))))"

definition run_work ::
  "('b, 'f, 'u) env \<Rightarrow> caller \<Rightarrow> u64 \<Rightarrow> 'b message work \<Rightarrow> ('b, 'f, 'u) node \<Rightarrow> ('b, 'f, 'u) node outcome option" where
  "run_work e c h w nd = (case w of WReady task \<Rightarrow> poll_task e c h task nd | WMessage m \<Rightarrow> handle_message e c h m nd)"

section \<open>Destruction\<close>

fun fut_of :: "'f fut \<Rightarrow> 'f" where
  "fut_of (UserFut f) = f"
| "fut_of (InitFut f) = f"

fun drop_tasks :: "('b, 'f, 'u) env \<Rightarrow> caller \<Rightarrow> u64 \<Rightarrow> 'f fut list \<Rightarrow> ('b, 'f, 'u) node \<Rightarrow> ('b, 'f, 'u) node outcome option" where
  "drop_tasks e c h [] nd = Some (Inr nd)"
| "drop_tasks e c h (f # fs) nd = obind (ev_drop e c h (fut_of f) nd) (drop_tasks e c h fs)"

text \<open>The requests among the messages nobody will handle.\<close>

definition unanswered :: "'b message list \<Rightarrow> (u64 \<times> u64) list" where
  "unanswered ms =
     map (\<lambda>m. (msg_source m, msg_session m))
       (filter (\<lambda>m. needs_reply m \<and> msg_source m \<noteq> 0 \<and> \<not> is_reply (msg_mtype m)) ms)"

text \<open>One round of \<^verbatim>\<open>cleanup\<close>, up to the attempt to let the mailbox go.\<close>

definition cleanup_tasks ::
  "('b, 'f, 'u) env \<Rightarrow> caller \<Rightarrow> u64 \<Rightarrow> ('b, 'f, 'u) node \<Rightarrow> ('b, 'f, 'u) node outcome option" where
  "cleanup_tasks e c h nd =
     obind (fail_inflight c h nd) (\<lambda>nd.
       (case nd_svcs nd h of
          None \<Rightarrow> Some (Inr nd)
        | Some sv \<Rightarrow>
            (case drain_tasks (sv_tasks sv) of (fs, ts) \<Rightarrow>
               obind (drop_tasks e c h fs (upd_svc h (\<lambda>sv. sv\<lparr>sv_tasks := ts\<rparr>) nd)) (\<lambda>nd.
                 Some (Inr (upd_svc h (\<lambda>sv. sv\<lparr>sv_sessions := clear_sessions (sv_sessions sv)\<rparr>) nd))))))"

definition cleanup_mailbox :: "caller \<Rightarrow> u64 \<Rightarrow> ('b, 'f, 'u) node \<Rightarrow> ('b, 'f, 'u) node outcome option" where
  "cleanup_mailbox c h nd =
     (case nd_svcs nd h of
        None \<Rightarrow> Some (Inr nd)
      | Some sv \<Rightarrow>
          (case drain_mailbox (sv_mailbox sv) of (ms, mb) \<Rightarrow>
             send_errors c h (unanswered ms) (upd_svc h (\<lambda>sv. sv\<lparr>sv_mailbox := mb\<rparr>) nd)))"

definition cleanup_pending :: "caller \<Rightarrow> u64 \<Rightarrow> ('b, 'f, 'u) node \<Rightarrow> ('b, 'f, 'u) node outcome option" where
  "cleanup_pending c h nd =
     (case nd_svcs nd h of
        None \<Rightarrow> Some (Inr nd)
      | Some sv \<Rightarrow>
          (case sv_pending sv of
             None \<Rightarrow> Some (Inr nd)
           | Some ms \<Rightarrow> send_errors c h (unanswered ms) (upd_svc h (\<lambda>sv. sv\<lparr>sv_pending := None\<rparr>) nd)))"

definition cleanup_init :: "caller \<Rightarrow> u64 \<Rightarrow> ('b, 'f, 'u) node \<Rightarrow> ('b, 'f, 'u) node outcome option" where
  "cleanup_init c h nd =
     (case nd_svcs nd h of
        None \<Rightarrow> Some (Inr nd)
      | Some sv \<Rightarrow> if sv_lifecycle sv = Initializing then finish_init c h (Inl EXITED_TEXT) nd else Some (Inr nd))"

definition cleanup_round ::
  "('b, 'f, 'u) env \<Rightarrow> caller \<Rightarrow> u64 \<Rightarrow> ('b, 'f, 'u) node \<Rightarrow> ('b, 'f, 'u) node outcome option" where
  "cleanup_round e c h nd =
     obind (cleanup_tasks e c h nd) (\<lambda>nd.
     obind (cleanup_mailbox c h nd) (\<lambda>nd.
     obind (cleanup_pending c h nd) (cleanup_init c h)))"

partial_function (option) cleanup ::
  "('b, 'f, 'u) env \<Rightarrow> caller \<Rightarrow> u64 \<Rightarrow> ('b, 'f, 'u) node \<Rightarrow> ('b, 'f, 'u) node outcome option" where
  "cleanup e c h nd =
     (case cleanup_round e (enter c h) h nd of
        None \<Rightarrow> None
      | Some (Inl p) \<Rightarrow> Some (Inl p)
      | Some (Inr nd) \<Rightarrow>
          (case nd_svcs nd h of
             None \<Rightarrow> Some (Inr nd)
           | Some sv \<Rightarrow>
               (case release (sv_mailbox sv) of
                  Inl p \<Rightarrow> Some (Inl p)
                | Inr (gone, mb) \<Rightarrow>
                    (let nd = upd_svc h (\<lambda>sv. sv\<lparr>sv_mailbox := mb\<rparr>) nd in
                     if gone then Some (Inr nd) else cleanup e c h nd))))"

section \<open>The end of the node\<close>

definition set_quit_locked :: "('b, 'f, 'u) node \<Rightarrow> bool \<times> ('b, 'f, 'u) node" where
  "set_quit_locked nd =
     (if sd_quit (nd_sched nd) then (False, nd) else (True, nd\<lparr>nd_sched := set_quit (nd_sched nd)\<rparr>))"

definition interrupt_all :: "('b, 'f, 'u) node \<Rightarrow> ('b, 'f, 'u) node" where
  "interrupt_all nd = foldl (\<lambda>nd ctx. upd_svc (ctx_handle ctx) interrupt_svc nd) nd (contexts (nd_handles nd))"

definition quit :: "('b, 'f, 'u) node \<Rightarrow> ('b, 'f, 'u) node" where
  "quit nd = (case set_quit_locked nd of (changed, nd) \<Rightarrow> if changed then interrupt_all nd else nd)"

definition mark_booted :: "('b, 'f, 'u) node \<Rightarrow> ('b, 'f, 'u) node" where
  "mark_booted nd =
     (let nd = nd\<lparr>nd_booted := True\<rparr> in
      case (if nd_total nd = 0 then set_quit_locked nd else (False, nd)) of
        (changed, nd) \<Rightarrow> if changed then interrupt_all nd else nd)"

fun retire_each :: "caller \<Rightarrow> u64 list \<Rightarrow> ('b, 'f, 'u) node \<Rightarrow> ('b, 'f, 'u) node outcome option" where
  "retire_each c [] nd = Some (Inr nd)"
| "retire_each c (h # hs) nd = obind (retire_svc c h nd) (\<lambda>(_, nd). retire_each c hs nd)"

text \<open>One sweep of \<^verbatim>\<open>retire_all\<close> over the handles of the moment, and how many it retired.\<close>

fun retire_sweep :: "caller \<Rightarrow> u64 list \<Rightarrow> nat \<Rightarrow> ('b, 'f, 'u) node \<Rightarrow> (nat \<times> ('b, 'f, 'u) node) outcome option" where
  "retire_sweep c [] remaining nd = Some (Inr (remaining, nd))"
| "retire_sweep c (h # hs) remaining nd =
     (if (case grab (nd_handles nd) h of
            Some ctx \<Rightarrow> (case nd_svcs nd (ctx_handle ctx) of Some sv \<Rightarrow> sv_reserved sv | None \<Rightarrow> False)
          | None \<Rightarrow> False)
      then retire_sweep c hs remaining nd
      else obind (retire_svc c h nd) (\<lambda>(_, nd). retire_sweep c hs (remaining + 1) nd))"

partial_function (option) retire_all :: "caller \<Rightarrow> ('b, 'f, 'u) node \<Rightarrow> ('b, 'f, 'u) node outcome option" where
  "retire_all c nd =
     (case retire_sweep c (handles (nd_handles nd)) 0 nd of
        None \<Rightarrow> None
      | Some (Inl p) \<Rightarrow> Some (Inl p)
      | Some (Inr (remaining, nd)) \<Rightarrow> if remaining = 0 then Some (Inr nd) else retire_all c nd)"

definition retire_reserved :: "caller \<Rightarrow> bool \<Rightarrow> ('b, 'f, 'u) node \<Rightarrow> ('b, 'f, 'u) node outcome option" where
  "retire_reserved c keep_logger nd =
     retire_each c (filter (\<lambda>h. \<not> (keep_logger \<and> h = nd_logger nd)) (handles (nd_handles nd))) nd"

definition abort_node :: "caller \<Rightarrow> ('b, 'f, 'u) node \<Rightarrow> ('b, 'f, 'u) node outcome option" where
  "abort_node c nd = retire_all c (quit nd)"

definition KILL_TEXT :: string where "KILL_TEXT = ''KILL ''"
definition LAUNCH_TEXT :: string where "LAUNCH_TEXT = ''LAUNCH ''"

definition destroy :: "('b, 'f, 'u) env \<Rightarrow> caller \<Rightarrow> u64 \<Rightarrow> ('b, 'f, 'u) node \<Rightarrow> ('b, 'f, 'u) node outcome option" where
  "destroy e c h nd =
     obind (cleanup e c h nd) (\<lambda>nd.
       (case nd_svcs nd h of
          None \<Rightarrow> Some (Inr nd)
        | Some sv \<Rightarrow>
            if sv_destroyed sv then Some (Inr nd)
            else
              obind (log_node c h (utf8 (KILL_TEXT @ sv_kind sv)) (upd_svc h (\<lambda>sv. sv\<lparr>sv_destroyed := True\<rparr>) nd)) (\<lambda>nd.
                if sv_reserved sv then Some (Inr nd)
                else if nd_total nd \<le> 0 then Some (Inl (Panic ''assertion failed: previous > 0''))
                else
                  (let previous = nd_total nd;
                       nd = nd\<lparr>nd_total := previous - 1\<rparr>
                   in case (if previous = 1 \<and> nd_booted nd then set_quit_locked nd else (False, nd)) of
                        (changed, nd) \<Rightarrow> Some (Inr (if changed then interrupt_all nd else nd))))))"

section \<open>Creation\<close>

definition QUIT_TEXT :: string where
  "QUIT_TEXT = map (\<lambda>n. char_of (n :: nat)) [0xe8, 0x8a, 0x82, 0xe7, 0x82, 0xb9, 0xe5, 0xb7, 0xb2,
     0xe7, 0xbb, 0x8f, 0xe6, 0x94, 0xb6, 0xe5, 0xb7, 0xa5, 0xef, 0xbc, 0x8c, 0xe4, 0xb8, 0x8d, 0xe8, 0x83,
     0xbd, 0xe5, 0x86, 0x8d, 0xe5, 0x90, 0xaf, 0xe5, 0x8a, 0xa8, 0xe6, 0x96, 0xb0, 0xe6, 0x9c, 0x8d, 0xe5,
     0x8a, 0xa1]"

text \<open>\<^verbatim>\<open>spawn_exclusive\<close>: the table of threads forgets those that have finished.\<close>

definition spawn_exclusive :: "u64 \<Rightarrow> ('b, 'f, 'u) node \<Rightarrow> ('b, 'f, 'u) node" where
  "spawn_exclusive h nd =
     (let alive = filter (\<lambda>k. case nd_svcs nd k of Some sv \<Rightarrow> \<not> sv_finished sv | None \<Rightarrow> False) (nd_exclusives nd)
      in nd\<lparr>nd_exclusives := alive @ [h]\<rparr>)"

definition new_service_inner ::
  "('b, 'f, 'u) env \<Rightarrow> caller \<Rightarrow> string \<Rightarrow> string \<Rightarrow> bool \<Rightarrow> ('b, 'f, 'u) node \<Rightarrow>
   (u64 result \<times> ('b, 'f, 'u) node) outcome option" where
  "new_service_inner e c kind args reserved nd =
     (case nd_modules nd kind of
        None \<Rightarrow> Some (Inr (Inl (UnknownService kind), nd))
      | Some inst \<Rightarrow>
          if sd_quit (nd_sched nd) then Some (Inr (Inl (ServiceError QUIT_TEXT), nd))
          else
            obind (register_with (\<lambda>h. \<lparr>ctx_handle = h\<rparr>) (nd_handles nd)) (\<lambda>(ctx, hs).
              (let h = ctx_handle ctx;
                   sv = new_service_ctx kind inst reserved (nd_clock nd);
                   nd = nd\<lparr>nd_handles := hs, nd_svcs := (nd_svcs nd)(h \<mapsto> sv),
                           nd_total := (if reserved then nd_total nd else nd_total nd + 1)\<rparr>
               in obind (install_task e (enter c h) h (InitFut (code_init inst h args)) None 0 nd) (\<lambda>nd.
                  obind (if code_exclusive inst then Some (Inr (spawn_exclusive h nd)) else enqueue c h nd) (\<lambda>nd.
                  obind (log_node c h (utf8 (LAUNCH_TEXT @ kind @ '' '' @ args)) nd) (\<lambda>nd.
                    Some (Inr (Inr h, nd))))))))"

definition new_service ::
  "('b, 'f, 'u) env \<Rightarrow> caller \<Rightarrow> string \<Rightarrow> string \<Rightarrow> ('b, 'f, 'u) node \<Rightarrow> (u64 result \<times> ('b, 'f, 'u) node) outcome option" where
  "new_service e c kind args nd = new_service_inner e c kind args False nd"

definition new_reserved_service ::
  "('b, 'f, 'u) env \<Rightarrow> caller \<Rightarrow> string \<Rightarrow> string \<Rightarrow> ('b, 'f, 'u) node \<Rightarrow> (u64 result \<times> ('b, 'f, 'u) node) outcome option" where
  "new_reserved_service e c kind args nd = new_service_inner e c kind args True nd"

section \<open>Execution\<close>

definition YIELD_INTERVAL :: nat where "YIELD_INTERVAL = 64"

datatype ran = RanIdle | RanYielded | RanDead

definition is_dead_svc :: "u64 \<Rightarrow> ('b, 'f, 'u) node \<Rightarrow> bool" where
  "is_dead_svc h nd = (case nd_svcs nd h of Some sv \<Rightarrow> sv_dead sv | None \<Rightarrow> False)"

definition is_running_svc :: "u64 \<Rightarrow> ('b, 'f, 'u) node \<Rightarrow> bool" where
  "is_running_svc h nd = (case nd_svcs nd h of Some sv \<Rightarrow> sv_lifecycle sv = Running | None \<Rightarrow> False)"

text \<open>\<^verbatim>\<open>take_work\<close> on the mailbox of a service of the node.\<close>

definition svc_take_work ::
  "u64 \<Rightarrow> ('b, 'f, 'u) node \<Rightarrow> ('b message work option \<times> ('b, 'f, 'u) node) outcome option" where
  "svc_take_work h nd =
     (case nd_svcs nd h of
        None \<Rightarrow> Some (Inr (None, nd))
      | Some sv \<Rightarrow>
          obind (take_work (sv_mailbox sv)) (\<lambda>(w, mb). Some (Inr (w, upd_svc h (\<lambda>sv. sv\<lparr>sv_mailbox := mb\<rparr>) nd))))"

text \<open>A message taken from the mailbox first reports an overload.\<close>

definition run_taken ::
  "('b, 'f, 'u) env \<Rightarrow> caller \<Rightarrow> u64 \<Rightarrow> 'b message work \<Rightarrow> ('b, 'f, 'u) node \<Rightarrow> ('b, 'f, 'u) node outcome option" where
  "run_taken e c h w nd =
     (case w of
        WReady task \<Rightarrow> run_work e c h w nd
      | WMessage m \<Rightarrow>
          (case nd_svcs nd h of
             None \<Rightarrow> Some (Inr nd)
           | Some sv \<Rightarrow>
               (case take_overload (sv_mailbox sv) of (overload, mb) \<Rightarrow>
                  (let nd = upd_svc h (\<lambda>sv. sv\<lparr>sv_mailbox := mb\<rparr>) nd in
                   obind (if 0 < overload then log_node c h (OVERLOAD_TEXT @ utf8 (dec_string overload)) nd else Some (Inr nd))
                     (run_work e c h w)))))"

text \<open>
  One turn of the loop of \<^verbatim>\<open>run_service\<close>: what is buffered from the time of the initialisation, then what the
  mailbox hands out.  The result says whether there was work, and whether it came from the buffer.
\<close>

datatype turn = TurnPending | TurnMailbox | TurnEmpty

definition run_turn ::
  "('b, 'f, 'u) env \<Rightarrow> caller \<Rightarrow> u64 \<Rightarrow> ('b, 'f, 'u) node \<Rightarrow> (turn \<times> ('b, 'f, 'u) node) outcome option" where
  "run_turn e c h nd =
     (case (if is_running_svc h nd then take_pending h nd else (None, nd)) of
        (Some m, nd) \<Rightarrow> obind (run_work e c h (WMessage m) nd) (\<lambda>nd. Some (Inr (TurnPending, nd)))
      | (None, nd) \<Rightarrow>
          obind (svc_take_work h nd) (\<lambda>(w, nd).
            case w of
              None \<Rightarrow> Some (Inr (TurnEmpty, nd))
            | Some w \<Rightarrow> obind (run_taken e c h w nd) (\<lambda>nd. Some (Inr (TurnMailbox, nd)))))"

partial_function (option) run_loop ::
  "('b, 'f, 'u) env \<Rightarrow> caller \<Rightarrow> u64 \<Rightarrow> bool \<Rightarrow> nat \<Rightarrow> ('b, 'f, 'u) node \<Rightarrow> (ran \<times> ('b, 'f, 'u) node) outcome option" where
  "run_loop e c h preemptible finished nd =
     (case run_turn e c h nd of
        None \<Rightarrow> None
      | Some (Inl p) \<Rightarrow> Some (Inl p)
      | Some (Inr (TurnEmpty, nd)) \<Rightarrow> Some (Inr (RanIdle, nd))
      | Some (Inr (t, nd)) \<Rightarrow>
          if is_dead_svc h nd then Some (Inr (RanDead, nd))
          else if preemptible \<and> YIELD_INTERVAL \<le> finished + 1 \<and> should_yield (nd_sched nd) then Some (Inr (RanYielded, nd))
          else run_loop e c h preemptible
                 (if t = TurnMailbox \<and> preemptible \<and> YIELD_INTERVAL \<le> finished + 1 then 0 else finished + 1) nd)"

definition run_service ::
  "('b, 'f, 'u) env \<Rightarrow> caller \<Rightarrow> u64 \<Rightarrow> bool \<Rightarrow> ('b, 'f, 'u) node \<Rightarrow> (ran \<times> ('b, 'f, 'u) node) outcome option" where
  "run_service e c h preemptible nd =
     (if is_dead_svc h nd then Some (Inr (RanDead, nd)) else run_loop e (enter c h) h preemptible 0 nd)"

text \<open>\<^verbatim>\<open>DispatchStep\<close>: the service to run next, and the one that has just yielded.\<close>

record dispatch_result =
  dr_next :: "u64 option"
  dr_yielded :: "u64 option"

definition notify_push :: "caller \<Rightarrow> u64 \<Rightarrow> ('b, 'f, 'u) node \<Rightarrow> ('b, 'f, 'u) node outcome option" where
  "notify_push c h nd =
     (case nd_svcs nd h of
        None \<Rightarrow> Some (Inr nd)
      | Some sv \<Rightarrow>
          (case notify (sv_mailbox sv) of (q, mb) \<Rightarrow>
             (let nd = upd_svc h (\<lambda>sv. sv\<lparr>sv_mailbox := mb\<rparr>) nd in if q then enqueue c h nd else Some (Inr nd))))"

definition dispatch_held ::
  "('b, 'f, 'u) env \<Rightarrow> caller \<Rightarrow> u64 \<Rightarrow> ('b, 'f, 'u) node \<Rightarrow> (dispatch_result \<times> ('b, 'f, 'u) node) outcome option" where
  "dispatch_held e c h nd =
     obind (run_service e c h True nd) (\<lambda>(r, nd).
       case r of
         RanDead \<Rightarrow>
           obind (destroy e c h nd) (\<lambda>nd.
           obind (dequeue c nd) (\<lambda>(next, nd). Some (Inr (\<lparr>dr_next = next, dr_yielded = None\<rparr>, nd))))
       | RanIdle \<Rightarrow>
           obind (if is_dead_svc h nd then notify_push c h nd else Some (Inr nd)) (\<lambda>nd.
           obind (dequeue c nd) (\<lambda>(next, nd). Some (Inr (\<lparr>dr_next = next, dr_yielded = None\<rparr>, nd))))
       | RanYielded \<Rightarrow>
           obind (dequeue c nd) (\<lambda>(next, nd).
             case next of
               Some _ \<Rightarrow> obind (enqueue c h nd) (\<lambda>nd. Some (Inr (\<lparr>dr_next = next, dr_yielded = Some h\<rparr>, nd)))
             | None \<Rightarrow> Some (Inr (\<lparr>dr_next = Some h, dr_yielded = Some h\<rparr>, nd))))"

definition dispatch_step ::
  "('b, 'f, 'u) env \<Rightarrow> caller \<Rightarrow> u64 option \<Rightarrow> ('b, 'f, 'u) node \<Rightarrow> (dispatch_result \<times> ('b, 'f, 'u) node) outcome option" where
  "dispatch_step e c hold nd =
     (case hold of
        Some h \<Rightarrow> dispatch_held e c h nd
      | None \<Rightarrow>
          obind (dequeue c nd) (\<lambda>(r, nd).
            case r of
              Some h \<Rightarrow> dispatch_held e c h nd
            | None \<Rightarrow> Some (Inr (\<lparr>dr_next = None, dr_yielded = None\<rparr>, nd))))"

fun drain_loop ::
  "('b, 'f, 'u) env \<Rightarrow> caller \<Rightarrow> u64 \<Rightarrow> nat \<Rightarrow> ('b, 'f, 'u) node \<Rightarrow> ('b, 'f, 'u) node outcome option" where
  "drain_loop e c h 0 nd = Some (Inr nd)"
| "drain_loop e c h (Suc budget) nd =
     (if \<not> is_running_svc h nd then Some (Inr nd)
      else obind (svc_take_work h nd) (\<lambda>(w, nd).
             case w of None \<Rightarrow> Some (Inr nd) | Some w \<Rightarrow> obind (run_work e c h w nd) (drain_loop e c h budget)))"

definition drain_service ::
  "('b, 'f, 'u) env \<Rightarrow> caller \<Rightarrow> u64 \<Rightarrow> ('b, 'f, 'u) node \<Rightarrow> ('b, 'f, 'u) node outcome option" where
  "drain_service e c h nd =
     (case nd_svcs nd h of
        None \<Rightarrow> Some (Inr nd)
      | Some sv \<Rightarrow> drain_loop e (enter c h) h (mailbox_len (sv_mailbox sv) * 2 + task_len (sv_tasks sv) * 2 + 16) nd)"

text \<open>
  The thread of an exclusive service: its start, one turn of its loop, which says whether the loop goes on,
  and its end.
\<close>

definition exclusive_start :: "u64 \<Rightarrow> ('b, 'f, 'u) node \<Rightarrow> ('b, 'f, 'u) node" where
  "exclusive_start h nd = upd_svc h (\<lambda>sv. sv\<lparr>sv_thread := True\<rparr>) nd"

definition svc_mark_running :: "u64 \<Rightarrow> ('b, 'f, 'u) node \<Rightarrow> ('b, 'f, 'u) node" where
  "svc_mark_running h nd = upd_svc h (\<lambda>sv. sv\<lparr>sv_mailbox := mark_running (sv_mailbox sv)\<rparr>) nd"

definition exclusive_turn ::
  "('b, 'f, 'u) env \<Rightarrow> caller \<Rightarrow> u64 \<Rightarrow> ('b, 'f, 'u) node \<Rightarrow> (bool \<times> ('b, 'f, 'u) node) outcome option" where
  "exclusive_turn e c h nd =
     obind (run_service e c h False (svc_mark_running h nd)) (\<lambda>(r, nd).
       if r = RanDead \<or> is_dead_svc h nd then Some (Inr (False, nd))
       else obind (ev_idle e (enter c h) h nd) (\<lambda>nd. Some (Inr (True, nd))))"

definition exclusive_finish ::
  "('b, 'f, 'u) env \<Rightarrow> caller \<Rightarrow> u64 \<Rightarrow> ('b, 'f, 'u) node \<Rightarrow> ('b, 'f, 'u) node outcome option" where
  "exclusive_finish e c h nd =
     obind (drain_service e c h (svc_mark_running h nd)) (\<lambda>nd.
     obind (destroy e c h (svc_mark_running h nd)) (\<lambda>nd.
       Some (Inr (upd_svc h (\<lambda>sv. sv\<lparr>sv_finished := True\<rparr>) nd))))"

partial_function (option) exclusive_loop ::
  "('b, 'f, 'u) env \<Rightarrow> caller \<Rightarrow> u64 \<Rightarrow> ('b, 'f, 'u) node \<Rightarrow> ('b, 'f, 'u) node outcome option" where
  "exclusive_loop e c h nd =
     (case exclusive_turn e c h nd of
        None \<Rightarrow> None
      | Some (Inl p) \<Rightarrow> Some (Inl p)
      | Some (Inr (again, nd)) \<Rightarrow> if again then exclusive_loop e c h nd else exclusive_finish e c h nd)"

section \<open>Timers, monitoring, joining\<close>

definition timeout ::
  "caller \<Rightarrow> u64 \<Rightarrow> u64 \<Rightarrow> u64 \<Rightarrow> ('b, 'f, 'u) node \<Rightarrow> ('b, 'f, 'u) node outcome option" where
  "timeout c h delay_ms session nd =
     (if delay_ms = 0 then obind (send_raw c 0 h RESPONSE session PNone nd) (\<lambda>(_, nd). Some (Inr nd))
      else Some (Inr (nd\<lparr>nd_timer := nd_timer nd @ [TimerTimeout h session delay_ms]\<rparr>)))"

definition cancel_timeout :: "u64 \<Rightarrow> u64 \<Rightarrow> ('b, 'f, 'u) node \<Rightarrow> ('b, 'f, 'u) node" where
  "cancel_timeout h session nd = nd\<lparr>nd_timer := nd_timer nd @ [TimerCancel h session]\<rparr>"

definition set_logger :: "u64 \<Rightarrow> ('b, 'f, 'u) node \<Rightarrow> ('b, 'f, 'u) node" where
  "set_logger h nd = nd\<lparr>nd_logger := h\<rparr>"

definition report_endless ::
  "caller \<Rightarrow> u64 \<Rightarrow> u64 \<Rightarrow> u64 \<Rightarrow> ('b, 'f, 'u) node \<Rightarrow> ('b, 'f, 'u) node outcome option" where
  "report_endless c source destination version nd =
     log_node c 0
       (ENDLESS_TEXT_1 @ utf8 (pad_left 8 (hex_string (unat source))) @ ENDLESS_TEXT_2 @
        utf8 (pad_left 8 (hex_string (unat destination))) @ ENDLESS_TEXT_3 @ utf8 (dec_string (unat version) @ '')''))
       (case grab (nd_handles nd) destination of
          None \<Rightarrow> nd
        | Some ctx \<Rightarrow> upd_svc (ctx_handle ctx) (\<lambda>sv. sv\<lparr>sv_endless := True\<rparr>) nd)"

definition take_endless :: "('b, 'f) service \<Rightarrow> bool \<times> ('b, 'f) service" where
  "take_endless sv = (sv_endless sv, sv\<lparr>sv_endless := False\<rparr>)"

text \<open>The threads to join: those of services that are gone, and all of them.\<close>

definition join_retired_exclusives :: "('b, 'f, 'u) node \<Rightarrow> u64 list \<times> ('b, 'f, 'u) node" where
  "join_retired_exclusives nd =
     (filter (\<lambda>h. grab (nd_handles nd) h = None) (nd_exclusives nd),
      nd\<lparr>nd_exclusives := filter (\<lambda>h. grab (nd_handles nd) h \<noteq> None) (nd_exclusives nd)\<rparr>)"

definition join_exclusives :: "('b, 'f, 'u) node \<Rightarrow> u64 list \<times> ('b, 'f, 'u) node" where
  "join_exclusives nd = (nd_exclusives nd, nd\<lparr>nd_exclusives := []\<rparr>)"

definition new_node ::
  "u64 scheduler \<Rightarrow> (string \<Rightarrow> ('b, 'f) instance_code option) \<Rightarrow> u64 \<times> u64 \<Rightarrow> 'u \<Rightarrow> ('b, 'f, 'u) node" where
  "new_node sd modules clock user =
     \<lparr>nd_sched = sd, nd_handles = new_storage, nd_svcs = Map.empty, nd_modules = modules, nd_exclusives = [],
      nd_total = 0, nd_booted = False, nd_logger = 0, nd_timer = [], nd_clock = clock, nd_stderr = [], nd_user = user\<rparr>"

end
