(* ===== verification/Context.thy ===== *)
theory Context
  imports Node
begin

text \<open>
  The interface of the node: \<^verbatim>\<open>Ctx\<close> and \<^verbatim>\<open>Call\<close> (\<^verbatim>\<open>rskynet-core/src/context.rs\<close>), \<^verbatim>\<open>NodeRef\<close> and \<^verbatim>\<open>ReplyToken\<close>
  (\<^verbatim>\<open>rskynet-core/src/ext.rs\<close>).  An asynchronous operation is split at its suspension: what happens before it
  is one definition, and the future it then waits on is polled and dropped by definitions of its own.  The
  relation at the end collects what user code can do to a node.
\<close>

section \<open>Calls\<close>

record call =
  call_ctx :: u64
  call_session :: u64
  call_finished :: bool
  call_cancel_timer :: bool

text \<open>\<^verbatim>\<open>sessions.alloc\<close> of the service h, and the future of the session.\<close>

definition alloc_call ::
  "u64 \<Rightarrow> bool \<Rightarrow> ('b, 'f, 'u) node \<Rightarrow> (call \<times> ('b, 'f, 'u) node) outcome option" where
  "alloc_call h cancel_timer nd =
     (case nd_svcs nd h of
        None \<Rightarrow> Some (Inl (Panic ''no such service''))
      | Some sv \<Rightarrow>
          map_option
            (\<lambda>(session, t).
               Inr (\<lparr>call_ctx = h, call_session = session, call_finished = False, call_cancel_timer = cancel_timer\<rparr>,
                    upd_svc h (\<lambda>sv. sv\<lparr>sv_sessions := t\<rparr>) nd))
            (alloc_session (sv_sessions sv)))"

definition call_poll ::
  "caller \<Rightarrow> call \<Rightarrow> waker \<Rightarrow> ('b, 'f, 'u) node \<Rightarrow> ('b payload result poll \<times> call \<times> ('b, 'f, 'u) node) outcome option" where
  "call_poll c k w nd =
     obind (assert_ownership c (call_ctx k)) (\<lambda>_.
       (case nd_svcs nd (call_ctx k) of
          None \<Rightarrow> Some (Inr (Ready (Inl Canceled), k, nd))
        | Some sv \<Rightarrow>
            (case poll_session (=) (call_session k) w (sv_sessions sv) of (r, t) \<Rightarrow>
               Some (Inr (r, (case r of Ready _ \<Rightarrow> k\<lparr>call_finished := True\<rparr> | Pending \<Rightarrow> k),
                          upd_svc (call_ctx k) (\<lambda>sv. sv\<lparr>sv_sessions := t\<rparr>) nd)))))"

definition call_drop :: "caller \<Rightarrow> call \<Rightarrow> ('b, 'f, 'u) node \<Rightarrow> ('b, 'f, 'u) node outcome option" where
  "call_drop c k nd =
     (if call_finished k then Some (Inr nd)
      else obind (assert_ownership c (call_ctx k)) (\<lambda>_.
             (let nd = upd_svc (call_ctx k) (\<lambda>sv. sv\<lparr>sv_sessions := abandon (call_session k) (sv_sessions sv)\<rparr>) nd in
              Some (Inr (if call_cancel_timer k then cancel_timeout (call_ctx k) (call_session k) nd else nd)))))"

section \<open>What a service does with its context\<close>

definition ctx_send ::
  "caller \<Rightarrow> u64 \<Rightarrow> addr \<Rightarrow> msg_type \<Rightarrow> 'b payload \<Rightarrow> ('b, 'f, 'u) node \<Rightarrow> (unit result \<times> ('b, 'f, 'u) node) outcome option" where
  "ctx_send c h dest mtype p nd =
     obind (assert_ownership c h) (\<lambda>_.
       (case resolve nd dest of
          Inl err \<Rightarrow> Some (Inr (Inl err, nd))
        | Inr dest \<Rightarrow> send_raw c h dest mtype 0 p nd))"

definition ctx_post ::
  "caller \<Rightarrow> u64 \<Rightarrow> addr \<Rightarrow> 'b payload \<Rightarrow> ('b, 'f, 'u) node \<Rightarrow> (unit result \<times> ('b, 'f, 'u) node) outcome option" where
  "ctx_post c h dest p nd = ctx_send c h dest USER p nd"

definition REPLY_TYPE_TEXT :: string where
  "REPLY_TYPE_TEXT = map (\<lambda>n. char_of (n :: nat)) [0x63, 0x61, 0x6c, 0x6c, 0x20, 0xe4, 0xb8, 0x8d,
     0xe8, 0x83, 0xbd, 0xe4, 0xbd, 0xbf, 0xe7, 0x94, 0xa8, 0xe5, 0xba, 0x94, 0xe7, 0xad, 0x94, 0xe6, 0xb6,
     0x88, 0xe6, 0x81, 0xaf, 0xe7, 0xb1, 0xbb, 0xe5, 0x9e, 0x8b, 0x20]"

definition type_debug :: "msg_type \<Rightarrow> string" where
  "type_debug t = (case type_name t of Some n \<Rightarrow> n | None \<Rightarrow> ''MsgType('' @ dec_string (unat (raw_type t)) @ '')'')"

definition ctx_call ::
  "caller \<Rightarrow> u64 \<Rightarrow> addr \<Rightarrow> msg_type \<Rightarrow> 'b payload \<Rightarrow> ('b, 'f, 'u) node \<Rightarrow> (call result \<times> ('b, 'f, 'u) node) outcome option" where
  "ctx_call c h dest mtype p nd =
     obind (assert_ownership c h) (\<lambda>_.
       if is_reply mtype then Some (Inr (Inl (ServiceError (REPLY_TYPE_TEXT @ type_debug mtype)), nd))
       else
         (case resolve nd dest of
            Inl err \<Rightarrow> Some (Inr (Inl err, nd))
          | Inr dest \<Rightarrow>
              obind (alloc_call h False nd) (\<lambda>(k, nd).
              obind (send_raw c h dest mtype (call_session k) p nd) (\<lambda>(r, nd).
                case r of
                  Inl err \<Rightarrow> obind (call_drop c k nd) (\<lambda>nd. Some (Inr (Inl err, nd)))
                | Inr _ \<Rightarrow> Some (Inr (Inr k, nd))))))"

definition ctx_reply ::
  "caller \<Rightarrow> u64 \<Rightarrow> 'b message \<Rightarrow> 'b payload \<Rightarrow> ('b, 'f, 'u) node \<Rightarrow> (unit result \<times> ('b, 'f, 'u) node) outcome option" where
  "ctx_reply c h request p nd =
     obind (assert_ownership c h) (\<lambda>_.
       if \<not> needs_reply request then Some (Inr (Inr (), nd))
       else send_raw c h (msg_source request) RESPONSE (msg_session request) p nd)"

definition ctx_reply_error ::
  "caller \<Rightarrow> u64 \<Rightarrow> 'b message \<Rightarrow> ('b, 'f, 'u) node \<Rightarrow> (unit result \<times> ('b, 'f, 'u) node) outcome option" where
  "ctx_reply_error c h request nd =
     obind (assert_ownership c h) (\<lambda>_.
       if \<not> needs_reply request then Some (Inr (Inr (), nd))
       else send_raw c h (msg_source request) ERROR (msg_session request) PNone nd)"

definition ctx_sleep ::
  "caller \<Rightarrow> u64 \<Rightarrow> u64 \<Rightarrow> ('b, 'f, 'u) node \<Rightarrow> (call \<times> ('b, 'f, 'u) node) outcome option" where
  "ctx_sleep c h ms nd =
     obind (assert_ownership c h) (\<lambda>_.
     obind (alloc_call h (ms \<noteq> 0) nd) (\<lambda>(k, nd).
     obind (timeout c h ms (call_session k) nd) (\<lambda>nd. Some (Inr (k, nd)))))"

definition trim_dots :: "string \<Rightarrow> string" where
  "trim_dots n = dropWhile (\<lambda>ch. ch = CHR ''.'') n"

definition ctx_register_name ::
  "caller \<Rightarrow> u64 \<Rightarrow> string \<Rightarrow> ('b, 'f, 'u) node \<Rightarrow> (bool \<times> ('b, 'f, 'u) node) outcome option" where
  "ctx_register_name c h n nd =
     obind (assert_ownership c h) (\<lambda>_.
       (case register_name h (trim_dots n) (nd_handles nd) of (ok, hs) \<Rightarrow> Some (Inr (ok, nd\<lparr>nd_handles := hs\<rparr>))))"

definition ctx_exit :: "caller \<Rightarrow> u64 \<Rightarrow> ('b, 'f, 'u) node \<Rightarrow> ('b, 'f, 'u) node outcome option" where
  "ctx_exit c h nd = obind (assert_ownership c h) (\<lambda>_. request_exit c h nd)"

definition ctx_log :: "caller \<Rightarrow> u64 \<Rightarrow> bytes \<Rightarrow> ('b, 'f, 'u) node \<Rightarrow> ('b, 'f, 'u) node outcome option" where
  "ctx_log c h txt nd = obind (assert_ownership c h) (\<lambda>_. log_node c h txt nd)"

text \<open>\<^verbatim>\<open>register_debug_messages_into\<close>: all the new messages or none.  A descriptor is known by its name and type.\<close>

fun first_duplicate :: "('n \<times> 't) list \<Rightarrow> ('n \<times> 't) list \<Rightarrow> ('n \<times> 't) option" where
  "first_duplicate known [] = None"
| "first_duplicate known (m # ms) = (if m \<in> set known then Some m else first_duplicate (known @ [m]) ms)"

definition register_debug_messages ::
  "('n \<times> 't) list \<Rightarrow> ('n \<times> 't) list \<Rightarrow> ('n \<times> 't) list \<Rightarrow> ('n \<times> 't) + ('n \<times> 't) list" where
  "register_debug_messages static dynamic ms =
     (case first_duplicate (static @ dynamic) ms of Some m \<Rightarrow> Inl m | None \<Rightarrow> Inr (dynamic @ ms))"

section \<open>What anyone does with a node\<close>

definition kill :: "caller \<Rightarrow> addr \<Rightarrow> ('b, 'f, 'u) node \<Rightarrow> (bool \<times> ('b, 'f, 'u) node) outcome option" where
  "kill c dest nd = (case resolve nd dest of Inl _ \<Rightarrow> Some (Inr (False, nd)) | Inr h \<Rightarrow> retire_svc c h nd)"

definition query_name :: "string \<Rightarrow> ('b, 'f, 'u) node \<Rightarrow> u64 option" where
  "query_name n nd = find_name (nd_handles nd) (trim_dots n)"

definition node_mailbox_len :: "addr \<Rightarrow> ('b, 'f, 'u) node \<Rightarrow> nat result" where
  "node_mailbox_len a nd =
     (case resolve nd a of
        Inl err \<Rightarrow> Inl err
      | Inr h \<Rightarrow>
          (case grab (nd_handles nd) h of
             None \<Rightarrow> Inl (NoService h)
           | Some ctx \<Rightarrow>
               (case nd_svcs nd (ctx_handle ctx) of Some sv \<Rightarrow> Inr (mailbox_len (sv_mailbox sv)) | None \<Rightarrow> Inl (NoService h))))"

definition node_take_endless :: "addr \<Rightarrow> ('b, 'f, 'u) node \<Rightarrow> bool result \<times> ('b, 'f, 'u) node" where
  "node_take_endless a nd =
     (case resolve nd a of
        Inl err \<Rightarrow> (Inl err, nd)
      | Inr h \<Rightarrow>
          (case grab (nd_handles nd) h of
             None \<Rightarrow> (Inl (NoService h), nd)
           | Some ctx \<Rightarrow>
               (case nd_svcs nd (ctx_handle ctx) of
                  Some sv \<Rightarrow> (Inr (fst (take_endless sv)), upd_svc (ctx_handle ctx) (\<lambda>sv. snd (take_endless sv)) nd)
                | None \<Rightarrow> (Inl (NoService h), nd))))"

record node_stats =
  ns_service_count :: nat
  ns_business_service_count :: int
  ns_runnable_services :: u64
  ns_uptime_ms :: u64

definition stats :: "('b, 'f, 'u) node \<Rightarrow> node_stats" where
  "stats nd =
     \<lparr>ns_service_count = length (contexts (nd_handles nd)), ns_business_service_count = max (nd_total nd) 0,
      ns_runnable_services = sd_pending (nd_sched nd), ns_uptime_ms = fst (nd_clock nd)\<rparr>"

record service_stat =
  ss_handle :: u64
  ss_kind :: string
  ss_names :: "string list"
  ss_start_time_unix_ms :: u64
  ss_uptime_ms :: u64
  ss_lifecycle :: lifecycle
  ss_exclusive :: bool
  ss_reserved :: bool
  ss_mailbox_len :: nat
  ss_task_count :: nat
  ss_pending_calls :: u64
  ss_message_count :: u64
  ss_endless :: bool

definition service_stats :: "u64 \<Rightarrow> string list \<Rightarrow> ('b, 'f) service \<Rightarrow> ('b, 'f, 'u) node \<Rightarrow> service_stat" where
  "service_stats h ns sv nd =
     \<lparr>ss_handle = h, ss_kind = sv_kind sv, ss_names = ns, ss_start_time_unix_ms = snd (sv_started sv),
      ss_uptime_ms = saturating_sub (fst (nd_clock nd)) (fst (sv_started sv)), ss_lifecycle = sv_lifecycle sv,
      ss_exclusive = code_exclusive (sv_code sv), ss_reserved = sv_reserved sv, ss_mailbox_len = mailbox_len (sv_mailbox sv),
      ss_task_count = task_len (sv_tasks sv), ss_pending_calls = pending_sessions (sv_sessions sv),
      ss_message_count = sv_message_count sv, ss_endless = sv_endless sv\<rparr>"

text \<open>\<^verbatim>\<open>services\<close>: the handle is the sort key, and no two entries share it.\<close>

definition services :: "('b, 'f, 'u) node \<Rightarrow> service_stat list" where
  "services nd =
     (case snapshot (nd_handles nd) of (ctxs, names) \<Rightarrow>
        sort_key ss_handle
          (List.map_filter
             (\<lambda>ctx. map_option (\<lambda>sv. service_stats (ctx_handle ctx)
                       (case bt_get names (ctx_handle ctx) of Some ns \<Rightarrow> ns | None \<Rightarrow> []) sv nd) (nd_svcs nd (ctx_handle ctx)))
             ctxs))"

section \<open>Answers from outside\<close>

record reply_token =
  rt_dest :: u64
  rt_session :: u64

definition call_external ::
  "caller \<Rightarrow> u64 \<Rightarrow> ('b, 'f, 'u) node \<Rightarrow> (reply_token \<times> call \<times> ('b, 'f, 'u) node) outcome option" where
  "call_external c h nd =
     obind (assert_ownership c h) (\<lambda>_.
     obind (alloc_call h False nd) (\<lambda>(k, nd). Some (Inr (\<lparr>rt_dest = h, rt_session = call_session k\<rparr>, k, nd))))"

definition token_finish ::
  "caller \<Rightarrow> msg_type \<Rightarrow> 'b payload \<Rightarrow> reply_token \<Rightarrow> ('b, 'f, 'u) node \<Rightarrow> (reply_token \<times> ('b, 'f, 'u) node) outcome option" where
  "token_finish c mtype p t nd =
     (if rt_session t = 0 then Some (Inr (t\<lparr>rt_session := 0\<rparr>, nd))
      else obind (send_raw c 0 (rt_dest t) mtype (rt_session t) p nd) (\<lambda>(_, nd). Some (Inr (t\<lparr>rt_session := 0\<rparr>, nd))))"

text \<open>Consuming the token drops it afterwards.\<close>

definition token_drop :: "caller \<Rightarrow> reply_token \<Rightarrow> ('b, 'f, 'u) node \<Rightarrow> ('b, 'f, 'u) node outcome option" where
  "token_drop c t nd = obind (token_finish c ERROR PNone t nd) (\<lambda>(_, nd). Some (Inr nd))"

definition token_reply :: "caller \<Rightarrow> 'b payload \<Rightarrow> reply_token \<Rightarrow> ('b, 'f, 'u) node \<Rightarrow> ('b, 'f, 'u) node outcome option" where
  "token_reply c p t nd = obind (token_finish c RESPONSE p t nd) (\<lambda>(t, nd). token_drop c t nd)"

definition token_fail :: "caller \<Rightarrow> reply_token \<Rightarrow> ('b, 'f, 'u) node \<Rightarrow> ('b, 'f, 'u) node outcome option" where
  "token_fail c t nd = obind (token_finish c ERROR PNone t nd) (\<lambda>(t, nd). token_drop c t nd)"

end
