(* ===== verification/Lifecycle.thy ===== *)
theory Lifecycle
  imports Context
begin

text \<open>
  The life of a node as a whole: what user code and the threads of the runtime can do to it, as a step
  relation, and what stays true.  User code is bound only by the interface of \<^verbatim>\<open>Context\<close>: polling or dropping a
  future, or the idle hook of an exclusive service, leaves the node as some sequence of interface steps would.
\<close>

section \<open>Steps\<close>

inductive api_step :: "('b, 'f, 'u) env \<Rightarrow> ('b, 'f, 'u) node \<Rightarrow> ('b, 'f, 'u) node \<Rightarrow> bool" for e :: "('b, 'f, 'u) env" where
  send: "send_raw c source dest mtype session p nd = Some (Inr (r, nd')) \<Longrightarrow> api_step e nd nd'"
| log: "log_node c source txt nd = Some (Inr nd') \<Longrightarrow> api_step e nd nd'"
| wake: "wake_waker c w nd = Some (Inr nd') \<Longrightarrow> api_step e nd nd'"
| spawn: "spawn_task e c h f nd = Some (Inr nd') \<Longrightarrow> api_step e nd nd'"
| sessions: "api_step e nd (upd_svc h (\<lambda>sv. sv\<lparr>sv_sessions := t\<rparr>) nd)"
| timer: "timeout c h ms session nd = Some (Inr nd') \<Longrightarrow> api_step e nd nd'"
| untimer: "api_step e nd (cancel_timeout h session nd)"
| name: "ctx_register_name c h n nd = Some (Inr (r, nd')) \<Longrightarrow> api_step e nd nd'"
| launch: "new_service e c kind args nd = Some (Inr (r, nd')) \<Longrightarrow> api_step e nd nd'"
| ticket: "poll_ticket h w nd = (r, nd') \<Longrightarrow> api_step e nd nd'"
| leave: "ctx_exit c h nd = Some (Inr nd') \<Longrightarrow> api_step e nd nd'"
| killing: "kill c a nd = Some (Inr (r, nd')) \<Longrightarrow> api_step e nd nd'"
| aborting: "abort_node c nd = Some (Inr nd') \<Longrightarrow> api_step e nd nd'"
| quitting: "api_step e nd (quit nd)"
| endless: "node_take_endless a nd = (r, nd') \<Longrightarrow> api_step e nd nd'"
| poking: "api_step e nd (nd\<lparr>nd_sched := poke (nd_sched nd)\<rparr>)"
| user: "api_step e nd (nd\<lparr>nd_user := u, nd_clock := now\<rparr>)"

definition user_code_ok :: "('b, 'f, 'u) env \<Rightarrow> bool" where
  "user_code_ok e =
     ((\<forall>c h task f nd r nd'. ev_poll e c h task f nd = Some (Inr (r, nd')) \<longrightarrow> (api_step e)\<^sup>*\<^sup>* nd nd') \<and>
      (\<forall>c h f nd nd'. ev_drop e c h f nd = Some (Inr nd') \<longrightarrow> (api_step e)\<^sup>*\<^sup>* nd nd') \<and>
      (\<forall>c h nd nd'. ev_idle e c h nd = Some (Inr nd') \<longrightarrow> (api_step e)\<^sup>*\<^sup>* nd nd'))"

text \<open>The threads of the runtime: workers, the thread of an exclusive service, start and shutdown.\<close>

inductive node_step :: "('b, 'f, 'u) env \<Rightarrow> ('b, 'f, 'u) node \<Rightarrow> ('b, 'f, 'u) node \<Rightarrow> bool" for e :: "('b, 'f, 'u) env" where
  api: "api_step e nd nd' \<Longrightarrow> node_step e nd nd'"
| dispatch: "dispatch_step e c hold nd = Some (Inr (r, nd')) \<Longrightarrow> node_step e nd nd'"
| find: "find_work_or_park w (nd_sched nd) = Some (Inr (r, sd)) \<Longrightarrow> node_step e nd (nd\<lparr>nd_sched := sd\<rparr>)"
| start: "node_step e nd (exclusive_start h nd)"
| turn: "exclusive_turn e c h nd = Some (Inr (again, nd')) \<Longrightarrow> node_step e nd nd'"
| finish: "\<lbrakk>is_dead_svc h nd; exclusive_finish e c h nd = Some (Inr nd')\<rbrakk> \<Longrightarrow> node_step e nd nd'"
| reserved: "new_reserved_service e c kind args nd = Some (Inr (r, nd')) \<Longrightarrow> node_step e nd nd'"
| logger: "node_step e nd (set_logger h nd)"
| booted: "node_step e nd (mark_booted nd)"
| monitor: "report_endless c source dest version nd = Some (Inr nd') \<Longrightarrow> node_step e nd nd'"
| retiring: "retire_reserved c keep nd = Some (Inr nd') \<Longrightarrow> node_step e nd nd'"
| joining: "join_retired_exclusives nd = (hs, nd') \<Longrightarrow> node_step e nd nd'"
| joining_all: "join_exclusives nd = (hs, nd') \<Longrightarrow> node_step e nd nd'"

section \<open>What stays true\<close>

definition counted_svcs :: "('b, 'f, 'u) node \<Rightarrow> u64 set" where
  "counted_svcs nd = {h. \<exists>sv. nd_svcs nd h = Some sv \<and> \<not> sv_reserved sv \<and> \<not> sv_destroyed sv}"

definition node_inv :: "('b, 'f, 'u) node \<Rightarrow> bool" where [inv_defs]:
  "node_inv nd =
     (storage_inv (nd_handles nd) \<and> finite (dom (nd_svcs nd)) \<and>
      (\<forall>h. grab (nd_handles nd) h \<noteq> None \<longleftrightarrow> (\<exists>sv. nd_svcs nd h = Some sv \<and> \<not> sv_dead sv)) \<and>
      (\<forall>h sv. nd_svcs nd h = Some sv \<longrightarrow> h < hs_next (nd_handles nd) \<and> (sv_destroyed sv \<longrightarrow> sv_dead sv)) \<and>
      nd_total nd = int (card (counted_svcs nd)) \<and>
      (nd_booted nd \<and> nd_total nd = 0 \<longrightarrow> sd_quit (nd_sched nd)))"

text \<open>A step keeps the invariant; services only move forward, and none appears once the node has quit.\<close>

definition svc_older :: "('b, 'f) service \<Rightarrow> ('b, 'f) service \<Rightarrow> bool" where
  "svc_older sv sv' = ((sv_dead sv \<longrightarrow> sv_dead sv') \<and> (sv_destroyed sv \<longrightarrow> sv_destroyed sv') \<and> sv_reserved sv' = sv_reserved sv)"

definition evolves :: "('b, 'f, 'u) node \<Rightarrow> ('b, 'f, 'u) node \<Rightarrow> bool" where
  "evolves nd nd' =
     (node_inv nd \<longrightarrow>
      node_inv nd' \<and>
      (\<forall>h sv. nd_svcs nd h = Some sv \<longrightarrow> (\<exists>sv'. nd_svcs nd' h = Some sv' \<and> svc_older sv sv')) \<and>
      (nd_booted nd \<longrightarrow> nd_booted nd') \<and>
      (sd_quit (nd_sched nd) \<longrightarrow> sd_quit (nd_sched nd') \<and> dom (nd_svcs nd') = dom (nd_svcs nd)))"

lemma svc_older_trans: "\<lbrakk>svc_older a b; svc_older b c\<rbrakk> \<Longrightarrow> svc_older a c"
  by (simp add: svc_older_def)

lemma evolves_refl [intro, simp]: "evolves nd nd"
  by (simp add: evolves_def svc_older_def)

lemma evolvesD:
  assumes "evolves a b" "node_inv a"
  shows "node_inv b" "nd_svcs a h = Some sv \<Longrightarrow> \<exists>sv'. nd_svcs b h = Some sv' \<and> svc_older sv sv'"
    "nd_booted a \<Longrightarrow> nd_booted b" "sd_quit (nd_sched a) \<Longrightarrow> sd_quit (nd_sched b)"
    "sd_quit (nd_sched a) \<Longrightarrow> dom (nd_svcs b) = dom (nd_svcs a)"
  using assms by (simp_all add: evolves_def)

lemma evolvesI:
  assumes "node_inv a \<Longrightarrow> node_inv b"
    and "\<And>h sv. \<lbrakk>node_inv a; nd_svcs a h = Some sv\<rbrakk> \<Longrightarrow> \<exists>sv'. nd_svcs b h = Some sv' \<and> svc_older sv sv'"
    and "nd_booted a \<Longrightarrow> nd_booted b" "sd_quit (nd_sched a) \<Longrightarrow> sd_quit (nd_sched b) \<and> dom (nd_svcs b) = dom (nd_svcs a)"
  shows "evolves a b"
  using assms by (simp add: evolves_def)

lemma evolves_trans [trans]:
  assumes ab: "evolves a b" and bc: "evolves b c"
  shows "evolves a c"
  unfolding evolves_def
proof (intro impI)
  assume inv: "node_inv a"
  note D = evolvesD [OF ab inv]
  note E = evolvesD [OF bc D(1)]
  have "\<exists>sv'. nd_svcs c h = Some sv' \<and> svc_older sv sv'" if "nd_svcs a h = Some sv" for h sv
    using D(2) [OF that] E(2) svc_older_trans by blast
  then show "node_inv c \<and> (\<forall>h sv. nd_svcs a h = Some sv \<longrightarrow> (\<exists>sv'. nd_svcs c h = Some sv' \<and> svc_older sv sv')) \<and>
    (nd_booted a \<longrightarrow> nd_booted c) \<and> (sd_quit (nd_sched a) \<longrightarrow> sd_quit (nd_sched c) \<and> dom (nd_svcs c) = dom (nd_svcs a))"
    using D(3-5) E(1,3-5) by simp
qed

lemma evolves_star: "R\<^sup>*\<^sup>* a b \<Longrightarrow> (\<And>x y. R x y \<Longrightarrow> evolves x y) \<Longrightarrow> evolves a b"
  by (induction rule: rtranclp_induct) (auto intro: evolves_trans)

text \<open>Steps that touch nothing of this keep it.\<close>

definition svc_life :: "('b, 'f) service \<Rightarrow> bool \<times> bool \<times> bool" where
  "svc_life sv = (sv_dead sv, sv_reserved sv, sv_destroyed sv)"

definition lives :: "('b, 'f, 'u) node \<Rightarrow> u64 \<Rightarrow> (bool \<times> bool \<times> bool) option" where
  "lives nd h = map_option svc_life (nd_svcs nd h)"

definition life :: "('b, 'f, 'u) node \<Rightarrow> (unit handle_storage \<times> int \<times> bool \<times> bool) \<times> (u64 \<Rightarrow> (bool \<times> bool \<times> bool) option)" where
  "life nd = ((nd_handles nd, nd_total nd, nd_booted nd, sd_quit (nd_sched nd)), lives nd)"

lemma lives_fields [simp]:
  "lives (nd\<lparr>nd_sched := sd\<rparr>) = lives nd" "lives (nd\<lparr>nd_total := t\<rparr>) = lives nd" "lives (nd\<lparr>nd_booted := b\<rparr>) = lives nd"
  by (simp_all add: lives_def fun_eq_iff)

lemma lives_counted: "counted_svcs nd = {h. \<exists>d. lives nd h = Some (d, False, False)}"
  by (auto simp: counted_svcs_def lives_def svc_life_def)

lemma lives_dom: "dom (nd_svcs nd) = dom (lives nd)"
  by (auto simp: lives_def)

lemma lives_alive: "(\<exists>sv. nd_svcs nd h = Some sv \<and> \<not> sv_dead sv) \<longleftrightarrow> (\<exists>r x. lives nd h = Some (False, r, x))"
  by (auto simp: lives_def svc_life_def)

lemma lives_all:
  "(\<forall>h sv. nd_svcs nd h = Some sv \<longrightarrow> P h \<and> (sv_destroyed sv \<longrightarrow> sv_dead sv)) \<longleftrightarrow>
   (\<forall>h d r x. lives nd h = Some (d, r, x) \<longrightarrow> P h \<and> (x \<longrightarrow> d))"
  unfolding lives_def svc_life_def map_option_eq_Some by blast

lemma node_inv_lives:
  "node_inv nd \<longleftrightarrow>
     (storage_inv (nd_handles nd) \<and> finite (dom (lives nd)) \<and>
      (\<forall>h. grab (nd_handles nd) h \<noteq> None \<longleftrightarrow> (\<exists>r x. lives nd h = Some (False, r, x))) \<and>
      (\<forall>h d r x. lives nd h = Some (d, r, x) \<longrightarrow> h < hs_next (nd_handles nd) \<and> (x \<longrightarrow> d)) \<and>
      nd_total nd = int (card {h. \<exists>d. lives nd h = Some (d, False, False)}) \<and>
      (nd_booted nd \<and> nd_total nd = 0 \<longrightarrow> sd_quit (nd_sched nd)))"
  unfolding node_inv_def lives_counted lives_dom lives_alive lives_all ..

lemma node_invI:
  assumes "storage_inv (nd_handles nd)" "finite (dom (lives nd))"
    and "\<And>h. grab (nd_handles nd) h \<noteq> None \<longleftrightarrow> (\<exists>r x. lives nd h = Some (False, r, x))"
    and "\<And>h d r x. lives nd h = Some (d, r, x) \<Longrightarrow> h < hs_next (nd_handles nd) \<and> (x \<longrightarrow> d)"
    and "nd_total nd = int (card {h. \<exists>d. lives nd h = Some (d, False, False)})"
    and "\<lbrakk>nd_booted nd; nd_total nd = 0\<rbrakk> \<Longrightarrow> sd_quit (nd_sched nd)"
  shows "node_inv nd"
  using assms unfolding node_inv_lives by blast

lemma node_invD:
  assumes "node_inv nd"
  shows "storage_inv (nd_handles nd)" "finite (dom (lives nd))"
    "grab (nd_handles nd) h \<noteq> None \<longleftrightarrow> (\<exists>r x. lives nd h = Some (False, r, x))"
    "lives nd h = Some (d, r, x) \<Longrightarrow> h < hs_next (nd_handles nd) \<and> (x \<longrightarrow> d)"
    "nd_total nd = int (card {h. \<exists>d. lives nd h = Some (d, False, False)})"
    "\<lbrakk>nd_booted nd; nd_total nd = 0\<rbrakk> \<Longrightarrow> sd_quit (nd_sched nd)"
  using assms unfolding node_inv_lives by blast+

lemma svc_older_lives: "lives nd h = Some x \<Longrightarrow> lives nd' h = Some x \<Longrightarrow> nd_svcs nd h = Some sv \<Longrightarrow> \<exists>sv'. nd_svcs nd' h = Some sv' \<and> svc_older sv sv'"
  by (auto simp: lives_def svc_life_def svc_older_def)

lemma life_evolves:
  assumes "life nd' = life nd"
  shows "evolves nd nd'"
proof -
  have f: "nd_handles nd' = nd_handles nd" "nd_total nd' = nd_total nd" "nd_booted nd' = nd_booted nd"
    "sd_quit (nd_sched nd') = sd_quit (nd_sched nd)" "lives nd' = lives nd" using assms by (simp_all add: life_def)
  have "node_inv nd' = node_inv nd" unfolding node_inv_lives f ..
  moreover have "\<exists>sv'. nd_svcs nd' h = Some sv' \<and> svc_older sv sv'" if "nd_svcs nd h = Some sv" for h sv
    using that svc_older_lives [of nd h _ nd' sv] f(5) by (auto simp: lives_def)
  ultimately show ?thesis by (simp add: evolves_def f lives_dom)
qed

section \<open>Messages, wake-ups and tasks touch nothing of it\<close>

lemma life_upd: "(\<And>sv. svc_life (g sv) = svc_life sv) \<Longrightarrow> life (upd_svc h g nd) = life nd"
  by (auto simp: life_def lives_def upd_svc_def fun_eq_iff option.map_comp comp_def)

lemma life_fields [simp]:
  "life (nd\<lparr>nd_stderr := a\<rparr>) = life nd" "life (nd\<lparr>nd_timer := b\<rparr>) = life nd" "life (nd\<lparr>nd_logger := k\<rparr>) = life nd"
  "life (nd\<lparr>nd_exclusives := x\<rparr>) = life nd" "life (nd\<lparr>nd_user := u\<rparr>) = life nd" "life (nd\<lparr>nd_clock := t\<rparr>) = life nd"
  "sd_quit sd = sd_quit (nd_sched nd) \<Longrightarrow> life (nd\<lparr>nd_sched := sd\<rparr>) = life nd"
  by (simp_all add: life_def lives_def fun_eq_iff)

lemma life_sched_upd: "(upd_svc h g nd)\<lparr>nd_sched := sd\<rparr> = upd_svc h g (nd\<lparr>nd_sched := sd\<rparr>)"
  by (simp add: upd_svc_def)

lemma life_via: "\<lbrakk>returns m (\<lambda>nd'. life nd' = life x); life x = life nd\<rbrakk> \<Longrightarrow> returns m (\<lambda>nd'. life nd' = life nd)"
  by simp

named_theorems life_frame

lemmas svc_life_simp = svc_life_def unpark_def interrupt_svc_def Let_def

lemma enqueue_life [life_frame]: "returns (enqueue c h nd) (\<lambda>nd'. life nd' = life nd)"
proof (cases "nd_svcs nd h")
  case (Some sv)
  then show ?thesis
    by (auto simp: enqueue_def life_sched_upd life_upd svc_life_simp intro!: returns_bind [OF sched_push_quit])
qed (simp add: enqueue_def)

lemma dequeue_life [life_frame]: "returns (dequeue c nd) (\<lambda>x. life (snd x) = life nd)"
  unfolding dequeue_def
  by (rule returns_bind [OF pop_runnable_quit]) (auto simp: Let_def life_upd svc_life_def split: option.split)

lemma wake_svc_life [life_frame]: "returns (wake_svc c h q nd) (\<lambda>nd'. life nd' = life nd)"
  using enqueue_life by (auto simp: wake_svc_def life_upd svc_life_simp split: option.split)

lemma mailbox_op_life [life_frame]: "returns (mailbox_op c h g nd) (\<lambda>nd'. life nd' = life nd)"
proof (cases "nd_svcs nd h")
  case (Some sv)
  obtain q mb where "g (sv_mailbox sv) = (q, mb)" by (cases "g (sv_mailbox sv)")
  then show ?thesis
    using Some wake_svc_life [of c h q "upd_svc h (\<lambda>sv. sv\<lparr>sv_mailbox := mb\<rparr>) nd"]
    by (simp add: mailbox_op_def life_upd svc_life_def)
qed (simp add: mailbox_op_def)

lemma push_svc_life [life_frame]: "returns (push_svc c h m nd) (\<lambda>nd'. life nd' = life nd)"
  unfolding push_svc_def by (rule mailbox_op_life)

lemma wake_task_life [life_frame]: "returns (wake_task c h t nd) (\<lambda>nd'. life nd' = life nd)"
  unfolding wake_task_def by (rule mailbox_op_life)

lemma wake_waker_life [life_frame]: "returns (wake_waker c w nd) (\<lambda>nd'. life nd' = life nd)"
proof -
  obtain h t where w: "w = (h, t)" by (cases w)
  show ?thesis
  proof (cases "nd_svcs nd h")
    case (Some sv)
    obtain b ts where "wake_by_ref t (sv_tasks sv) = (b, ts)" by (cases "wake_by_ref t (sv_tasks sv)")
    then show ?thesis
      using Some w wake_task_life [of c h t "upd_svc h (\<lambda>sv. sv\<lparr>sv_tasks := ts\<rparr>) nd"]
      by (simp add: wake_waker_def life_upd svc_life_def Let_def)
  qed (simp add: wake_waker_def w)
qed

lemma wake_wakers_life [life_frame]: "returns (wake_wakers c ws nd) (\<lambda>nd'. life nd' = life nd)"
proof (induction ws arbitrary: nd)
  case (Cons w ws)
  then show ?case by (auto intro!: returns_bind [OF wake_waker_life] intro: life_via)
qed simp

lemma send_raw_life [life_frame]: "returns (send_raw c a b mt k p nd) (\<lambda>x. life (snd x) = life nd)"
  by (auto simp: send_raw_def intro!: returns_bind [OF push_svc_life] split: option.split)

lemma send_errors_life [life_frame]: "returns (send_errors c h rs nd) (\<lambda>nd'. life nd' = life nd)"
proof (induction rs arbitrary: nd)
  case (Cons r rs)
  obtain source session where r: "r = (source, session)" by (cases r)
  show ?case
    unfolding r send_errors.simps
    by (rule returns_bind [OF send_raw_life]) (auto intro!: life_via [OF Cons.IH])
qed simp

lemma log_node_life [life_frame]: "returns (log_node c h t nd) (\<lambda>nd'. life nd' = life nd)"
  using push_svc_life by (auto simp: log_node_def Let_def split: option.split)

lemma init_complete_life [life_frame]: "returns (init_complete c h r nd) (\<lambda>nd'. life nd' = life nd)"
  by (auto simp: init_complete_def life_upd svc_life_def simp del: wake_wakers.simps split: option.split
      intro!: life_via [OF wake_wakers_life])

lemma finish_init_life [life_frame]: "returns (finish_init c h r nd) (\<lambda>nd'. life nd' = life nd)"
  by (auto simp: finish_init_def life_upd svc_life_def Let_def split: option.split intro: life_via [OF init_complete_life])

lemma install_task_life [life_frame]: "returns (install_task e c h f q k nd) (\<lambda>nd'. life nd' = life nd)"
  by (auto simp: install_task_def life_upd svc_life_def split: option.split prod.split intro: life_via [OF wake_task_life])

lemma fail_inflight_life [life_frame]: "returns (fail_inflight c h nd) (\<lambda>nd'. life nd' = life nd)"
  by (auto simp: fail_inflight_def life_upd svc_life_def split: option.split prod.split intro: life_via [OF send_errors_life])

lemma handle_message_life [life_frame]: "returns (handle_message e c h m nd) (\<lambda>nd'. life nd' = life nd)"
  by (auto simp: handle_message_def life_upd svc_life_def split: option.split prod.split
      intro: life_via [OF wake_wakers_life] life_via [OF install_task_life])

lemma timeout_life [life_frame]: "returns (timeout c h ms k nd) (\<lambda>nd'. life nd' = life nd)"
  by (auto simp: timeout_def intro!: returns_bind [OF send_raw_life])

lemma notify_push_life [life_frame]: "returns (notify_push c h nd) (\<lambda>nd'. life nd' = life nd)"
  by (auto simp: notify_push_def Let_def life_upd svc_life_def split: option.split prod.split intro: life_via [OF enqueue_life])

lemma svc_take_work_life [life_frame]: "returns (svc_take_work h nd) (\<lambda>x. life (snd x) = life nd)"
  by (auto simp: svc_take_work_def life_upd svc_life_def split: option.split intro!: returns_bind_any)

lemma take_pending_life [life_frame]: "life (snd (take_pending h nd)) = life nd"
  by (auto simp: take_pending_def life_upd svc_life_def split: option.split list.split)

section \<open>Retirement, creation, destruction\<close>

lemma evolves_via: "\<lbrakk>returns m (evolves x); evolves nd x\<rbrakk> \<Longrightarrow> returns m (evolves nd)"
  by (auto intro: returns_mono evolves_trans)

lemma life_evolves_returns: "returns m (\<lambda>nd'. life nd' = life nd) \<Longrightarrow> returns m (evolves nd)"
  by (auto intro: returns_mono life_evolves)

lemma evolves_life: "\<lbrakk>evolves nd x; life y = life x\<rbrakk> \<Longrightarrow> evolves nd y"
  using evolves_trans life_evolves by blast

lemma lives_upd: "lives (upd_svc h g nd) = (lives nd)(h := map_option (\<lambda>sv. svc_life (g sv)) (nd_svcs nd h))"
  by (auto simp: lives_def upd_svc_def option.map_comp comp_def)

lemma grab_handle: "grab s h = Some c \<Longrightarrow> ctx_handle c = h"
  by (auto simp: grab_def split: option.splits if_splits)

lemma retire_next: "hs_next (snd (retire h s)) = hs_next s"
  by (cases "grab s h") (simp_all add: retire_miss retire_hit)

lemma mark_dead_evolves:
  assumes g: "grab (nd_handles nd) h \<noteq> None"
  shows "evolves nd (upd_svc h mark_dead (nd\<lparr>nd_handles := snd (retire h (nd_handles nd))\<rparr>))" (is "evolves nd ?nd'")
proof -
  have f: "nd_handles ?nd' = snd (retire h (nd_handles nd))" "nd_total ?nd' = nd_total nd" "nd_booted ?nd' = nd_booted nd"
    "nd_sched ?nd' = nd_sched nd" "dom (nd_svcs ?nd') = dom (nd_svcs nd)" by (auto simp: upd_svc_def)
  have l: "lives ?nd' = (lives nd)(h := map_option (\<lambda>(d, r, x). (True, r, x)) (lives nd h))"
    unfolding lives_upd by (auto simp: lives_def svc_life_def mark_dead_def option.map_comp comp_def fun_eq_iff)
  have c: "{k. \<exists>d. lives ?nd' k = Some (d, False, False)} = {k. \<exists>d. lives nd k = Some (d, False, False)}"
    unfolding l by (auto split: if_splits)
  have "node_inv ?nd'" if inv: "node_inv nd"
  proof (rule node_invI)
    note D = node_invD [OF inv]
    have gr: "grab (snd (retire h (nd_handles nd))) = (grab (nd_handles nd))(h := None)"
      by (rule retire_grab [OF storage_slots_ok [OF D(1)]])
    show "storage_inv (nd_handles ?nd')" unfolding f by (rule retire_inv [OF D(1)])
    show "finite (dom (lives ?nd'))" using D(2) unfolding l by auto
    show "grab (nd_handles ?nd') k \<noteq> None \<longleftrightarrow> (\<exists>r x. lives ?nd' k = Some (False, r, x))" for k
      using D(3) [of k] unfolding f gr l by (auto split: if_splits)
    show "k < hs_next (nd_handles ?nd') \<and> (x \<longrightarrow> d)" if lk: "lives ?nd' k = Some (d, r, x)" for k d r x
    proof -
      obtain d' r' x' where "lives nd k = Some (d', r', x')" "x = x'" "d' \<longrightarrow> d"
        using lk [unfolded l] by (cases "k = h"; cases "lives nd h") auto
      then show ?thesis using D(4) unfolding f retire_next by blast
    qed
    show "nd_total ?nd' = int (card {k. \<exists>d. lives ?nd' k = Some (d, False, False)})" unfolding c f by (rule D(5))
    show "\<lbrakk>nd_booted ?nd'; nd_total ?nd' = 0\<rbrakk> \<Longrightarrow> sd_quit (nd_sched ?nd')" unfolding f by (rule D(6))
  qed
  moreover have "\<exists>sv'. nd_svcs ?nd' k = Some sv' \<and> svc_older sv sv'" if "nd_svcs nd k = Some sv" for k sv
    using that by (auto simp: upd_svc_def svc_older_def mark_dead_def)
  ultimately show ?thesis unfolding evolves_def f by blast
qed

lemma retire_svc_evolves: "returns (retire_svc c h nd) (\<lambda>x. evolves nd (snd x))"
proof (cases "grab (nd_handles nd) h")
  case None
  then show ?thesis by (simp add: retire_svc_def retire_miss)
next
  case (Some ctx)
  let ?nd1 = "upd_svc h mark_dead (nd\<lparr>nd_handles := snd (retire h (nd_handles nd))\<rparr>)"
  have e1: "evolves nd ?nd1" using mark_dead_evolves Some by blast
  have r: "retire h (nd_handles nd) = (Some ctx, snd (retire h (nd_handles nd)))"
    using Some retire_fst [of h "nd_handles nd"] by (metis prod.collapse)
  have "evolves nd nd'" if "life nd' = life x" "life x = life ?nd1" for x nd' :: "('a, 'b, 'c) node"
    using that e1 evolves_trans life_evolves by metis
  then show ?thesis
    unfolding retire_svc_def by (subst r) (auto simp: grab_handle [OF Some]
      intro!: returns_bind [OF fail_inflight_life] returns_bind [OF mailbox_op_life])
qed

lemma svc_life_exit: "svc_life (sv\<lparr>sv_init_self_exit := b\<rparr>) = svc_life sv"
  by (simp add: svc_life_def)

lemma request_exit_evolves: "returns (request_exit c h nd) (evolves nd)"
  unfolding request_exit_def Let_def
proof (rule returns_bind [OF retire_svc_evolves], clarsimp)
  fix nd'
  assume "evolves nd nd'"
  then show "evolves nd (upd_svc h (\<lambda>sv. sv\<lparr>sv_init_self_exit := True\<rparr>) nd')"
    by (rule evolves_trans) (rule life_evolves, rule life_upd, rule svc_life_exit)
qed

lemma retire_each_evolves: "returns (retire_each c hs nd) (evolves nd)"
proof (induction hs arbitrary: nd)
  case (Cons h hs)
  show ?case
    unfolding retire_each.simps
    by (rule returns_bind [OF retire_svc_evolves]) (auto intro!: evolves_via [OF Cons.IH])
qed simp

lemma retire_sweep_evolves: "returns (retire_sweep c hs k nd) (\<lambda>x. evolves nd (snd x))"
proof (induction hs arbitrary: k nd)
  case (Cons h hs)
  have "returns (obind (retire_svc c h nd) (\<lambda>(_, nd). retire_sweep c hs (k + 1) nd)) (\<lambda>x. evolves nd (snd x))"
    by (rule returns_bind [OF retire_svc_evolves]) (auto intro!: returns_mono [OF Cons.IH] intro: evolves_trans)
  then show ?case using Cons.IH by simp
qed simp

lemma retire_all_evolves: "returns (retire_all c nd) (evolves nd)"
proof -
  have "case y of Inl _ \<Rightarrow> True | Inr nd' \<Rightarrow> evolves nd nd'" if "retire_all c nd = Some y" for y
    using that
  proof (induction rule: retire_all.raw_induct [rotated, consumes 1, case_names step])
    case (step f c nd y)
    obtain z where z: "retire_sweep c (handles (nd_handles nd)) 0 nd = Some z" using step(2) by (cases "retire_sweep c (handles (nd_handles nd)) 0 nd") auto
    show ?case
    proof (cases z)
      case (Inr kn)
      obtain k nd1 where kn: "kn = (k, nd1)" by (cases kn)
      have e: "evolves nd nd1" using returnsD [OF retire_sweep_evolves z [unfolded Inr kn]] by simp
      show ?thesis
        using step z Inr kn e evolves_trans by (cases "k = 0") (force split: sum.splits)+
    qed (use step z in auto)
  qed
  then show ?thesis by (force simp: returns_def)
qed

lemma set_quit_locked_evolves: "evolves nd (snd (set_quit_locked nd))"
proof (cases "sd_quit (nd_sched nd)")
  case False
  then have "node_inv nd \<longrightarrow> node_inv (snd (set_quit_locked nd))"
    by (simp add: set_quit_locked_def node_inv_def counted_svcs_def)
  then show ?thesis using False by (auto simp: evolves_def set_quit_locked_def svc_older_def)
qed (simp add: set_quit_locked_def)

lemma interrupt_all_life: "life (interrupt_all nd) = life nd"
proof -
  have "life (foldl (\<lambda>nd ctx. upd_svc (ctx_handle ctx) interrupt_svc nd) nd cs) = life nd" for cs :: "unit svc_ref_scheme list"
    by (induction cs arbitrary: nd) (simp_all add: life_upd svc_life_simp)
  then show ?thesis by (simp add: interrupt_all_def)
qed

lemma quit_evolves: "evolves nd (quit nd)"
  using evolves_trans [OF set_quit_locked_evolves [of nd] life_evolves [OF interrupt_all_life]] set_quit_locked_evolves [of nd]
  by (cases "set_quit_locked nd") (simp add: quit_def)

lemma abort_node_evolves: "returns (abort_node c nd) (evolves nd)"
  unfolding abort_node_def by (rule evolves_via [OF retire_all_evolves quit_evolves])

lemma mark_booted_evolves: "evolves nd (mark_booted nd)"
proof -
  let ?nd1 = "nd\<lparr>nd_booted := True\<rparr>"
  have l: "lives ?nd1 = lives nd" by (simp add: lives_def fun_eq_iff)
  obtain b nd2 where q: "set_quit_locked ?nd1 = (b, nd2)" by (cases "set_quit_locked ?nd1")
  define nd3 where "nd3 = (if nd_total nd = 0 then nd2 else ?nd1)"
  have q2: "nd2 = ?nd1\<lparr>nd_sched := nd_sched nd2\<rparr>" "sd_quit (nd_sched nd2)" "sd_quit (nd_sched nd) \<Longrightarrow> nd2 = ?nd1"
    using q by (auto simp: set_quit_locked_def split: if_splits)
  have l3: "lives nd3 = lives nd" using q by (auto simp: nd3_def set_quit_locked_def split: if_splits)
  have f: "nd_handles nd3 = nd_handles nd" "nd_total nd3 = nd_total nd" "nd_booted nd3"
    "nd_total nd = 0 \<or> sd_quit (nd_sched nd) \<Longrightarrow> sd_quit (nd_sched nd3)" "nd_svcs nd3 = nd_svcs nd"
    using q by (auto simp: nd3_def set_quit_locked_def split: if_splits)
  have "node_inv nd \<longrightarrow> node_inv nd3"
    using f(4) unfolding node_inv_lives f(1,2) l3 by blast
  then have e: "evolves nd nd3" using f by (auto simp: evolves_def svc_older_def)
  have "mark_booted nd = nd3 \<or> mark_booted nd = interrupt_all nd3"
    using q by (auto simp: mark_booted_def nd3_def Let_def)
  then show ?thesis using e evolves_trans [OF e life_evolves [OF interrupt_all_life]] by auto
qed

lemma add_service_evolves:
  assumes reg: "register_with (\<lambda>h. \<lparr>ctx_handle = h\<rparr>) (nd_handles nd) = Some (Inr (ctx, hs))"
    and nq: "\<not> sd_quit (nd_sched nd)" and h: "h = ctx_handle ctx"
  shows "evolves nd (nd\<lparr>nd_handles := hs, nd_svcs := (nd_svcs nd)(h \<mapsto> new_service_ctx kind inst reserved t),
    nd_total := (if reserved then nd_total nd else nd_total nd + 1)\<rparr>)" (is "evolves nd ?nd'")
proof -
  have f: "nd_handles ?nd' = hs" "nd_booted ?nd' = nd_booted nd" "nd_sched ?nd' = nd_sched nd" by auto
  have l: "lives ?nd' = (lives nd)(h \<mapsto> (False, reserved, False))"
    by (auto simp: lives_def svc_life_def new_service_ctx_def fun_eq_iff)
  have spec: "hs_next (nd_handles nd) \<le> h \<and> h < hs_next hs \<and> grab hs = (grab (nd_handles nd))(h \<mapsto> ctx) \<and> storage_inv hs"
    if "node_inv nd"
    using register_with_spec [OF node_invD(1) [OF that], of "\<lambda>h. \<lparr>ctx_handle = h\<rparr>"] reg h by (auto simp: mk_ok_def)
  have new: "lives nd h = None" if inv: "node_inv nd"
    using node_invD(4) [OF inv, of h] spec [OF inv] by (cases "lives nd h") auto
  have "node_inv ?nd'" if inv: "node_inv nd"
  proof (rule node_invI)
    note D = node_invD [OF inv] and S = spec [OF inv] and N = new [OF inv]
    show "storage_inv (nd_handles ?nd')" "finite (dom (lives ?nd'))" using S D(2) unfolding l by auto
    show "grab (nd_handles ?nd') k \<noteq> None \<longleftrightarrow> (\<exists>r x. lives ?nd' k = Some (False, r, x))" for k
      using D(3) [of k] S unfolding f l by auto
    show "k < hs_next (nd_handles ?nd') \<and> (x \<longrightarrow> d)" if "lives ?nd' k = Some (d, r, x)" for k d r x
      using that D(4) [of k d r x] S unfolding f l by (cases "k = h") auto
    have fin: "finite {k. \<exists>d. lives nd k = Some (d, False, False)}" by (rule finite_subset [OF _ D(2)]) auto
    have "{k. \<exists>d. lives ?nd' k = Some (d, False, False)} =
      (if reserved then {k. \<exists>d. lives nd k = Some (d, False, False)} else insert h {k. \<exists>d. lives nd k = Some (d, False, False)})"
      using N unfolding l by auto
    then show tot: "nd_total ?nd' = int (card {k. \<exists>d. lives ?nd' k = Some (d, False, False)})"
      using D(5) fin N by simp
    show "sd_quit (nd_sched ?nd')" if "nd_booted ?nd'" "nd_total ?nd' = 0"
      using that D(5,6) by (auto split: if_splits)
  qed
  moreover have "\<exists>sv'. nd_svcs ?nd' k = Some sv' \<and> svc_older sv sv'" if "node_inv nd" "nd_svcs nd k = Some sv" for k sv
    using that new by (auto simp: lives_def svc_older_def)
  ultimately show ?thesis by (rule evolvesI) (use nq in auto)
qed

lemma new_service_inner_evolves: "returns (new_service_inner e c kind args reserved nd) (\<lambda>x. evolves nd (snd x))"
proof (cases "nd_modules nd kind")
  case (Some inst)
  show ?thesis
  proof (cases "sd_quit (nd_sched nd)")
    case False
    let ?reg = "register_with (\<lambda>h. \<lparr>ctx_handle = h\<rparr>) (nd_handles nd)"
    have step: "returns (if code_exclusive inst then Some (Inr (spawn_exclusive h nd1)) else enqueue c h nd1) (\<lambda>nd'. life nd' = life nd1)"
      for h and nd1 :: "('a, 'b, 'c) node"
      by (simp add: spawn_exclusive_def Let_def enqueue_life)
    define N where "N ctx hs = nd\<lparr>nd_handles := hs,
      nd_svcs := (nd_svcs nd)(ctx_handle ctx \<mapsto> new_service_ctx kind inst reserved (nd_clock nd)),
      nd_total := (if reserved then nd_total nd else nd_total nd + 1)\<rparr>" for ctx :: svc_ref and hs
    have base: "evolves nd x" if "?reg = Some (Inr (ctx, hs))" "life x = life (N ctx hs)" for ctx hs x
      using evolves_trans [OF add_service_evolves [OF that(1) False refl] life_evolves] that(2) unfolding N_def by blast
    have "returns ?reg (\<lambda>x. ?reg = Some (Inr x))" by (simp add: returns_def)
    moreover have "new_service_inner e c kind args reserved nd =
      obind ?reg (\<lambda>(ctx, hs). obind (install_task e (enter c (ctx_handle ctx)) (ctx_handle ctx)
          (InitFut (code_init inst (ctx_handle ctx) args)) None 0 (N ctx hs)) (\<lambda>nd1.
        obind (if code_exclusive inst then Some (Inr (spawn_exclusive (ctx_handle ctx) nd1)) else enqueue c (ctx_handle ctx) nd1) (\<lambda>nd2.
        obind (log_node c (ctx_handle ctx) (utf8 (LAUNCH_TEXT @ kind @ '' '' @ args)) nd2) (\<lambda>nd3.
          Some (Inr (Inr (ctx_handle ctx), nd3))))))"
      using Some False by (simp add: new_service_inner_def Let_def N_def)
    ultimately show ?thesis
      by (auto intro!: returns_bind [where P = "\<lambda>x. ?reg = Some (Inr x)"] returns_bind [OF install_task_life] returns_bind [OF step]
          returns_bind [OF log_node_life] intro: base)
  qed (simp add: new_service_inner_def Some)
qed (simp add: new_service_inner_def)

lemma destroyed_evolves:
  assumes d: "is_dead_svc h nd" and sv: "nd_svcs nd h = Some sv" "\<not> sv_destroyed sv"
    and nd1: "life nd1 = life (upd_svc h (\<lambda>sv. sv\<lparr>sv_destroyed := True\<rparr>) nd)"
    and q: "nd_booted nd1 \<Longrightarrow> nd_total nd1 = 1 \<Longrightarrow> \<not> sv_reserved sv \<Longrightarrow> sd_quit sd" "sd_quit (nd_sched nd1) \<Longrightarrow> sd_quit sd"
  shows "evolves nd (nd1\<lparr>nd_total := (if sv_reserved sv then nd_total nd1 else nd_total nd1 - 1), nd_sched := sd\<rparr>)" (is "evolves nd ?nd'")
proof -
  have f: "nd_handles ?nd' = nd_handles nd" "nd_booted ?nd' = nd_booted nd" "nd_booted nd1 = nd_booted nd" "nd_total nd1 = nd_total nd"
    "sd_quit (nd_sched nd1) = sd_quit (nd_sched nd)" using nd1 by (simp_all add: life_def upd_svc_def)
  have l1: "lives nd1 = lives (upd_svc h (\<lambda>sv. sv\<lparr>sv_destroyed := True\<rparr>) nd)" using nd1 by (simp add: life_def)
  have l: "lives ?nd' = (lives nd)(h \<mapsto> (True, sv_reserved sv, True))"
    using l1 sv d by (auto simp: lives_upd svc_life_def is_dead_svc_def)
  have old: "lives nd h = Some (True, sv_reserved sv, False)"
    using sv d by (simp add: lives_def svc_life_def is_dead_svc_def)
  have fin: "finite {k. \<exists>d. lives nd k = Some (d, False, False)}" if "node_inv nd"
    by (rule finite_subset [OF _ node_invD(2) [OF that]]) auto
  have cnt: "{k. \<exists>d. lives ?nd' k = Some (d, False, False)} = {k. \<exists>d. lives nd k = Some (d, False, False)} - {h}"
    unfolding l by auto
  have "node_inv ?nd'" if inv: "node_inv nd"
  proof (rule node_invI)
    note D = node_invD [OF inv]
    show "storage_inv (nd_handles ?nd')" unfolding f(1) by (rule D(1))
    show "finite (dom (lives ?nd'))" using D(2) unfolding l by simp
    show "grab (nd_handles ?nd') k \<noteq> None \<longleftrightarrow> (\<exists>r x. lives ?nd' k = Some (False, r, x))" for k
      using D(3) [of k] old unfolding f(1) l by auto
    show "k < hs_next (nd_handles ?nd') \<and> (x \<longrightarrow> d)" if "lives ?nd' k = Some (d, r, x)" for k d r x
      using that D(4) [of k d r x] D(4) [OF old] unfolding f(1) l by (cases "k = h") auto
    show "nd_total ?nd' = int (card {k. \<exists>d. lives ?nd' k = Some (d, False, False)})"
    proof (cases "sv_reserved sv")
      case True
      then have "h \<notin> {k. \<exists>d. lives nd k = Some (d, False, False)}" using old by simp
      then show ?thesis using True D(5) f(4) unfolding cnt by simp
    next
      case False
      then have "h \<in> {k. \<exists>d. lives nd k = Some (d, False, False)}" using old by (intro CollectI exI [of _ True]) simp
      then have "card {k. \<exists>d. lives nd k = Some (d, False, False)} = Suc (card ({k. \<exists>d. lives nd k = Some (d, False, False)} - {h}))"
        by (rule card.remove [OF fin [OF inv]])
      then show ?thesis using False D(5) f(4) unfolding cnt by simp
    qed
    show "sd_quit (nd_sched ?nd')" if "nd_booted ?nd'" "nd_total ?nd' = 0"
      using that D(6) q f by (auto split: if_splits)
  qed
  moreover have "\<exists>sv'. nd_svcs ?nd' k = Some sv' \<and> svc_older sv0 sv'" if "nd_svcs nd k = Some sv0" for k sv0
  proof -
    have "lives ?nd' k = Some (svc_life sv0) \<or> (k = h \<and> lives ?nd' k = Some (True, sv_reserved sv, True))"
      using that unfolding l by (auto simp: lives_def)
    then show ?thesis using that sv by (auto simp: lives_def svc_life_def svc_older_def)
  qed
  ultimately show ?thesis by (rule evolvesI) (use q f l old in \<open>auto simp: lives_dom\<close>)
qed

section \<open>User code and execution\<close>

lemma ctx_register_name_evolves: "returns (ctx_register_name c h n nd) (\<lambda>x. evolves nd (snd x))"
proof -
  obtain ok hs where r: "register_name h (trim_dots n) (nd_handles nd) = (ok, hs)" by (cases "register_name h (trim_dots n) (nd_handles nd)")
  have g: "grab hs = grab (nd_handles nd)" "hs_next hs = hs_next (nd_handles nd)"
    using r by (auto simp: register_name_eq split: if_splits)
  have "node_inv (nd\<lparr>nd_handles := hs\<rparr>)" if inv: "node_inv nd"
    using inv register_name_inv [OF node_invD(1) [OF inv], of h "trim_dots n"] r g
    by (simp add: node_inv_def counted_svcs_def)
  then have "evolves nd (nd\<lparr>nd_handles := hs\<rparr>)" by (auto simp: evolves_def svc_older_def)
  then show ?thesis by (simp add: ctx_register_name_def assert_ownership_def r)
qed

lemma poll_ticket_life: "life (snd (poll_ticket h w nd)) = life nd"
  by (auto simp: poll_ticket_def life_upd svc_life_def split: option.split)

lemma node_take_endless_life: "life (snd (node_take_endless a nd)) = life nd"
  by (auto simp: node_take_endless_def life_upd svc_life_def take_endless_def split: option.split sum.split)

lemma api_evolves:
  assumes "api_step e nd nd'"
  shows "evolves nd nd'"
  using assms
proof cases
  case (send c source dest mtype session p r)
  then show ?thesis using returnsD [OF send_raw_life] life_evolves by fastforce
next
  case (log c source line)
  then show ?thesis using returnsD [OF log_node_life] life_evolves by blast
next
  case (wake c w)
  then show ?thesis using returnsD [OF wake_waker_life] life_evolves by blast
next
  case (spawn c h f)
  then show ?thesis
    by (auto simp: spawn_task_def obind_Inr intro!: life_evolves dest: returnsD [OF install_task_life])
next
  case (sessions h t)
  then show ?thesis by (auto intro!: life_evolves life_upd simp: svc_life_def)
next
  case (timer c h ms session)
  then show ?thesis using returnsD [OF timeout_life] life_evolves by blast
next
  case (untimer h session)
  then show ?thesis by (auto intro!: life_evolves simp: cancel_timeout_def)
next
  case (name c h n r)
  then show ?thesis using returnsD [OF ctx_register_name_evolves] by fastforce
next
  case (launch c kind args r)
  then show ?thesis using returnsD [OF new_service_inner_evolves] by (fastforce simp: new_service_def)
next
  case (ticket h w r)
  then show ?thesis using poll_ticket_life [of h w nd] by (intro life_evolves) simp
next
  case (leave c h)
  then show ?thesis using returnsD [OF request_exit_evolves] by (auto simp: ctx_exit_def obind_Inr)
next
  case (killing c a r)
  then show ?thesis using returnsD [OF retire_svc_evolves] by (fastforce simp: kill_def split: sum.splits)
next
  case (aborting c)
  then show ?thesis using returnsD [OF abort_node_evolves] by blast
next
  case (endless a r)
  then show ?thesis using node_take_endless_life [of a nd] by (intro life_evolves) simp
qed (auto intro!: quit_evolves life_evolves)

lemma api_star_evolves: "(api_step e)\<^sup>*\<^sup>* nd nd' \<Longrightarrow> evolves nd nd'"
  by (erule evolves_star) (rule api_evolves)

lemma user_evolves:
  assumes "user_code_ok e"
  shows "returns (ev_poll e c h task f nd) (\<lambda>x. evolves nd (snd x))" "returns (ev_drop e c h f nd) (evolves nd)"
    "returns (ev_idle e c h nd) (evolves nd)"
  using assms api_star_evolves unfolding user_code_ok_def returns_def by (metis prod.collapse)+

lemma init_ready_evolves: "returns (init_ready e c h r nd) (evolves nd)"
proof (cases r)
  case (Inl err)
  have *: "returns (request_exit c h x) (evolves nd)" if "life x = life nd" for x
    by (rule evolves_via [OF request_exit_evolves life_evolves [OF that]])
  show ?thesis
    by (auto simp: init_ready_def Inl assert_ownership_def
        intro!: returns_bind [OF log_node_life] returns_bind [OF finish_init_life] *)
next
  case (Inr u)
  then show ?thesis by (simp add: init_ready_def life_evolves_returns finish_init_life)
qed

lemma upd_tasks_evolves: "evolves nd (upd_svc h (\<lambda>sv. sv\<lparr>sv_tasks := g sv\<rparr>) nd)"
  by (rule life_evolves, rule life_upd) (simp add: svc_life_def)

lemma poll_task_evolves:
  assumes u: "user_code_ok e"
  shows "returns (poll_task e c h task nd) (evolves nd)"
proof (cases "nd_svcs nd h")
  case (Some sv)
  obtain r ts where t: "take_task task (sv_tasks sv) = (r, ts)" by (cases "take_task task (sv_tasks sv)")
  let ?nd1 = "upd_svc h (\<lambda>sv. sv\<lparr>sv_tasks := ts\<rparr>) nd"
  have e1: "evolves nd ?nd1" by (rule upd_tasks_evolves)
  have fin: "evolves nd (upd_svc h (\<lambda>sv. sv\<lparr>sv_tasks := g sv\<rparr>) nd2)" if "evolves ?nd1 nd2" for nd2 g
    using evolves_trans [OF e1 evolves_trans [OF that upd_tasks_evolves]] .
  have init: "returns (obind (init_ready e (enter c h) h x nd2) (\<lambda>nd3. Some (Inr (upd_svc h (\<lambda>sv. sv\<lparr>sv_tasks := g sv\<rparr>) nd3)))) (evolves nd)"
    if "evolves ?nd1 nd2" for nd2 x g
    by (rule returns_bind [OF init_ready_evolves]) (auto intro: fin evolves_trans [OF that])
  show ?thesis
  proof (cases r)
    case None
    then show ?thesis by (simp add: poll_task_def Some t)
  next
    case (Some fs)
    obtain f src where fs: "fs = (f, src)" by (cases fs)
    show ?thesis
      unfolding poll_task_def \<open>nd_svcs nd h = Some sv\<close> option.case t Some fs prod.case Let_def
      by (cases f) (auto intro!: returns_bind [OF user_evolves(1) [OF u]] fin init split: polled.split)
  qed
qed (simp add: poll_task_def)

lemma run_work_evolves:
  assumes u: "user_code_ok e"
  shows "returns (run_work e c h w nd) (evolves nd)"
  using poll_task_evolves [OF u] life_evolves_returns [OF handle_message_life]
  by (cases w) (simp_all add: run_work_def)

lemma drop_tasks_evolves:
  assumes u: "user_code_ok e"
  shows "returns (drop_tasks e c h fs nd) (evolves nd)"
proof (induction fs arbitrary: nd)
  case (Cons f fs)
  show ?case
    unfolding drop_tasks.simps by (rule returns_bind [OF user_evolves(2) [OF u]]) (rule evolves_via [OF Cons.IH])
qed simp

lemma cleanup_round_evolves:
  assumes u: "user_code_ok e"
  shows "returns (cleanup_round e c h nd) (evolves nd)"
proof -
  have tasks: "returns (cleanup_tasks e c h nd) (evolves nd)" for nd
    unfolding cleanup_tasks_def
  proof (rule returns_bind [OF life_evolves_returns [OF fail_inflight_life]])
    fix x
    assume x: "evolves nd x"
    have fin: "evolves nd (upd_svc h (\<lambda>sv. sv\<lparr>sv_sessions := clear_sessions (sv_sessions sv)\<rparr>) y)"
      if "evolves (upd_svc h (\<lambda>sv. sv\<lparr>sv_tasks := ts\<rparr>) x) y" for ts y
      by (rule evolves_trans [OF x evolves_trans [OF upd_tasks_evolves evolves_trans [OF that]]])
        (rule life_evolves, rule life_upd, simp add: svc_life_def)
    show "returns (case nd_svcs x h of None \<Rightarrow> Some (Inr x) | Some sv \<Rightarrow>
        case drain_tasks (sv_tasks sv) of (fs, ts) \<Rightarrow>
          obind (drop_tasks e c h fs (upd_svc h (\<lambda>sv. sv\<lparr>sv_tasks := ts\<rparr>) x)) (\<lambda>nd.
            Some (Inr (upd_svc h (\<lambda>sv. sv\<lparr>sv_sessions := clear_sessions (sv_sessions sv)\<rparr>) nd)))) (evolves nd)"
      using x by (auto intro!: returns_bind [OF drop_tasks_evolves [OF u]] fin split: option.split prod.split)
  qed
  have rest: "returns (cleanup_mailbox c h nd) (\<lambda>nd'. life nd' = life nd)" "returns (cleanup_pending c h nd) (\<lambda>nd'. life nd' = life nd)"
    "returns (cleanup_init c h nd) (\<lambda>nd'. life nd' = life nd)" for nd :: "('a, 'b, 'c) node"
    by (auto simp: cleanup_mailbox_def cleanup_pending_def cleanup_init_def life_upd svc_life_def finish_init_life
        split: option.split prod.split intro: life_via [OF send_errors_life])
  show ?thesis
    unfolding cleanup_round_def
    by (auto intro!: returns_bind [OF tasks] returns_bind [OF rest(1)] returns_bind [OF rest(2)]
        returns_mono [OF rest(3)] intro: evolves_life)
qed

lemma cleanup_evolves:
  assumes u: "user_code_ok e"
  shows "returns (cleanup e c h nd) (evolves nd)"
proof -
  have "case y of Inl _ \<Rightarrow> True | Inr nd' \<Rightarrow> evolves nd nd'" if "cleanup e c h nd = Some y" for y
    using that u
  proof (induction rule: cleanup.raw_induct [rotated, consumes 1, case_names step])
    case (step f e c h nd y)
    show ?case
    proof (cases "cleanup_round e (enter c h) h nd")
      case (Some z)
      show ?thesis
      proof (cases z)
        case (Inr nd1)
        have e1: "evolves nd nd1" using returnsD [OF cleanup_round_evolves [OF step(3)]] Some Inr by blast
        show ?thesis
        proof (cases "nd_svcs nd1 h")
          case (Some sv)
          have e2: "evolves nd (upd_svc h (\<lambda>sv. sv\<lparr>sv_mailbox := mb\<rparr>) nd1)" for mb
            by (rule evolves_life [OF e1]) (rule life_upd, simp add: svc_life_def)
          show ?thesis
          proof (cases "release (sv_mailbox sv)")
            case (Inr gm)
            obtain g mb where gm: "gm = (g, mb)" by (cases gm)
            then have y: "(if g then Some (Inr (upd_svc h (\<lambda>sv. sv\<lparr>sv_mailbox := mb\<rparr>) nd1)) else f e c h (upd_svc h (\<lambda>sv. sv\<lparr>sv_mailbox := mb\<rparr>) nd1)) = Some y"
              using step(2) Some Inr \<open>z = Inr nd1\<close> \<open>cleanup_round e (enter c h) h nd = Some z\<close> by (simp add: Let_def)
            show ?thesis
            proof (cases g)
              case False
              then have "case y of Inl _ \<Rightarrow> True | Inr nd' \<Rightarrow> evolves (upd_svc h (\<lambda>sv. sv\<lparr>sv_mailbox := mb\<rparr>) nd1) nd'"
                using step(1) [OF _ step(3)] y by simp
              then show ?thesis using evolves_trans [OF e2] by (cases y) auto
            qed (use y e2 in auto)
          qed (use step(2) Some Inr \<open>cleanup_round e (enter c h) h nd = Some z\<close> in auto)
        qed (use step(2) e1 Inr Some in auto)
      qed (use step(2) Some in auto)
    qed (use step(2) in auto)
  qed
  then show ?thesis by (force simp: returns_def)
qed

lemma evolves_dead: "\<lbrakk>evolves nd nd'; node_inv nd; is_dead_svc h nd\<rbrakk> \<Longrightarrow> is_dead_svc h nd'"
  using evolvesD(2) [of nd nd' h] by (fastforce simp: is_dead_svc_def svc_older_def split: option.splits)

lemma not_inv_evolves: "\<not> node_inv nd \<Longrightarrow> returns m (\<lambda>x. evolves nd (g x))"
  by (simp add: returns_def evolves_def)

lemma destroy_evolves:
  assumes u: "user_code_ok e" and d: "is_dead_svc h nd"
  shows "returns (destroy e c h nd) (evolves nd)"
proof (cases "node_inv nd")
  case inv: True
  show ?thesis
    unfolding destroy_def
  proof (rule returns_bind [OF cleanup_evolves [OF u]])
    fix nd1
    assume e1: "evolves nd nd1"
    have d1: "is_dead_svc h nd1" using evolves_dead [OF e1 inv d] .
    show "returns (case nd_svcs nd1 h of None \<Rightarrow> Some (Inr nd1) | Some sv \<Rightarrow>
        if sv_destroyed sv then Some (Inr nd1)
        else obind (log_node c h (utf8 (KILL_TEXT @ sv_kind sv)) (upd_svc h (\<lambda>sv. sv\<lparr>sv_destroyed := True\<rparr>) nd1)) (\<lambda>nd.
          if sv_reserved sv then Some (Inr nd)
          else if nd_total nd \<le> 0 then Some (Inl (Panic ''assertion failed: previous > 0''))
          else let previous = nd_total nd; nd = nd\<lparr>nd_total := previous - 1\<rparr>
               in case if previous = 1 \<and> nd_booted nd then set_quit_locked nd else (False, nd) of
                    (changed, nd) \<Rightarrow> Some (Inr (if changed then interrupt_all nd else nd)))) (evolves nd)"
    proof (cases "nd_svcs nd1 h")
      case (Some sv)
      show ?thesis
      proof (cases "sv_destroyed sv")
        case False
        note step = destroyed_evolves [OF d1 Some False]
        have goal: "returns (if sv_reserved sv then Some (Inr nd2)
            else if nd_total nd2 \<le> 0 then Some (Inl (Panic ''assertion failed: previous > 0''))
            else let previous = nd_total nd2; nd = nd2\<lparr>nd_total := previous - 1\<rparr>
                 in case if previous = 1 \<and> nd_booted nd then set_quit_locked nd else (False, nd) of
                      (changed, nd) \<Rightarrow> Some (Inr (if changed then interrupt_all nd else nd))) (evolves nd)"
          if l: "life nd2 = life (upd_svc h (\<lambda>sv. sv\<lparr>sv_destroyed := True\<rparr>) nd1)" for nd2
        proof -
          have res: "evolves nd nd2" if "sv_reserved sv"
            using evolves_trans [OF e1 step [OF l, of "nd_sched nd2"]] that by simp
          have keep: "evolves nd (nd2\<lparr>nd_total := nd_total nd2 - 1\<rparr>)" if "\<not> sv_reserved sv" "\<not> (nd_total nd2 = 1 \<and> nd_booted nd2)"
            using evolves_trans [OF e1 step [OF l, of "nd_sched nd2"]] that by simp
          have quits: "evolves nd (snd (set_quit_locked (nd2\<lparr>nd_total := nd_total nd2 - 1\<rparr>)))" if "\<not> sv_reserved sv"
            using evolves_trans [OF e1 step [OF l, of "set_quit (nd_sched nd2)"]] evolves_trans [OF e1 step [OF l, of "nd_sched nd2"]] that
            by (auto simp: set_quit_locked_def)
          show ?thesis
            using res keep quits evolves_life [OF quits interrupt_all_life]
            by (auto simp: Let_def split: prod.split)
        qed
        show ?thesis using Some False by (auto intro!: returns_bind [OF log_node_life] goal)
      qed (use e1 Some in simp)
    qed (use e1 in simp)
  qed
qed (rule not_inv_evolves)

lemma run_taken_evolves:
  assumes u: "user_code_ok e"
  shows "returns (run_taken e c h w nd) (evolves nd)"
proof (cases w)
  case (WMessage m)
  show ?thesis
  proof (cases "nd_svcs nd h")
    case (Some sv)
    obtain k mb where t: "take_overload (sv_mailbox sv) = (k, mb)" by (cases "take_overload (sv_mailbox sv)")
    let ?nd1 = "upd_svc h (\<lambda>sv. sv\<lparr>sv_mailbox := mb\<rparr>) nd"
    have l: "life ?nd1 = life nd" by (rule life_upd) (simp add: svc_life_def)
    have log: "returns (if 0 < k then log_node c h line ?nd1 else Some (Inr ?nd1)) (\<lambda>nd'. life nd' = life nd)" for line
      using life_via [OF log_node_life l] l by simp
    show ?thesis
      unfolding run_taken_def WMessage work.case Some option.case t prod.case Let_def
      by (rule returns_bind [OF log]) (rule evolves_via [OF run_work_evolves [OF u] life_evolves])
  qed (simp add: run_taken_def WMessage)
qed (simp add: run_taken_def run_work_evolves [OF u])

lemma run_turn_evolves:
  assumes u: "user_code_ok e"
  shows "returns (run_turn e c h nd) (\<lambda>x. evolves nd (snd x))"
proof -
  obtain r nd1 where p: "(if is_running_svc h nd then take_pending h nd else (None, nd)) = (r, nd1)"
    by (cases "if is_running_svc h nd then take_pending h nd else (None, nd)")
  have l: "life nd1 = life nd" using p take_pending_life [of h nd] by (auto split: if_splits)
  have e1: "evolves nd nd1" by (rule life_evolves [OF l])
  have work: "returns (run_work e c h w nd1) (evolves nd)" for w by (rule evolves_via [OF run_work_evolves [OF u] e1])
  have taken: "returns (case w of None \<Rightarrow> Some (Inr (TurnEmpty, nd2)) | Some w \<Rightarrow>
      obind (run_taken e c h w nd2) (\<lambda>nd. Some (Inr (TurnMailbox, nd)))) (\<lambda>x. evolves nd (snd x))" if "life nd2 = life nd1" for w nd2
  proof -
    have e2: "evolves nd nd2" using that l by (intro life_evolves) simp
    then show ?thesis
      by (cases w) (auto intro!: returns_bind [OF run_taken_evolves [OF u]] intro: evolves_trans)
  qed
  show ?thesis
    unfolding run_turn_def p
    by (cases r) (auto intro!: returns_bind [OF work] returns_bind [OF svc_take_work_life] taken)
qed

lemma run_loop_evolves:
  assumes u: "user_code_ok e"
  shows "returns (run_loop e c h pre k nd) (\<lambda>x. evolves nd (snd x) \<and> (fst x = RanDead \<longrightarrow> is_dead_svc h (snd x)))"
proof -
  have "case y of Inl _ \<Rightarrow> True | Inr x \<Rightarrow> evolves nd (snd x) \<and> (fst x = RanDead \<longrightarrow> is_dead_svc h (snd x))"
    if "run_loop e c h pre k nd = Some y" for y
    using that u
  proof (induction rule: run_loop.raw_induct [rotated, consumes 1, case_names step])
    case (step f e c h pre k nd y)
    show ?case
    proof (cases "run_turn e c h nd")
      case (Some z)
      show ?thesis
      proof (cases z)
        case (Inr tn)
        obtain t nd1 where tn: "tn = (t, nd1)" by (cases tn)
        have e1: "evolves nd nd1" using returnsD [OF run_turn_evolves [OF step(3)]] Some Inr tn by fastforce
        have rec: "case y of Inl _ \<Rightarrow> True | Inr x \<Rightarrow> evolves nd (snd x) \<and> (fst x = RanDead \<longrightarrow> is_dead_svc h (snd x))"
          if "f e c h pre k' nd1 = Some y" for k'
          using step(1) [OF that step(3)] evolves_trans [OF e1] by (auto split: sum.splits)
        show ?thesis
          using step(2) e1 rec unfolding Some Inr tn by (cases t) (auto split: if_splits)
      qed (use step(2) Some in auto)
    qed (use step(2) in auto)
  qed
  then show ?thesis by (force simp: returns_def)
qed

lemma run_service_evolves:
  assumes u: "user_code_ok e"
  shows "returns (run_service e c h pre nd) (\<lambda>x. evolves nd (snd x) \<and> (fst x = RanDead \<longrightarrow> is_dead_svc h (snd x)))"
  using run_loop_evolves [OF u] by (simp add: run_service_def)

lemma dispatch_held_evolves:
  fixes nd :: "('b, 'f, 'u) node"
  assumes u: "user_code_ok e"
  shows "returns (dispatch_held e c h nd) (\<lambda>x. evolves nd (snd x))"
proof -
  have deq: "returns (obind (dequeue c nd1) (\<lambda>(next, nd). Some (Inr (g next, nd)))) (\<lambda>x. evolves nd (snd x))"
    if "evolves nd nd1" for nd1 and g :: "u64 option \<Rightarrow> dispatch_result"
    by (rule returns_bind [OF dequeue_life]) (auto intro: evolves_life [OF that])
  have notify: "returns (notify_push c h nd1) (evolves nd)" if "evolves nd nd1" for nd1
    by (rule evolves_via [OF life_evolves_returns [OF notify_push_life] that])
  have yield: "returns (obind (dequeue c nd1) (\<lambda>(next, nd). case next of
      Some _ \<Rightarrow> obind (enqueue c h nd) (\<lambda>nd. Some (Inr (\<lparr>dr_next = next, dr_yielded = Some h\<rparr>, nd)))
    | None \<Rightarrow> Some (Inr (\<lparr>dr_next = Some h, dr_yielded = Some h\<rparr>, nd)))) (\<lambda>x. evolves nd (snd x))" if "evolves nd nd1" for nd1
    by (rule returns_bind [OF dequeue_life])
      (auto split: option.split intro!: returns_bind [OF enqueue_life] evolves_life [OF that])
  have dead: "returns (destroy e c h nd1) (evolves nd)" if "evolves nd nd1" "is_dead_svc h nd1" for nd1
    by (rule evolves_via [OF destroy_evolves [OF u that(2)] that(1)])
  show ?thesis
    unfolding dispatch_held_def
    by (rule returns_bind [OF run_service_evolves [OF u]])
      (auto split: ran.split intro!: deq yield returns_bind [OF notify] returns_bind [OF dead])
qed

lemma dispatch_step_evolves:
  assumes u: "user_code_ok e"
  shows "returns (dispatch_step e c hold nd) (\<lambda>x. evolves nd (snd x))"
proof (cases hold)
  case None
  have "returns (case r of Some h \<Rightarrow> dispatch_held e c h nd1 | None \<Rightarrow> Some (Inr (\<lparr>dr_next = None, dr_yielded = None\<rparr>, nd1)))
    (\<lambda>x. evolves nd (snd x))" if "life nd1 = life nd" for r nd1
    using life_evolves [OF that]
    by (auto split: option.split intro!: returns_mono [OF dispatch_held_evolves [OF u]] intro: evolves_trans)
  then show ?thesis
    by (auto simp: dispatch_step_def None intro!: returns_bind [OF dequeue_life])
qed (simp add: dispatch_step_def dispatch_held_evolves [OF u])

lemma drain_loop_evolves:
  fixes nd :: "('b, 'f, 'u) node"
  assumes u: "user_code_ok e"
  shows "returns (drain_loop e c h k nd) (evolves nd)"
proof (induction k arbitrary: nd)
  case (Suc k)
  have "returns (obind (svc_take_work h nd) (\<lambda>(w, nd).
      case w of None \<Rightarrow> Some (Inr nd) | Some w \<Rightarrow> obind (run_work e c h w nd) (drain_loop e c h k))) (evolves nd)"
  proof (rule returns_bind [OF svc_take_work_life], clarsimp)
    fix w and nd1 :: "('b, 'f, 'u) node"
    assume "life nd1 = life nd"
    then have e1: "evolves nd nd1" by (rule life_evolves)
    have "returns (obind (run_work e c h x nd1) (drain_loop e c h k)) (evolves nd)" for x
      by (rule returns_bind [OF evolves_via [OF run_work_evolves [OF u] e1]]) (rule evolves_via [OF Suc.IH])
    then show "returns (case w of None \<Rightarrow> Some (Inr nd1) | Some w \<Rightarrow> obind (run_work e c h w nd1) (drain_loop e c h k)) (evolves nd)"
      using e1 by (simp split: option.split)
  qed
  then show ?case by simp
qed simp

lemma mark_running_life: "life (svc_mark_running h nd) = life nd"
  unfolding svc_mark_running_def by (rule life_upd) (simp add: svc_life_def)

lemma exclusive_turn_evolves:
  assumes u: "user_code_ok e"
  shows "returns (exclusive_turn e c h nd) (\<lambda>x. evolves nd (snd x) \<and> (\<not> fst x \<longrightarrow> is_dead_svc h (snd x)))"
proof -
  have e1: "evolves nd (svc_mark_running h nd)" by (rule life_evolves [OF mark_running_life])
  have e2: "evolves nd y" if "evolves (svc_mark_running h nd) x" "evolves x y" for x y
    by (rule evolves_trans [OF e1 evolves_trans [OF that]])
  show ?thesis
    unfolding exclusive_turn_def
    by (rule returns_bind [OF run_service_evolves [OF u]])
      (auto intro!: returns_bind [OF user_evolves(3) [OF u]], (rule e2, assumption, (assumption | rule evolves_refl))+)
qed

lemma exclusive_finish_evolves:
  assumes u: "user_code_ok e" and d: "is_dead_svc h nd"
  shows "returns (exclusive_finish e c h nd) (evolves nd)"
proof (cases "node_inv nd")
  case inv: True
  have e1: "evolves nd (svc_mark_running h nd)" by (rule life_evolves [OF mark_running_life])
  have dr: "returns (drain_service e c h (svc_mark_running h nd)) (evolves nd)"
    using evolves_via [OF drain_loop_evolves [OF u] e1] e1 by (simp add: drain_service_def split: option.split)
  show ?thesis
    unfolding exclusive_finish_def
  proof (rule returns_bind [OF dr])
    fix nd1
    assume "evolves nd nd1"
    then have e2: "evolves nd (svc_mark_running h nd1)" using mark_running_life by (rule evolves_life)
    have d2: "is_dead_svc h (svc_mark_running h nd1)" by (rule evolves_dead [OF e2 inv d])
    show "returns (obind (destroy e c h (svc_mark_running h nd1)) (\<lambda>nd. Some (Inr (upd_svc h (\<lambda>sv. sv\<lparr>sv_finished := True\<rparr>) nd)))) (evolves nd)"
      by (rule returns_bind [OF evolves_via [OF destroy_evolves [OF u d2] e2]])
        (auto intro!: life_upd simp: svc_life_def elim!: evolves_life)
  qed
qed (rule not_inv_evolves)

lemma search_quit:
  fixes sd :: "'a scheduler"
  shows "returns (find_work_or_park w sd) (\<lambda>x. sd_quit (snd x) = sd_quit sd)"
proof -
  have r: "returns (search_rounds w n sd1) (\<lambda>x. sd_quit (snd x) = sd_quit sd1)" for n and sd1 :: "'a scheduler"
  proof (induction n arbitrary: sd1)
    case (Suc n)
    have "returns (search_rounds w n b) (\<lambda>x. sd_quit (snd x) = sd_quit sd1)" if "sd_quit b = sd_quit sd1" for b :: "'a scheduler"
      using Suc.IH [of b] that by simp
    then show ?case by (auto split: option.split intro!: returns_bind [OF pop_runnable_quit])
  qed simp
  show ?thesis
    unfolding find_work_or_park_def Let_def
    by (rule returns_bind [OF r]) (auto split: option.split intro!: returns_bind [OF pop_runnable_quit])
qed

lemma node_step_evolves:
  assumes u: "user_code_ok e" and "node_step e nd nd'"
  shows "evolves nd nd'"
  using assms(2)
proof cases
  case api
  then show ?thesis by (rule api_evolves)
next
  case (dispatch c hold r)
  then show ?thesis using returnsD [OF dispatch_step_evolves [OF u]] by fastforce
next
  case (find w r sd)
  then show ?thesis using returnsD [OF search_quit] by (fastforce intro!: life_evolves)
next
  case (start h)
  then show ?thesis unfolding exclusive_start_def by (auto intro!: life_evolves life_upd simp: svc_life_def)
next
  case (turn c h again)
  then show ?thesis using returnsD [OF exclusive_turn_evolves [OF u]] by fastforce
next
  case (finish h c)
  then show ?thesis using returnsD [OF exclusive_finish_evolves [OF u]] by blast
next
  case (reserved c kind args r)
  then show ?thesis using returnsD [OF new_service_inner_evolves] by (fastforce simp: new_reserved_service_def)
next
  case (monitor c source dest version)
  have "life (case grab (nd_handles nd) dest of None \<Rightarrow> nd | Some ctx \<Rightarrow> upd_svc (ctx_handle ctx) (\<lambda>sv. sv\<lparr>sv_endless := True\<rparr>) nd) = life nd"
    by (auto simp: life_upd svc_life_def split: option.split)
  then show ?thesis
    using monitor returnsD [OF life_via [OF log_node_life]] unfolding report_endless_def by (blast intro: life_evolves)
next
  case (retiring c keep)
  then show ?thesis using returnsD [OF retire_each_evolves] unfolding retire_reserved_def by blast
qed (auto intro!: life_evolves mark_booted_evolves simp: set_logger_def join_retired_exclusives_def join_exclusives_def)


section \<open>A node with a retired service that owes an answer\<close>

text \<open>User code that does nothing.\<close>

definition idle_env :: "(unit, unit, unit) env" where
  "idle_env =
     \<lparr>ev_vacant = length, ev_poll = (\<lambda>c h task f nd. Some (Inr (Completed (Inr ()), nd))), ev_drop = (\<lambda>c h f nd. Some (Inr nd)),
      ev_idle = (\<lambda>c h nd. Some (Inr nd)), ev_show = (\<lambda>_. ''failed'')\<rparr>"

definition plain_code :: "(unit, unit) instance_code" where
  "plain_code = \<lparr>code_exclusive = False, code_init = (\<lambda>_ _. ()), code_dispatch = (\<lambda>_ _. ())\<rparr>"

definition plain_service :: "bool \<Rightarrow> unit message list \<Rightarrow> (unit, unit) service" where
  "plain_service dead ms =
     (new_service_ctx ''plain'' plain_code False (0, 0))\<lparr>sv_lifecycle := Running, sv_pending := None, sv_dead := dead,
       sv_mailbox := new_mailbox\<lparr>mb_queue := ms, mb_len := length ms, mb_state := RUNNING\<rparr>\<rparr>"

definition indebted_node :: "u64 scheduler \<Rightarrow> (unit, unit, unit) node" where
  "indebted_node sd =
     (new_node sd Map.empty (0, 0) ())\<lparr>
       nd_handles := \<lparr>hs_slots = [None, None, Some (bare 2), None], hs_names = [], hs_next = 3\<rparr>,
       nd_svcs := [1 \<mapsto> plain_service True [new_message 2 7 TEXT PNone], 2 \<mapsto> plain_service False []], nd_total := 2\<rparr>"

lemma indebted_node_inv: "node_inv (indebted_node sd)"
proof -
  let ?hs = "\<lparr>hs_slots = [None, None, Some (bare 2), None], hs_names = [], hs_next = 3\<rparr> :: unit handle_storage"
  have two: "slot_of 2 4 = 2" by code_simp
  have pow: "\<exists>k \<in> {2..31}. (4 :: nat) = 2 ^ k" by (intro bexI [of _ 2]) auto
  have st: "storage_inv ?hs"
  proof -
    have "slot_of (ctx_handle c) 4 = i \<and> ctx_handle c < 3" if "i < 4" "hs_slots ?hs ! i = Some c" for i c
    proof -
      have "i = 0 \<or> i = 1 \<or> i = 2 \<or> i = 3" using that(1) by arith
      then show ?thesis using that(2) two by auto
    qed
    moreover have "length (hs_slots ?hs) = 4" by simp
    ultimately have "slots_ok (hs_slots ?hs) (hs_next ?hs)" unfolding slots_ok_def using pow by (simp only: handle_storage.simps) blast
    then show ?thesis by (simp add: storage_inv_def bt_wf_def)
  qed
  have g: "grab ?hs h = (if h = 2 then Some (bare 2) else None)" for h
  proof -
    have iff: "grab ?hs h = Some c \<longleftrightarrow> c = bare 2 \<and> ctx_handle c = h" for c
      using grab_iff [OF storage_slots_ok [OF st], of h c] by (simp add: contexts_def List.map_filter_def)
    show ?thesis
    proof (cases "h = 2")
      case True
      then show ?thesis using iff [of "bare 2"] by simp
    next
      case False
      then have "grab ?hs h \<noteq> Some c" for c unfolding iff by auto
      then show ?thesis using False by (cases "grab ?hs h") auto
    qed
  qed
  have "counted_svcs (indebted_node sd) = {1, 2}"
    by (auto simp: counted_svcs_def indebted_node_def plain_service_def new_service_ctx_def)
  then show ?thesis
    using st g by (auto simp: node_inv_def indebted_node_def plain_service_def new_service_ctx_def new_node_def)
qed

lemma idle_env_ok: "user_code_ok idle_env"
  by (auto simp: user_code_ok_def idle_env_def)

section \<open>The node over its whole life\<close>

lemma interrupt_all_empty: "nd_handles nd = new_storage \<Longrightarrow> interrupt_all nd = nd"
  by (simp add: interrupt_all_def contexts_def new_storage_def empty_slots_def DEFAULT_SLOT_SIZE_def List.map_filter_def numeral_eq_Suc)

lemma steps_evolve: "\<lbrakk>user_code_ok e; (node_step e)\<^sup>*\<^sup>* nd nd'\<rbrakk> \<Longrightarrow> evolves nd nd'"
  using evolves_star node_step_evolves by blast

lemma new_node_inv: "node_inv (new_node sd modules clock user)"
  by (simp add: node_inv_def new_node_def counted_svcs_def new_storage_inv)

text \<open>
  C8: Whatever the services do, at every moment of the life of a node the registry knows exactly the services
  that have not been retired, names lead only to such services, only retired services have been destroyed, the
  count that decides over the end of the node is the number of services that are neither reserved nor destroyed,
  and a started node with no such service left has the order to quit.
\<close>

theorem node_accounting:
  assumes "user_code_ok e" and "(node_step e)\<^sup>*\<^sup>* (new_node sd modules clock user) nd"
  shows "(\<forall>h. grab (nd_handles nd) h \<noteq> None \<longleftrightarrow> (\<exists>sv. nd_svcs nd h = Some sv \<and> \<not> sv_dead sv)) \<and>
    (\<forall>n h. find_name (nd_handles nd) n = Some h \<longrightarrow> grab (nd_handles nd) h \<noteq> None) \<and>
    (\<forall>h sv. nd_svcs nd h = Some sv \<and> sv_destroyed sv \<longrightarrow> sv_dead sv) \<and>
    nd_total nd = int (card (counted_svcs nd)) \<and>
    (nd_booted nd \<and> counted_svcs nd = {} \<longrightarrow> sd_quit (nd_sched nd))"
proof -
  have inv: "node_inv nd" using evolvesD(1) [OF steps_evolve [OF assms] new_node_inv] .
  have "grab (nd_handles nd) h \<noteq> None" if "find_name (nd_handles nd) n = Some h" for n h
    using that inv bt_get_iff [of "hs_names (nd_handles nd)" n h] by (auto simp: node_inv_def storage_inv_def find_name_def)
  moreover have "\<forall>h sv. nd_svcs nd h = Some sv \<and> sv_destroyed sv \<longrightarrow> sv_dead sv"
    using inv unfolding node_inv_def by blast
  ultimately show ?thesis using inv by (simp add: node_inv_def)
qed

theorem node_accounting_witness:
  "\<exists>sd. new_scheduler 1 = Some (Inr sd) \<and> sd_quit (nd_sched (mark_booted (new_node sd Map.empty (0, 0) ()) :: (unit, unit, unit) node))"
proof -
  obtain sd :: "u64 scheduler" where sd: "new_scheduler 1 = Some (Inr sd)" using new_scheduler_ok [of 1] by auto
  let ?nd = "new_node sd Map.empty (0, 0) () :: (unit, unit, unit) node"
  have "(node_step idle_env)\<^sup>*\<^sup>* ?nd (mark_booted ?nd)" by (blast intro: node_step.booted)
  note acc = node_accounting [OF idle_env_ok this]
  have "nd_svcs (mark_booted ?nd) = Map.empty" "nd_booted (mark_booted ?nd)"
    by (simp_all add: mark_booted_def set_quit_locked_def interrupt_all_empty new_node_def Let_def)
  then show ?thesis using acc sd by (auto simp: counted_svcs_def)
qed

text \<open>
  C25: Once a node has the order to quit, it keeps it, and from then on no service appears: the set of services
  stays the same, and every attempt to launch one of a known kind returns the error and changes nothing.
\<close>

theorem no_service_after_quit:
  assumes "user_code_ok e" and "node_inv nd" and "sd_quit (nd_sched nd)" and "(node_step e)\<^sup>*\<^sup>* nd nd'"
  shows "sd_quit (nd_sched nd') \<and> dom (nd_svcs nd') = dom (nd_svcs nd) \<and>
    new_service e c kind args nd' =
      Some (Inr (Inl (if nd_modules nd' kind = None then UnknownService kind else ServiceError QUIT_TEXT), nd'))"
proof -
  note ev = evolvesD [OF steps_evolve [OF assms(1,4)] assms(2)]
  have "sd_quit (nd_sched nd')" by (rule ev(4) [OF assms(3)])
  then show ?thesis using ev(5) [OF assms(3)] by (auto simp: new_service_def new_service_inner_def)
qed

theorem no_service_after_quit_witness:
  "\<exists>sd. new_scheduler 1 = Some (Inr sd) \<and>
     (let nd = quit (new_node sd [''plain'' \<mapsto> plain_code] (0, 0) ()); nd' = mark_booted nd
      in new_service idle_env \<lparr>by_worker = None, by_service = None\<rparr> ''plain'' [] nd' = Some (Inr (Inl (ServiceError QUIT_TEXT), nd')))"
proof -
  obtain sd :: "u64 scheduler" where sd: "new_scheduler 1 = Some (Inr sd)" using new_scheduler_ok [of 1] by auto
  let ?nd = "quit (new_node sd [''plain'' \<mapsto> plain_code] (0, 0) ()) :: (unit, unit, unit) node"
  have nd: "nd_handles ?nd = new_storage" "sd_quit (nd_sched ?nd)" "nd_modules ?nd = [''plain'' \<mapsto> plain_code]"
    by (auto simp: quit_def set_quit_locked_def new_node_def interrupt_all_empty)
  have inv: "node_inv ?nd" using evolvesD(1) [OF quit_evolves new_node_inv] .
  have "nd_modules (mark_booted ?nd) = [''plain'' \<mapsto> plain_code]"
    using nd by (auto simp: mark_booted_def set_quit_locked_def Let_def)
  moreover have "(node_step idle_env)\<^sup>*\<^sup>* ?nd (mark_booted ?nd)" by (blast intro: node_step.booted)
  ultimately show ?thesis
    using no_service_after_quit [OF idle_env_ok inv nd(2), of "mark_booted ?nd" _ "''plain''" "[]"] sd by (auto simp: Let_def)
qed

text \<open>
  C24: A service that has been retired is out of reach for ever, whatever happens later: a message to its handle
  is refused with \<^verbatim>\<open>NoService\<close> and changes nothing, retiring it again does nothing, its handle is not issued
  again, and no name leads to it.
\<close>

theorem retired_out_of_reach:
  assumes "user_code_ok e" and "node_inv nd" and "nd_svcs nd h = Some sv" and "sv_dead sv" and "(node_step e)\<^sup>*\<^sup>* nd nd'"
  shows "send_raw c source h mtype session p nd' = Some (Inr (Inl (NoService h), nd')) \<and>
    retire_svc c h nd' = Some (Inr (False, nd')) \<and> h < hs_next (nd_handles nd') \<and>
    find_name (nd_handles nd') n \<noteq> Some h"
proof -
  note ev = evolvesD [OF steps_evolve [OF assms(1,5)] assms(2)]
  obtain sv' where sv': "nd_svcs nd' h = Some sv'" "sv_dead sv'" using ev(2) [OF assms(3)] assms(4) by (auto simp: svc_older_def)
  have gone: "grab (nd_handles nd') h = None"
    using node_invD(3) [OF ev(1), of h] sv' by (auto simp: lives_def svc_life_def)
  have "find_name (nd_handles nd') n \<noteq> Some h"
    using ev(1) gone bt_get_iff [of "hs_names (nd_handles nd')" n h] by (auto simp: node_inv_def storage_inv_def find_name_def)
  moreover have "h < hs_next (nd_handles nd')" using ev(1) sv'(1) by (auto simp: node_inv_def)
  ultimately show ?thesis using gone by (simp add: send_raw_def retire_svc_def retire_miss)
qed

theorem retired_out_of_reach_witness:
  "\<exists>sd. new_scheduler 1 = Some (Inr sd) \<and>
     (let nd' = mark_booted (indebted_node sd)
      in send_raw \<lparr>by_worker = None, by_service = None\<rparr> 2 1 TEXT 0 PNone nd' = Some (Inr (Inl (NoService 1), nd')))"
proof -
  obtain sd :: "u64 scheduler" where sd: "new_scheduler 1 = Some (Inr sd)" using new_scheduler_ok [of 1] by auto
  have "nd_svcs (indebted_node sd) 1 = Some (plain_service True [new_message 2 7 TEXT PNone])" "sv_dead (plain_service True [new_message 2 7 TEXT PNone])"
    by (simp_all add: indebted_node_def plain_service_def)
  moreover have "(node_step idle_env)\<^sup>*\<^sup>* (indebted_node sd) (mark_booted (indebted_node sd))" by (blast intro: node_step.booted)
  ultimately show ?thesis using retired_out_of_reach [OF idle_env_ok indebted_node_inv] sd by (auto simp: Let_def)
qed

end
