(* ===== verification/Requests.thy ===== *)
theory Requests
  imports Lifecycle
begin

text \<open>
  What the destruction of a service owes to others: every request it still had in hand, in its mailbox or in
  its buffer is answered with an error.  Every call here is shown to return, unless a run queue of the scheduler
  runs out of its 64 bits of block sequence numbers.
\<close>

section \<open>Deliveries\<close>

definition queue_of :: "('b, 'f, 'u) node \<Rightarrow> u64 \<Rightarrow> 'b message list" where
  "queue_of nd k = (case nd_svcs nd k of Some sv \<Rightarrow> mb_queue (sv_mailbox sv) | None \<Rightarrow> [])"

abbreviation ends :: "'a outcome option \<Rightarrow> ('a \<Rightarrow> bool) \<Rightarrow> bool" where
  "ends \<equiv> settles sequence_panics"

definition runs :: "caller \<Rightarrow> ('b, 'f, 'u) node \<Rightarrow> bool" where
  "runs c nd = (sched_inv (nd_sched nd) \<and> valid_caller (by_worker c) (nd_sched nd))"

text \<open>The registry and the count stay, the queues of the other services only grow, and no service disappears.\<close>

definition served :: "caller \<Rightarrow> u64 \<Rightarrow> ('b, 'f, 'u) node \<Rightarrow> ('b, 'f, 'u) node \<Rightarrow> bool" where
  "served c h nd nd' =
     (runs c nd' \<and> nd_handles nd' = nd_handles nd \<and> nd_total nd' = nd_total nd \<and> nd_booted nd' = nd_booted nd \<and> dom (nd_svcs nd') = dom (nd_svcs nd) \<and>
      (\<forall>k. k \<noteq> h \<longrightarrow> (\<exists>ms. queue_of nd' k = queue_of nd k @ ms)))"

lemma served_refl: "runs c nd \<Longrightarrow> served c h nd nd"
  by (simp add: served_def)

lemma served_trans:
  assumes "served c h a b" "served c h b d"
  shows "served c h a d"
proof -
  have "\<exists>ms. queue_of d k = queue_of a k @ ms" if k: "k \<noteq> h" for k
  proof -
    obtain m1 m2 where "queue_of b k = queue_of a k @ m1" "queue_of d k = queue_of b k @ m2"
      using assms k unfolding served_def by blast
    then show ?thesis by simp
  qed
  then show ?thesis using assms by (simp add: served_def)
qed

lemma runs_fields [simp]:
  "runs c (upd_svc h g nd) = runs c nd" "runs c (nd\<lparr>nd_stderr := t\<rparr>) = runs c nd" "runs c (nd\<lparr>nd_timer := b\<rparr>) = runs c nd"
  "runs c (nd\<lparr>nd_total := n\<rparr>) = runs c nd" "runs (enter c k) nd = runs c nd"
  by (simp_all add: runs_def upd_svc_def enter_def)

lemma queue_upd: "queue_of (upd_svc h g nd) k = (if k = h then (case nd_svcs nd h of Some sv \<Rightarrow> mb_queue (sv_mailbox (g sv)) | None \<Rightarrow> []) else queue_of nd k)"
  by (auto simp: queue_of_def upd_svc_def split: option.splits)

lemma dom_upd [simp]: "dom (nd_svcs (upd_svc h g nd)) = dom (nd_svcs nd)"
  by (auto simp: upd_svc_def)

lemma svc_upd [simp]: "nd_svcs (upd_svc h g nd) k = (if k = h then map_option g (nd_svcs nd h) else nd_svcs nd k)"
  by (simp add: upd_svc_def)

lemma fields_upd [simp]: "nd_handles (upd_svc h g nd) = nd_handles nd" "nd_total (upd_svc h g nd) = nd_total nd"
  "nd_booted (upd_svc h g nd) = nd_booted nd" "nd_sched (upd_svc h g nd) = nd_sched nd"
  by (simp_all add: upd_svc_def)

text \<open>An update of the service itself, and an update of another one that keeps its queue.\<close>

lemma served_own: "runs c nd \<Longrightarrow> served c h nd (upd_svc h g nd)"
  by (auto simp: served_def queue_upd)

lemma served_same_queue: "\<lbrakk>runs c nd; \<And>sv. \<exists>ms. mb_queue (sv_mailbox (g sv)) = mb_queue (sv_mailbox sv) @ ms\<rbrakk> \<Longrightarrow> served c h nd (upd_svc k g nd)"
  by (auto simp: served_def queue_upd queue_of_def split: option.splits)

section \<open>Every delivery serves\<close>

definition reaches :: "caller \<Rightarrow> u64 \<Rightarrow> u64 \<Rightarrow> ('b, 'f, 'u) node \<Rightarrow> ('b, 'f, 'u) node \<Rightarrow> bool" where
  "reaches c h k nd nd' = (served c h nd nd' \<and> (\<forall>j. j \<noteq> k \<longrightarrow> nd_svcs nd' j = nd_svcs nd j))"

lemma enqueue_served:
  assumes "runs c nd" and shared: "\<And>sv. nd_svcs nd k = Some sv \<Longrightarrow> \<not> code_exclusive (sv_code sv)"
  shows "ends (enqueue c k nd) (reaches c h k nd)"
proof (cases "nd_svcs nd k")
  case (Some sv)
  have "ends (sched_push (by_worker c) k (nd_sched nd)) (\<lambda>sd'. sched_inv sd' \<and> valid_caller (by_worker c) sd')"
    using sched_push_settles assms by (auto simp: runs_def)
  then show ?thesis
    unfolding enqueue_def using Some shared
    by (auto elim!: settles_bind simp: reaches_def served_def runs_def mark_queued_def queue_of_def upd_svc_def dom_def split: option.splits)
qed (use assms in \<open>simp add: enqueue_def reaches_def served_refl\<close>)

lemma wake_svc_served:
  assumes "runs c nd"
  shows "ends (wake_svc c k q nd) (reaches c h k nd)"
proof (cases q)
  case True
  have "served c h nd (upd_svc k interrupt_svc nd)"
    by (rule served_same_queue [OF assms]) (simp add: interrupt_svc_def unpark_def Let_def)
  then show ?thesis
    using assms True by (auto simp: wake_svc_def reaches_def [of c h k nd "upd_svc k interrupt_svc nd"] served_refl intro!: enqueue_served
        split: option.split) (simp add: reaches_def served_refl)
qed (use assms in \<open>simp add: wake_svc_def reaches_def served_refl\<close>)

lemma wake_queue: "returns (wake_svc c k q nd) (\<lambda>nd'. queue_of nd' j = queue_of nd j)"
proof (cases "nd_svcs nd k")
  case (Some sv)
  have "returns (enqueue c k nd) (\<lambda>nd'. queue_of nd' j = queue_of nd j)"
    by (auto simp: enqueue_def Some queue_of_def upd_svc_def mark_queued_def intro!: returns_bind_any split: option.splits)
  then show ?thesis
    by (auto simp: wake_svc_def Some queue_of_def interrupt_svc_def unpark_def Let_def split: option.splits)
qed (simp add: wake_svc_def)

lemma mailbox_op_served:
  assumes "runs c nd" and g: "\<And>mb. \<exists>ms. mb_queue (snd (g mb)) = mb_queue mb @ ms"
  shows "ends (mailbox_op c k g nd) (\<lambda>nd'. reaches c h k nd nd' \<and>
    (\<forall>sv. nd_svcs nd k = Some sv \<longrightarrow> queue_of nd' k = mb_queue (snd (g (sv_mailbox sv)))))"
proof (cases "nd_svcs nd k")
  case (Some sv)
  obtain q mb where gm: "g (sv_mailbox sv) = (q, mb)" by (cases "g (sv_mailbox sv)")
  let ?nd1 = "upd_svc k (\<lambda>sv. sv\<lparr>sv_mailbox := mb\<rparr>) nd"
  have s1: "served c h nd ?nd1"
    using assms(1) g [of "sv_mailbox sv"] gm Some by (auto simp: served_def queue_upd queue_of_def split: option.splits)
  have runs1: "runs c ?nd1" using assms by simp
  have w: "ends (wake_svc c k q ?nd1) (\<lambda>nd'. reaches c h k ?nd1 nd' \<and> queue_of nd' k = queue_of ?nd1 k)"
    by (rule settles_conj [OF wake_svc_served [OF runs1] wake_queue])
  show ?thesis
    unfolding mailbox_op_def Some option.case gm prod.case
    by (rule settles_mono [OF w]) (use s1 served_trans gm in \<open>auto simp: reaches_def queue_upd Some\<close>)
qed (use assms in \<open>simp add: mailbox_op_def reaches_def served_refl\<close>)

section \<open>Error answers\<close>

definition answered :: "u64 \<Rightarrow> (u64 \<times> u64) list \<Rightarrow> ('b, 'f, 'u) node \<Rightarrow> bool" where
  "answered h rs nd =
     (\<forall>(source, session) \<in> set rs. grab (nd_handles nd) source \<noteq> None \<longrightarrow>
        new_message h session ERROR PNone \<in> set (queue_of nd source))"

text \<open>The service is out of the registry, and what is registered exists.\<close>

definition gone :: "u64 \<Rightarrow> ('b, 'f, 'u) node \<Rightarrow> bool" where
  "gone h nd = (storage_inv (nd_handles nd) \<and> grab (nd_handles nd) h = None \<and> (\<forall>k. grab (nd_handles nd) k \<noteq> None \<longrightarrow> nd_svcs nd k \<noteq> None))"

lemma served_gone:
  assumes "served c h nd nd'" "gone h nd"
  shows "gone h nd'"
  using assms unfolding served_def gone_def domIff [symmetric] by simp

lemma served_answered:
  assumes s: "served c h nd nd'" and g: "gone h nd" and a: "answered h rs nd"
  shows "answered h rs nd'"
  unfolding answered_def
proof (clarify)
  fix source session y
  assume r: "(source, session) \<in> set rs" and "grab (nd_handles nd') source = Some y"
  then have y: "grab (nd_handles nd) source = Some y" using s by (simp add: served_def)
  then have "source \<noteq> h" using g by (auto simp: gone_def)
  then obtain ms where "queue_of nd' source = queue_of nd source @ ms" using s by (auto simp: served_def)
  then show "new_message h session ERROR PNone \<in> set (queue_of nd' source)" using a r y by (auto simp: answered_def)
qed

lemma answered_append: "answered h (rs @ rs') nd \<longleftrightarrow> answered h rs nd \<and> answered h rs' nd"
  by (auto simp: answered_def)

lemma push_keeps_queue: "\<exists>ms. mb_queue (snd (push_message m mb)) = mb_queue mb @ ms"
  "\<exists>ms. mb_queue (snd (push_ready t mb)) = mb_queue mb @ ms" "\<exists>ms. mb_queue (snd (notify mb)) = mb_queue mb @ ms"
  by (auto simp: push_message_def push_ready_def notify_def split: option.splits)

lemma push_message_queue: "mb_queue (snd (push_message m mb)) = mb_queue mb @ [m]"
  by (auto simp: push_message_def notify_def split: option.splits)

lemma send_raw_served:
  assumes "runs c nd" "gone h nd"
  shows "ends (send_raw c a k mt ses p nd) (\<lambda>x. served c h nd (snd x) \<and> nd_svcs (snd x) h = nd_svcs nd h \<and>
    (grab (nd_handles nd) k \<noteq> None \<longrightarrow> new_message a ses mt p \<in> set (queue_of (snd x) k)))"
proof (cases "grab (nd_handles nd) k")
  case None
  then show ?thesis using assms by (simp add: send_raw_def served_refl)
next
  case (Some ctx)
  have k: "ctx_handle ctx = k" "k \<noteq> h" using Some assms(2) grab_handle by (auto simp: gone_def)
  obtain sv where sv: "nd_svcs nd k = Some sv" using assms(2) Some by (auto simp: gone_def)
  have "ends (push_svc c k (new_message a ses mt p) nd) (\<lambda>nd'. served c h nd nd' \<and> nd_svcs nd' h = nd_svcs nd h \<and>
      new_message a ses mt p \<in> set (queue_of nd' k))"
    unfolding push_svc_def
    by (rule settles_mono [OF mailbox_op_served [OF assms(1) push_keeps_queue(1)]])
      (use k sv in \<open>auto simp: reaches_def push_message_queue\<close>)
  then show ?thesis by (auto simp: send_raw_def Some k elim!: settles_bind)
qed

lemma send_errors_served:
  assumes "runs c nd" "gone h nd"
  shows "ends (send_errors c h rs nd) (\<lambda>nd'. served c h nd nd' \<and> nd_svcs nd' h = nd_svcs nd h \<and> answered h rs nd')"
  using assms
proof (induction rs arbitrary: nd)
  case Nil
  then show ?case by (simp add: served_refl answered_def)
next
  case (Cons r rs)
  obtain a k where r: "r = (a, k)" by (cases r)
  show ?case
    unfolding r send_errors.simps
  proof (rule settles_bind [OF send_raw_served [OF Cons.prems]], clarsimp)
    fix nd1
    assume s1: "served c h nd nd1" and same: "nd_svcs nd1 h = nd_svcs nd h"
      and q: "(\<exists>y. grab (nd_handles nd) a = Some y) \<longrightarrow> new_message h k ERROR PNone \<in> set (queue_of nd1 a)"
    have g1: "runs c nd1" "gone h nd1" using s1 served_gone [OF s1] Cons.prems by (simp_all add: served_def)
    have "answered h [(a, k)] nd1" using q s1 by (auto simp: answered_def served_def)
    then show "ends (send_errors c h rs nd1) (\<lambda>nd'. served c h nd nd' \<and> nd_svcs nd' h = nd_svcs nd h \<and> answered h ((a, k) # rs) nd')"
      using answered_append [of h "[(a, k)]" rs] same
      by (auto intro!: settles_mono [OF Cons.IH [OF g1]] intro: served_trans [OF s1] served_answered [OF _ g1(2)])
  qed
qed

section \<open>One round of cleaning up\<close>

text \<open>The futures of the service give up their sessions and timers when they are dropped, and do nothing else.\<close>

definition quiet_drop :: "('b, 'f, 'u) env \<Rightarrow> bool" where
  "quiet_drop e =
     (\<forall>c h f nd. \<exists>t b. ev_drop e c h f nd = Some (Inr (upd_svc h (\<lambda>sv. sv\<lparr>sv_sessions := t\<rparr>) (nd\<lparr>nd_timer := b\<rparr>))))"

definition owed :: "('b, 'f) service \<Rightarrow> (u64 \<times> u64) list" where
  "owed sv =
     fst (take_requests (sv_tasks sv)) @ unanswered (mb_queue (sv_mailbox sv)) @
     unanswered (case sv_pending sv of Some ms \<Rightarrow> ms | None \<Rightarrow> [])"

definition cleaned :: "('b, 'f) service \<Rightarrow> bool" where
  "cleaned sv =
     (ts_slots (sv_tasks sv) = [] \<and> st_slots (sv_sessions sv) = Map.empty \<and> mb_queue (sv_mailbox sv) = [] \<and> sv_pending sv = None)"

definition same_kind :: "('b, 'f) service \<Rightarrow> ('b, 'f) service \<Rightarrow> bool" where
  "same_kind sv sv' =
     (sv_dead sv' = sv_dead sv \<and> sv_reserved sv' = sv_reserved sv \<and> sv_destroyed sv' = sv_destroyed sv)"

lemma drop_tasks_served:
  assumes q: "quiet_drop e" and "runs c nd" "nd_svcs nd h = Some sv"
  shows "ends (drop_tasks e c h fs nd) (\<lambda>nd'. served c h nd nd' \<and> (\<exists>t. nd_svcs nd' h = Some (sv\<lparr>sv_sessions := t\<rparr>)))"
  using assms(2,3)
proof (induction fs arbitrary: nd sv)
  case Nil
  then show ?case by (auto simp: served_refl intro!: exI [of _ "sv_sessions sv"])
next
  case (Cons f fs)
  obtain t b where d: "ev_drop e c h (fut_of f) nd = Some (Inr (upd_svc h (\<lambda>sv. sv\<lparr>sv_sessions := t\<rparr>) (nd\<lparr>nd_timer := b\<rparr>)))"
    using q unfolding quiet_drop_def by blast
  let ?nd1 = "upd_svc h (\<lambda>sv. sv\<lparr>sv_sessions := t\<rparr>) (nd\<lparr>nd_timer := b\<rparr>)"
  have s1: "served c h nd ?nd1"
    using served_own [of c "nd\<lparr>nd_timer := b\<rparr>" h] Cons.prems by (simp add: served_def queue_of_def)
  have "ends (drop_tasks e c h fs ?nd1) (\<lambda>nd'. served c h ?nd1 nd' \<and> (\<exists>t'. nd_svcs nd' h = Some (sv\<lparr>sv_sessions := t, sv_sessions := t'\<rparr>)))"
    by (rule Cons.IH) (use Cons.prems in simp_all)
  then show ?case using d s1 by (auto elim!: settles_mono intro: served_trans)
qed

lemma cleanup_tasks_served:
  assumes q: "quiet_drop e" and r: "runs c nd" "gone h nd" and sv: "nd_svcs nd h = Some sv" and own: "owns c h"
  shows "ends (cleanup_tasks e c h nd) (\<lambda>nd'. served c h nd nd' \<and> answered h (fst (take_requests (sv_tasks sv))) nd' \<and>
    (\<exists>ts t. nd_svcs nd' h = Some (sv\<lparr>sv_tasks := ts, sv_sessions := t\<rparr>) \<and> ts_slots ts = [] \<and> st_slots t = Map.empty))"
proof -
  obtain rs ts where t: "take_requests (sv_tasks sv) = (rs, ts)" by (cases "take_requests (sv_tasks sv)")
  let ?nd1 = "upd_svc h (\<lambda>sv. sv\<lparr>sv_tasks := ts\<rparr>) nd"
  have s1: "served c h nd ?nd1" by (rule served_own [OF r(1)])
  have r1: "runs c ?nd1" "gone h ?nd1" using r(1) served_gone [OF s1 r(2)] by simp_all
  have inflight: "fail_inflight c h nd = send_errors c h rs ?nd1" by (simp add: fail_inflight_def sv own t)
  show ?thesis
    unfolding cleanup_tasks_def inflight
  proof (rule settles_bind [OF send_errors_served [OF r1]], clarsimp simp: sv)
    fix nd2
    assume s2: "served c h ?nd1 nd2" and sv2: "nd_svcs nd2 h = Some (sv\<lparr>sv_tasks := ts\<rparr>)" and a2: "answered h rs nd2"
    have s02: "served c h nd nd2" by (rule served_trans [OF s1 s2])
    have g2: "runs c nd2" "gone h nd2" using s2 served_gone [OF s2 r1(2)] by (simp_all add: served_def)
    obtain fs ts' where dr: "drain_tasks ts = (fs, ts')" "ts_slots ts' = []" by (simp add: drain_tasks_def)
    let ?nd3 = "upd_svc h (\<lambda>sv. sv\<lparr>sv_tasks := ts'\<rparr>) nd2"
    have s3: "served c h nd2 ?nd3" by (rule served_own [OF g2(1)])
    have "ends (drop_tasks e c h fs ?nd3) (\<lambda>nd'. served c h ?nd3 nd' \<and> (\<exists>t. nd_svcs nd' h = Some (sv\<lparr>sv_tasks := ts', sv_sessions := t\<rparr>)))"
      by (rule drop_tasks_served [OF q, of c ?nd3 h "sv\<lparr>sv_tasks := ts'\<rparr>", simplified]) (use g2 sv2 in simp_all)
    then show "ends (case drain_tasks ts of (fs, ts) \<Rightarrow> obind (drop_tasks e c h fs (upd_svc h (sv_tasks_update (\<lambda>_. ts)) nd2))
        (\<lambda>nd. Some (Inr (upd_svc h (\<lambda>sv. sv\<lparr>sv_sessions := clear_sessions (sv_sessions sv)\<rparr>) nd))))
      (\<lambda>nd'. served c h nd nd' \<and> answered h (fst (take_requests (sv_tasks sv))) nd' \<and>
        (\<exists>ts t. nd_svcs nd' h = Some (sv\<lparr>sv_tasks := ts, sv_sessions := t\<rparr>) \<and> ts_slots ts = [] \<and> st_slots t = Map.empty))"
      unfolding dr(1) prod.case
    proof (rule settles_bind, clarsimp simp: t)
      fix nd4 t4
      assume s4: "served c h ?nd3 nd4" and sv4: "nd_svcs nd4 h = Some (sv\<lparr>sv_tasks := ts', sv_sessions := t4\<rparr>)"
      let ?nd5 = "upd_svc h (\<lambda>sv. sv\<lparr>sv_sessions := clear_sessions (sv_sessions sv)\<rparr>) nd4"
      have "served c h nd4 ?nd5" using s4 by (intro served_own) (simp add: served_def)
      then have s25: "served c h nd2 ?nd5" using s3 s4 served_trans by blast
      then have "served c h nd ?nd5" "answered h rs ?nd5" using served_trans [OF s02] served_answered [OF s25 g2(2) a2] by blast+
      then show "served c h nd ?nd5 \<and> answered h rs ?nd5 \<and> (\<exists>ts t. sv\<lparr>sv_tasks := ts', sv_sessions := clear_sessions t4\<rparr> =
          sv\<lparr>sv_tasks := ts, sv_sessions := t\<rparr> \<and> ts_slots ts = [] \<and> st_slots t = Map.empty)"
        using dr(2) by (auto simp: clear_sessions_def intro!: exI [of _ ts'] exI [of _ "clear_sessions t4"])
    qed
  qed
qed

lemma cleanup_mailbox_served:
  assumes r: "runs c nd" "gone h nd" and sv: "nd_svcs nd h = Some sv"
  shows "ends (cleanup_mailbox c h nd) (\<lambda>nd'. served c h nd nd' \<and> answered h (unanswered (mb_queue (sv_mailbox sv))) nd' \<and>
    nd_svcs nd' h = Some (sv\<lparr>sv_mailbox := snd (drain_mailbox (sv_mailbox sv))\<rparr>))"
proof -
  let ?mb = "snd (drain_mailbox (sv_mailbox sv))" and ?nd1 = "upd_svc h (\<lambda>sv'. sv'\<lparr>sv_mailbox := snd (drain_mailbox (sv_mailbox sv))\<rparr>) nd"
  have s1: "served c h nd ?nd1" by (rule served_own [OF r(1)])
  have r1: "runs c ?nd1" "gone h ?nd1" using r(1) served_gone [OF s1 r(2)] by simp_all
  have eq: "cleanup_mailbox c h nd = send_errors c h (unanswered (mb_queue (sv_mailbox sv))) ?nd1"
    by (simp add: cleanup_mailbox_def sv drain_mailbox_def)
  show ?thesis
    unfolding eq by (rule settles_mono [OF send_errors_served [OF r1]]) (use s1 served_trans in \<open>auto simp: sv\<close>)
qed

lemma cleanup_pending_served:
  assumes r: "runs c nd" "gone h nd" and sv: "nd_svcs nd h = Some sv"
  shows "ends (cleanup_pending c h nd) (\<lambda>nd'. served c h nd nd' \<and>
    answered h (unanswered (case sv_pending sv of Some ms \<Rightarrow> ms | None \<Rightarrow> [])) nd' \<and> nd_svcs nd' h = Some (sv\<lparr>sv_pending := None\<rparr>))"
proof (cases "sv_pending sv")
  case None
  then have "sv\<lparr>sv_pending := None\<rparr> = sv" by simp
  then show ?thesis using r sv None by (simp add: cleanup_pending_def served_refl answered_def unanswered_def)
next
  case (Some ms)
  let ?nd1 = "upd_svc h (\<lambda>sv. sv\<lparr>sv_pending := None\<rparr>) nd"
  have s1: "served c h nd ?nd1" by (rule served_own [OF r(1)])
  have r1: "runs c ?nd1" "gone h ?nd1" using r(1) served_gone [OF s1 r(2)] by simp_all
  have eq: "cleanup_pending c h nd = send_errors c h (unanswered ms) ?nd1" by (simp add: cleanup_pending_def sv Some)
  show ?thesis
    unfolding eq by (rule settles_mono [OF send_errors_served [OF r1]]) (use s1 served_trans Some in \<open>auto simp: sv\<close>)
qed

text \<open>
  Waking a task, perhaps one of the service itself, brings back no work of it but a wake-up, and leaves the
  service with whoever holds it.
\<close>

definition held :: "('b, 'f) service \<Rightarrow> bool" where
  "held sv = (mb_state (sv_mailbox sv) \<in> {RUNNING, NOTIFIED})"

definition stays_clean :: "u64 \<Rightarrow> ('b, 'f, 'u) node \<Rightarrow> ('b, 'f, 'u) node \<Rightarrow> bool" where
  "stays_clean h nd nd' =
     (\<forall>sv. nd_svcs nd h = Some sv \<longrightarrow> cleaned sv \<longrightarrow>
        (\<exists>sv'. nd_svcs nd' h = Some sv' \<and> cleaned sv' \<and> same_kind sv sv' \<and> sv_lifecycle sv' = sv_lifecycle sv \<and>
          (held sv \<longrightarrow> held sv')))"

lemma stays_clean_trans:
  assumes "stays_clean h a b" "stays_clean h b d"
  shows "stays_clean h a d"
  unfolding stays_clean_def
proof (intro allI impI)
  fix sv
  assume "nd_svcs a h = Some sv" "cleaned sv"
  then obtain sv1 where 1: "nd_svcs b h = Some sv1" "cleaned sv1" "same_kind sv sv1" "sv_lifecycle sv1 = sv_lifecycle sv"
    "held sv \<longrightarrow> held sv1" using assms(1) unfolding stays_clean_def by blast
  then obtain sv2 where "nd_svcs d h = Some sv2" "cleaned sv2" "same_kind sv1 sv2" "sv_lifecycle sv2 = sv_lifecycle sv1"
    "held sv1 \<longrightarrow> held sv2" using assms(2) unfolding stays_clean_def by blast
  then show "\<exists>sv'. nd_svcs d h = Some sv' \<and> cleaned sv' \<and> same_kind sv sv' \<and> sv_lifecycle sv' = sv_lifecycle sv \<and> (held sv \<longrightarrow> held sv')"
    using 1 by (auto simp: same_kind_def)
qed

lemma enqueue_clean:
  assumes "\<And>sv. nd_svcs nd k = Some sv \<Longrightarrow> k = h \<Longrightarrow> \<not> held sv"
  shows "returns (enqueue c k nd) (stays_clean h nd)"
  using assms by (auto simp: enqueue_def stays_clean_def upd_svc_def mark_queued_def cleaned_def same_kind_def held_def
      intro!: returns_bind_any split: option.splits)

lemma push_ready_held:
  assumes "push_ready t mb = (q, mb')"
  shows "mb_queue mb' = mb_queue mb" "mb_state mb \<in> {RUNNING, NOTIFIED} \<Longrightarrow> mb_state mb' \<in> {RUNNING, NOTIFIED}"
    "q \<Longrightarrow> mb_state mb' = QUEUED"
  using assms by (cases "mb_state mb"; auto simp: push_ready_def notify_def split: option.splits)+

lemma wake_task_clean: "returns (wake_task c k t nd) (stays_clean h nd)"
proof (cases "nd_svcs nd k")
  case (Some sv)
  obtain q mb where p: "push_ready t (sv_mailbox sv) = (q, mb)" by (cases "push_ready t (sv_mailbox sv)")
  note m = push_ready_held [OF p]
  let ?nd1 = "upd_svc k (\<lambda>sv. sv\<lparr>sv_mailbox := mb\<rparr>) nd"
  have c1: "stays_clean h nd ?nd1" using Some m(1,2) by (auto simp: stays_clean_def cleaned_def same_kind_def held_def)
  have c2: "stays_clean h x (upd_svc k interrupt_svc x)" for x :: "('a, 'b, 'c) node"
    by (auto simp: stays_clean_def cleaned_def same_kind_def held_def interrupt_svc_def unpark_def Let_def)
  have c3: "q \<Longrightarrow> returns (enqueue c k ?nd1) (stays_clean h nd)"
    using m(3) Some by (auto intro!: returns_mono [OF enqueue_clean] stays_clean_trans [OF c1] simp: held_def)
  show ?thesis
    using c1 stays_clean_trans [OF c1 c2] c3 by (auto simp: wake_task_def mailbox_op_def Some p wake_svc_def)
qed (simp add: wake_task_def mailbox_op_def stays_clean_def same_kind_def)

lemma wake_waker_clean:
  assumes "runs c nd"
  shows "ends (wake_waker c w nd) (\<lambda>nd'. served c h nd nd' \<and> stays_clean h nd nd')"
proof -
  obtain k t where w: "w = (k, t)" by (cases w)
  have idle: "stays_clean h nd nd" by (auto simp: stays_clean_def same_kind_def)
  show ?thesis
  proof (cases "nd_svcs nd k")
    case (Some sv)
    obtain b ts where r: "wake_by_ref t (sv_tasks sv) = (b, ts)" by (cases "wake_by_ref t (sv_tasks sv)")
    let ?nd1 = "upd_svc k (\<lambda>sv. sv\<lparr>sv_tasks := ts\<rparr>) nd"
    have "ts_slots ts = ts_slots (sv_tasks sv)" using r by (auto simp: wake_by_ref_def split: if_splits)
    then have c1: "stays_clean h nd ?nd1" using Some by (auto simp: stays_clean_def cleaned_def same_kind_def held_def)
    have s1: "served c h nd ?nd1" by (rule served_same_queue [OF assms]) simp
    have r1: "runs c ?nd1" using assms by simp
    have "ends (wake_task c k t ?nd1) (\<lambda>nd'. served c h nd nd' \<and> stays_clean h nd nd')"
      unfolding wake_task_def
      by (rule settles_mono [OF settles_conj [OF mailbox_op_served [OF r1 push_keeps_queue(2)] wake_task_clean [unfolded wake_task_def]]])
        (use served_trans [OF s1] stays_clean_trans [OF c1] in \<open>auto simp: reaches_def\<close>)
    then show ?thesis using c1 s1 by (simp add: wake_waker_def w Some r Let_def)
  qed (use assms idle in \<open>simp add: wake_waker_def w served_refl\<close>)
qed

lemma finish_init_clean:
  assumes r: "runs c nd" and sv: "nd_svcs nd h = Some sv" "cleaned sv"
  shows "ends (finish_init c h (Inl t) nd) (\<lambda>nd'. served c h nd nd' \<and>
    (\<exists>sv'. nd_svcs nd' h = Some sv' \<and> cleaned sv' \<and> same_kind sv sv' \<and> sv_lifecycle sv' = Failed \<and> (held sv \<longrightarrow> held sv')))"
proof -
  let ?nd1 = "upd_svc h (\<lambda>sv. sv\<lparr>sv_lifecycle := Failed\<rparr>) nd"
  let ?nd2 = "upd_svc h (\<lambda>sv. sv\<lparr>sv_init := Some (Inl t), sv_init_waker := None\<rparr>) ?nd1"
  have s: "served c h nd ?nd1" "served c h ?nd1 ?nd2" using r by (simp_all add: served_own)
  have 1: "\<exists>sv'. nd_svcs ?nd1 h = Some sv' \<and> cleaned sv' \<and> same_kind sv sv' \<and> sv_lifecycle sv' = Failed \<and> (held sv \<longrightarrow> held sv')"
    "\<exists>sv'. nd_svcs ?nd2 h = Some sv' \<and> cleaned sv' \<and> same_kind sv sv' \<and> sv_lifecycle sv' = Failed \<and> (held sv \<longrightarrow> held sv')"
    using sv by (auto simp: cleaned_def same_kind_def held_def)
  have fin: "ends (wake_wakers c [w] ?nd2) (\<lambda>nd'. served c h nd nd' \<and>
    (\<exists>sv'. nd_svcs nd' h = Some sv' \<and> cleaned sv' \<and> same_kind sv sv' \<and> sv_lifecycle sv' = Failed \<and> (held sv \<longrightarrow> held sv')))" for w
    unfolding wake_wakers.simps
  proof (rule settles_bind [OF wake_waker_clean])
    show "runs c ?nd2" using r by simp
    fix nd3
    assume a: "served c h ?nd2 nd3 \<and> stays_clean h ?nd2 nd3"
    then have "served c h nd nd3" using s served_trans by blast
    moreover have "\<exists>sv'. nd_svcs nd3 h = Some sv' \<and> cleaned sv' \<and> same_kind sv sv' \<and> sv_lifecycle sv' = Failed \<and> (held sv \<longrightarrow> held sv')"
      using a 1(2) unfolding stays_clean_def same_kind_def by metis
    ultimately show "ends (Some (Inr nd3)) (\<lambda>nd'. served c h nd nd' \<and>
      (\<exists>sv'. nd_svcs nd' h = Some sv' \<and> cleaned sv' \<and> same_kind sv sv' \<and> sv_lifecycle sv' = Failed \<and> (held sv \<longrightarrow> held sv')))" by simp
  qed
  show ?thesis
  proof (cases "sv_init sv = None")
    case True
    then have "finish_init c h (Inl t) nd = wake_wakers c (case sv_init_waker sv of Some w \<Rightarrow> [w] | None \<Rightarrow> []) ?nd2"
      by (simp add: finish_init_def sv init_complete_def)
    then show ?thesis using fin served_trans [OF s] 1(2) by (cases "sv_init_waker sv") simp_all
  next
    case False
    then show ?thesis using s(1) 1(1) by (auto simp: finish_init_def sv init_complete_def)
  qed
qed

lemma cleanup_round_served:
  assumes q: "quiet_drop e" and r: "runs c nd" "gone h nd" and sv: "nd_svcs nd h = Some sv" and own: "owns c h"
  shows "ends (cleanup_round e c h nd) (\<lambda>nd'. served c h nd nd' \<and> answered h (owed sv) nd' \<and>
    (\<exists>sv'. nd_svcs nd' h = Some sv' \<and> cleaned sv' \<and> same_kind sv sv' \<and> sv_lifecycle sv' \<noteq> Initializing \<and> (held sv \<longrightarrow> held sv') \<and>
       (sv_lifecycle sv \<noteq> Initializing \<longrightarrow> mb_state (sv_mailbox sv') = mb_state (sv_mailbox sv))))"
    (is "ends _ ?Q")
  unfolding cleanup_round_def
proof (rule settles_bind [OF cleanup_tasks_served [OF q r sv own]], clarify)
  fix nd1 ts t
  assume s1: "served c h nd nd1" and a1: "answered h (fst (take_requests (sv_tasks sv))) nd1"
    and sv1: "nd_svcs nd1 h = Some (sv\<lparr>sv_tasks := ts, sv_sessions := t\<rparr>)" and t1: "ts_slots ts = []" "st_slots t = Map.empty"
  have g1: "runs c nd1" "gone h nd1" using s1 served_gone [OF s1 r(2)] by (simp_all add: served_def)
  let ?sv1 = "sv\<lparr>sv_tasks := ts, sv_sessions := t\<rparr>"
  let ?sv2 = "?sv1\<lparr>sv_mailbox := snd (drain_mailbox (sv_mailbox ?sv1))\<rparr>"
  show "ends (obind (cleanup_mailbox c h nd1) (\<lambda>nd. obind (cleanup_pending c h nd) (cleanup_init c h))) ?Q"
  proof (rule settles_bind [OF cleanup_mailbox_served [OF g1 sv1]], elim conjE)
    fix nd2
    assume s2: "served c h nd1 nd2" and a2: "answered h (unanswered (mb_queue (sv_mailbox ?sv1))) nd2"
      and sv2: "nd_svcs nd2 h = Some ?sv2"
    have g2: "runs c nd2" "gone h nd2" using s2 served_gone [OF s2 g1(2)] by (simp_all add: served_def)
    show "ends (obind (cleanup_pending c h nd2) (cleanup_init c h)) ?Q"
    proof (rule settles_bind [OF cleanup_pending_served [OF g2 sv2]], elim conjE)
      fix nd3
      assume s3: "served c h nd2 nd3" and a3: "answered h (unanswered (case sv_pending ?sv2 of None \<Rightarrow> [] | Some ms \<Rightarrow> ms)) nd3"
        and sv3: "nd_svcs nd3 h = Some (?sv2\<lparr>sv_pending := None\<rparr>)"
      have g3: "runs c nd3" "gone h nd3" using s3 served_gone [OF s3 g2(2)] by (simp_all add: served_def)
      have s03: "served c h nd nd3" using s1 s2 s3 served_trans by blast
      have "answered h (owed sv) nd3"
        using served_answered [OF served_trans [OF s2 s3] g1(2) a1] served_answered [OF s3 g2(2) a2] a3
        by (simp add: owed_def answered_append)
      then have out: "answered h (owed sv) nd'" if "served c h nd3 nd'" for nd' by (rule served_answered [OF that g3(2)])
      have cl: "cleaned (?sv2\<lparr>sv_pending := None\<rparr>)"
        using t1 by (simp add: cleaned_def drain_mailbox_def)
      show "ends (cleanup_init c h nd3) ?Q"
      proof (cases "sv_lifecycle sv = Initializing")
        case True
        then have "cleanup_init c h nd3 = finish_init c h (Inl EXITED_TEXT) nd3" by (simp add: cleanup_init_def sv3)
        then show ?thesis
          using True out served_trans [OF s03]
          by (auto intro!: settles_mono [OF finish_init_clean [OF g3(1) sv3 cl]] simp: same_kind_def held_def drain_mailbox_def)
      next
        case False
        then show ?thesis
          using out [OF served_refl [OF g3(1)]] s03 cl by (auto simp: cleanup_init_def sv3 same_kind_def held_def drain_mailbox_def)
      qed
    qed
  qed
qed

section \<open>Cleaning up ends\<close>

lemma served_enter [simp]: "served (enter c k) h nd nd' = served c h nd nd'"
  by (simp add: served_def)

lemma owns_enter [simp]: "owns (enter c h) h"
  by (simp add: owns_def enter_def)

definition let_go :: "('b, 'f, 'u) env \<Rightarrow> caller \<Rightarrow> u64 \<Rightarrow> ('b, 'f, 'u) node \<Rightarrow> ('b, 'f, 'u) node outcome option" where
  "let_go e c h nd =
     (case nd_svcs nd h of
        None \<Rightarrow> Some (Inr nd)
      | Some sv \<Rightarrow>
          (case release (sv_mailbox sv) of
             Inl p \<Rightarrow> Some (Inl p)
           | Inr (b, mb) \<Rightarrow>
               (let nd = upd_svc h (\<lambda>sv. sv\<lparr>sv_mailbox := mb\<rparr>) nd in if b then Some (Inr nd) else cleanup e c h nd)))"

lemma cleanup_unfold: "cleanup e c h nd = obind (cleanup_round e (enter c h) h nd) (let_go e c h)"
  unfolding let_go_def by (subst cleanup.simps) (auto simp: obind_def split: option.splits sum.splits)

definition clean_exit :: "caller \<Rightarrow> u64 \<Rightarrow> ('b, 'f, 'u) node \<Rightarrow> ('b, 'f) service \<Rightarrow> ('b, 'f, 'u) node \<Rightarrow> bool" where
  "clean_exit c h nd sv nd' =
     (served c h nd nd' \<and> answered h (owed sv) nd' \<and>
      (\<exists>sv'. nd_svcs nd' h = Some sv' \<and> cleaned sv' \<and> same_kind sv sv' \<and> sv_lifecycle sv' \<noteq> Initializing \<and> mb_state (sv_mailbox sv') = IDLE))"

lemma let_go_last:
  assumes s: "served c h nd nd1" "answered h (owed sv) nd1"
    and sv1: "nd_svcs nd1 h = Some sv1" "cleaned sv1" "same_kind sv sv1" "sv_lifecycle sv1 \<noteq> Initializing"
    and st: "mb_state (sv_mailbox sv1) = RUNNING" and g: "gone h nd"
  shows "ends (let_go e c h nd1) (clean_exit c h nd sv)"
proof -
  let ?nd2 = "upd_svc h (\<lambda>sv. sv\<lparr>sv_mailbox := (sv_mailbox sv1)\<lparr>mb_state := IDLE\<rparr>\<rparr>) nd1"
  have s2: "served c h nd1 ?nd2" using s by (intro served_own) (simp add: served_def)
  have "clean_exit c h nd sv ?nd2"
    unfolding clean_exit_def using served_trans [OF s(1) s2] served_answered [OF s2 served_gone [OF s(1) g] s(2)] sv1
    by (auto simp: cleaned_def same_kind_def)
  then show ?thesis by (simp add: let_go_def sv1(1) release_def st)
qed

lemma cleanup_served:
  assumes q: "quiet_drop e" and r: "runs c nd" "gone h nd" and sv: "nd_svcs nd h = Some sv" "held sv"
  shows "ends (cleanup e c h nd) (clean_exit c h nd sv)"
proof -
  have r': "runs (enter c h) nd" using r by simp
  have second: "ends (cleanup e c h nd0) (clean_exit c h nd sv)"
    if s0: "served c h nd nd0" "answered h (owed sv) nd0" and sv0: "nd_svcs nd0 h = Some sv0" "same_kind sv sv0" "sv_lifecycle sv0 \<noteq> Initializing"
      and st: "mb_state (sv_mailbox sv0) = RUNNING" for nd0 sv0
  proof -
    have r0: "runs (enter c h) nd0" "gone h nd0" using s0 served_gone [OF s0(1) r(2)] by (simp_all add: served_def)
    show ?thesis
      unfolding cleanup_unfold
    proof (rule settles_bind [OF cleanup_round_served [OF q r0 sv0(1) owns_enter]], elim conjE exE)
      fix nd1 sv1
      assume 0: "served (enter c h) h nd0 nd1" and 1: "nd_svcs nd1 h = Some sv1" "cleaned sv1" "same_kind sv0 sv1"
        "sv_lifecycle sv1 \<noteq> Initializing" "held sv0 \<longrightarrow> held sv1" "sv_lifecycle sv0 \<noteq> Initializing \<longrightarrow> mb_state (sv_mailbox sv1) = mb_state (sv_mailbox sv0)"
      have s1: "served c h nd0 nd1" using 0 by simp
      have "same_kind sv sv1" using sv0(2) 1(3) by (simp add: same_kind_def)
      then show "ends (let_go e c h nd1) (clean_exit c h nd sv)"
        using let_go_last [OF served_trans [OF s0(1) s1] served_answered [OF s1 r0(2) s0(2)] 1(1,2)] 1 st sv0(3) r(2) by simp
    qed
  qed
  show ?thesis
    unfolding cleanup_unfold
  proof (rule settles_bind [OF cleanup_round_served [OF q r' r(2) sv(1) owns_enter]], clarsimp simp: sv(2))
    fix nd1 sv1
    assume 1: "served c h nd nd1" "answered h (owed sv) nd1" "nd_svcs nd1 h = Some sv1" "cleaned sv1" "same_kind sv sv1" "sv_lifecycle sv1 \<noteq> Initializing" "held sv1"
    show "ends (let_go e c h nd1) (clean_exit c h nd sv)"
    proof (cases "mb_state (sv_mailbox sv1)")
      case RUNNING
      then show ?thesis using let_go_last 1 r(2) by blast
    next
      case NOTIFIED
      let ?nd2 = "upd_svc h (\<lambda>sv. sv\<lparr>sv_mailbox := (sv_mailbox sv1)\<lparr>mb_state := RUNNING\<rparr>\<rparr>) nd1"
      have s2: "served c h nd1 ?nd2" using 1(1) by (intro served_own) (simp add: served_def)
      have "ends (cleanup e c h ?nd2) (clean_exit c h nd sv)"
        by (rule second [OF served_trans [OF 1(1) s2] served_answered [OF s2 served_gone [OF 1(1) r(2)] 1(2)], of "sv1\<lparr>sv_mailbox := (sv_mailbox sv1)\<lparr>mb_state := RUNNING\<rparr>\<rparr>"])
          (use 1 in \<open>simp_all add: same_kind_def\<close>)
      then show ?thesis by (simp add: let_go_def 1 release_def NOTIFIED Let_def)
    qed (use 1(7) in \<open>simp_all add: held_def\<close>)
  qed
qed

section \<open>Destruction\<close>

lemma log_node_served:
  assumes r: "runs c nd" "gone h nd"
  shows "ends (log_node c k t nd) (\<lambda>nd'. served c h nd nd' \<and> nd_svcs nd' h = nd_svcs nd h)"
proof -
  have err: "served c h nd (nd\<lparr>nd_stderr := x\<rparr>)" for x
    using r by (simp add: served_def queue_of_def)
  have "ends (push_svc c (ctx_handle ctx) m nd) (\<lambda>nd'. served c h nd nd' \<and> nd_svcs nd' h = nd_svcs nd h)"
    if "grab (nd_handles nd) j = Some ctx" for j ctx m
  proof -
    have "ctx_handle ctx \<noteq> h" using that r(2) grab_handle [OF that] by (auto simp: gone_def)
    then show ?thesis
      unfolding push_svc_def
      by (intro settles_mono [OF mailbox_op_served [OF r(1) push_keeps_queue(1)]]) (auto simp: reaches_def)
  qed
  then show ?thesis using err by (auto simp: log_node_def Let_def split: option.split)
qed

lemma interrupt_all_frame:
  "queue_of (interrupt_all nd) k = queue_of nd k" "nd_handles (interrupt_all nd) = nd_handles nd"
  "nd_total (interrupt_all nd) = nd_total nd" "sd_quit (nd_sched (interrupt_all nd)) = sd_quit (nd_sched nd)"
proof -
  have "queue_of (foldl (\<lambda>nd ctx. upd_svc (ctx_handle ctx) interrupt_svc nd) nd0 cs) k = queue_of nd0 k \<and>
    nd_handles (foldl (\<lambda>nd ctx. upd_svc (ctx_handle ctx) interrupt_svc nd) nd0 cs) = nd_handles nd0 \<and>
    nd_total (foldl (\<lambda>nd ctx. upd_svc (ctx_handle ctx) interrupt_svc nd) nd0 cs) = nd_total nd0 \<and>
    nd_sched (foldl (\<lambda>nd ctx. upd_svc (ctx_handle ctx) interrupt_svc nd) nd0 cs) = nd_sched nd0"
    for nd0 :: "('a, 'b, 'c) node" and cs :: "unit svc_ref_scheme list"
    by (induction cs arbitrary: nd0)
      (auto simp: queue_upd queue_of_def interrupt_svc_def unpark_def Let_def split: option.split)
  then show "queue_of (interrupt_all nd) k = queue_of nd k" "nd_handles (interrupt_all nd) = nd_handles nd"
    "nd_total (interrupt_all nd) = nd_total nd" "sd_quit (nd_sched (interrupt_all nd)) = sd_quit (nd_sched nd)"
    unfolding interrupt_all_def by simp_all
qed

lemma interrupt_all_other:
  assumes "gone h nd"
  shows "nd_svcs (interrupt_all nd) h = nd_svcs nd h"
proof -
  have "nd_svcs (foldl (\<lambda>nd ctx. upd_svc (ctx_handle ctx) interrupt_svc nd) nd0 cs) h = nd_svcs nd0 h"
    if "\<forall>ctx \<in> set cs. ctx_handle ctx \<noteq> h" for nd0 :: "('a, 'b, 'c) node" and cs :: "unit svc_ref_scheme list"
    using that by (induction cs arbitrary: nd0) auto
  moreover have "ctx_handle ctx \<noteq> h" if "ctx \<in> set (contexts (nd_handles nd))" for ctx
    using that assms grab_iff [OF storage_slots_ok, of "nd_handles nd" h ctx] by (auto simp: gone_def)
  ultimately show ?thesis unfolding interrupt_all_def by blast
qed

text \<open>The last part of \<^verbatim>\<open>destroy\<close>: the count goes down, and the node ends with its last service.\<close>

definition settle_count :: "('b, 'f, 'u) node \<Rightarrow> ('b, 'f, 'u) node" where
  "settle_count nd =
     (case (if nd_total nd = 1 \<and> nd_booted nd then set_quit_locked (nd\<lparr>nd_total := nd_total nd - 1\<rparr>) else (False, nd\<lparr>nd_total := nd_total nd - 1\<rparr>)) of
        (changed, nd) \<Rightarrow> if changed then interrupt_all nd else nd)"

lemma settle_count_frame:
  assumes "gone h nd"
  shows "answered h rs nd \<Longrightarrow> answered h rs (settle_count nd)" "nd_svcs (settle_count nd) h = nd_svcs nd h"
    "nd_handles (settle_count nd) = nd_handles nd" "nd_total (settle_count nd) = nd_total nd - 1"
    "nd_total nd = 1 \<Longrightarrow> nd_booted nd \<Longrightarrow> sd_quit (nd_sched (settle_count nd))"
proof -
  have f: "(\<forall>k. queue_of (settle_count nd) k = queue_of nd k) \<and> nd_handles (settle_count nd) = nd_handles nd \<and>
    nd_svcs (settle_count nd) h = nd_svcs nd h \<and> nd_total (settle_count nd) = nd_total nd - 1 \<and>
    (nd_total nd = 1 \<and> nd_booted nd \<longrightarrow> sd_quit (nd_sched (settle_count nd)))"
  proof (cases "nd_total nd = 1 \<and> nd_booted nd \<and> \<not> sd_quit (nd_sched nd)")
    case True
    let ?nd2 = "nd\<lparr>nd_total := nd_total nd - 1, nd_sched := set_quit (nd_sched nd)\<rparr>"
    have q: "queue_of ?nd2 k = queue_of nd k" for k by (simp add: queue_of_def)
    have eq: "settle_count nd = interrupt_all ?nd2" using True by (simp add: settle_count_def set_quit_locked_def)
    have "gone h ?nd2" using assms by (simp add: gone_def)
    then show ?thesis unfolding eq by (simp add: interrupt_all_frame interrupt_all_other q)
  next
    case False
    then have eq: "settle_count nd = nd\<lparr>nd_total := nd_total nd - 1\<rparr>" by (auto simp: settle_count_def set_quit_locked_def)
    show ?thesis unfolding eq using False by (simp add: queue_of_def)
  qed
  then show "answered h rs nd \<Longrightarrow> answered h rs (settle_count nd)" by (simp add: answered_def)
  show "nd_svcs (settle_count nd) h = nd_svcs nd h" "nd_handles (settle_count nd) = nd_handles nd"
    "nd_total (settle_count nd) = nd_total nd - 1" "nd_total nd = 1 \<Longrightarrow> nd_booted nd \<Longrightarrow> sd_quit (nd_sched (settle_count nd))"
    using f by simp_all
qed

lemma destroy_unfold:
  "destroy e c h nd =
     obind (cleanup e c h nd) (\<lambda>nd.
       case nd_svcs nd h of
         None \<Rightarrow> Some (Inr nd)
       | Some sv \<Rightarrow>
           if sv_destroyed sv then Some (Inr nd)
           else obind (log_node c h (utf8 (KILL_TEXT @ sv_kind sv)) (upd_svc h (\<lambda>sv. sv\<lparr>sv_destroyed := True\<rparr>) nd)) (\<lambda>nd.
             if sv_reserved sv then Some (Inr nd)
             else if nd_total nd \<le> 0 then Some (Inl (Panic ''assertion failed: previous > 0''))
             else Some (Inr (settle_count nd))))"
proof -
  have pull: "(case x of (b, y) \<Rightarrow> Some (Inr (f b y))) = Some (Inr (case x of (b, y) \<Rightarrow> f b y))"
    for x :: "bool \<times> ('a, 'b, 'c) node" and f :: "bool \<Rightarrow> ('a, 'b, 'c) node \<Rightarrow> ('a, 'b, 'c) node" by (simp split: prod.split)
  have booted: "nd_booted (x\<lparr>nd_total := t\<rparr>) = nd_booted x" for x :: "('a, 'b, 'c) node" and t by simp
  show ?thesis unfolding destroy_def settle_count_def Let_def pull booted ..
qed


lemma node_inv_gone:
  assumes inv: "node_inv nd" and sv: "nd_svcs nd h = Some sv" "sv_dead sv"
  shows "gone h nd"
  using inv sv unfolding node_inv_def gone_def by (metis option.distinct(1) option.inject)

lemma counted_positive:
  assumes inv: "node_inv nd" and sv: "nd_svcs nd h = Some sv" "\<not> sv_reserved sv" "\<not> sv_destroyed sv"
  shows "0 < nd_total nd"
proof -
  have "finite (counted_svcs nd)"
    using inv by (auto simp: node_inv_def counted_svcs_def dom_def intro: finite_subset)
  moreover have "h \<in> counted_svcs nd" using sv by (simp add: counted_svcs_def)
  ultimately show ?thesis using inv by (auto simp: node_inv_def card_gt_0_iff)
qed

lemma idle_env_quiet: "quiet_drop idle_env"
  unfolding quiet_drop_def
proof (intro allI)
  fix c h f and nd :: "(unit, unit, unit) node"
  obtain t where "upd_svc h (\<lambda>sv. sv\<lparr>sv_sessions := t\<rparr>) nd = nd"
  proof (cases "nd_svcs nd h")
    case None
    then show ?thesis using that [of undefined] by (simp add: upd_svc_def fun_upd_idem)
  next
    case (Some sv)
    then show ?thesis using that [of "sv_sessions sv"] by (simp add: upd_svc_def fun_upd_idem)
  qed
  then show "\<exists>t b. ev_drop idle_env c h f nd = Some (Inr (upd_svc h (\<lambda>sv. sv\<lparr>sv_sessions := t\<rparr>) (nd\<lparr>nd_timer := b\<rparr>)))"
    by (intro exI [of _ t] exI [of _ "nd_timer nd"]) (simp add: idle_env_def)
qed

section \<open>The contract of a destruction\<close>

text \<open>
  C4: Destroying a service that has been retired always returns (unless a run queue exhausts its block sequence
  numbers), and pays what the service owes: every request it had started and not answered, every request in its
  mailbox and every request it had buffered is answered with an error in the mailbox of the caller, for every
  caller that is still registered.  Afterwards the service has no task, no session, no message and no buffer
  left, its initialisation is over, its mailbox is released, and the service has been
  taken off the count exactly if it was on it; the last counted service of a started node makes the node quit.
\<close>

theorem destroy_answers_requests:
  assumes quiet: "quiet_drop e" and inv: "node_inv nd" and runs: "runs c nd"
    and sv: "nd_svcs nd h = Some sv" "sv_dead sv" "held sv"
  shows "settles sequence_panics (destroy e c h nd) (\<lambda>nd'.
    answered h (owed sv) nd' \<and> nd_handles nd' = nd_handles nd \<and>
    (\<exists>sv'. nd_svcs nd' h = Some sv' \<and> cleaned sv' \<and> sv_destroyed sv' \<and> sv_lifecycle sv' \<noteq> Initializing \<and>
       mb_state (sv_mailbox sv') = IDLE) \<and>
    nd_total nd' = nd_total nd - (if sv_destroyed sv \<or> sv_reserved sv then 0 else 1) \<and>
    (nd_booted nd \<and> nd_total nd = 1 \<and> \<not> sv_destroyed sv \<and> \<not> sv_reserved sv \<longrightarrow> sd_quit (nd_sched nd')))"
    (is "settles _ _ ?Q")
  unfolding destroy_unfold
proof (rule settles_bind [OF cleanup_served [OF quiet runs node_inv_gone [OF inv sv(1,2)] sv(1,3)]])
  fix nd1
  assume x: "clean_exit c h nd sv nd1"
  obtain sv1 where s1: "served c h nd nd1" "answered h (owed sv) nd1" and sv1: "nd_svcs nd1 h = Some sv1" "cleaned sv1"
    "same_kind sv sv1" "sv_lifecycle sv1 \<noteq> Initializing" "mb_state (sv_mailbox sv1) = IDLE" using x by (auto simp: clean_exit_def)
  have kind: "sv_destroyed sv1 = sv_destroyed sv" "sv_reserved sv1 = sv_reserved sv" using sv1(3) by (simp_all add: same_kind_def)
  let ?nd2 = "upd_svc h (\<lambda>sv. sv\<lparr>sv_destroyed := True\<rparr>) nd1"
  have s2: "served c h nd1 ?nd2" using s1 by (intro served_own) (simp add: served_def)
  note g1 = served_gone [OF s1(1) node_inv_gone [OF inv sv(1,2)]]
  note g2 = served_gone [OF s2 g1]
  have r2: "runs c ?nd2" using s1 by (simp add: served_def)
  have pos: "\<not> sv_destroyed sv \<Longrightarrow> \<not> sv_reserved sv \<Longrightarrow> 0 < nd_total nd" by (rule counted_positive [OF inv sv(1)])
  have fin: "?Q (if sv_reserved sv then nd3 else settle_count nd3)"
    if new: "\<not> sv_destroyed sv" and 3: "served c h ?nd2 nd3" "nd_svcs nd3 h = nd_svcs ?nd2 h" for nd3
  proof -
    have s03: "served c h nd nd3" using s1(1) s2 3(1) served_trans by blast
    have a3: "answered h (owed sv) nd3" by (rule served_answered [OF served_trans [OF s2 3(1)] g1 s1(2)])
    have sv3: "nd_svcs nd3 h = Some (sv1\<lparr>sv_destroyed := True\<rparr>)" using 3(2) sv1(1) by simp
    note f = settle_count_frame [OF served_gone [OF 3(1) g2]]
    show ?thesis using s03 f(1) [OF a3] f(2-5) a3 sv3 sv1(2,4,5) new by (auto simp: served_def cleaned_def)
  qed
  show "settles sequence_panics (case nd_svcs nd1 h of None \<Rightarrow> Some (Inr nd1)
     | Some sv \<Rightarrow> if sv_destroyed sv then Some (Inr nd1)
         else obind (log_node c h (utf8 (KILL_TEXT @ sv_kind sv)) (upd_svc h (\<lambda>sv. sv\<lparr>sv_destroyed := True\<rparr>) nd1)) (\<lambda>nd.
           if sv_reserved sv then Some (Inr nd)
           else if nd_total nd \<le> 0 then Some (Inl (Panic ''assertion failed: previous > 0''))
           else Some (Inr (settle_count nd)))) ?Q"
  proof (cases "sv_destroyed sv")
    case True
    then show ?thesis using s1 sv1 kind by (auto simp: served_def)
  next
    case False
    have "settles sequence_panics (obind (log_node c h t ?nd2) (\<lambda>nd.
           if sv_reserved sv then Some (Inr nd)
           else if nd_total nd \<le> 0 then Some (Inl (Panic ''assertion failed: previous > 0''))
           else Some (Inr (settle_count nd)))) ?Q" for t
    proof (rule settles_bind [OF log_node_served [OF r2 g2]], elim conjE)
      fix nd3
      assume 3: "served c h ?nd2 nd3" "nd_svcs nd3 h = nd_svcs ?nd2 h"
      have "nd_total nd3 = nd_total nd" using s1(1) 3(1) by (simp add: served_def)
      then show "settles sequence_panics (if sv_reserved sv then Some (Inr nd3)
           else if nd_total nd3 \<le> 0 then Some (Inl (Panic ''assertion failed: previous > 0''))
           else Some (Inr (settle_count nd3))) ?Q"
        using fin [OF False 3] pos [OF False] by (simp split: if_splits)
    qed
    then show ?thesis using False by (simp add: sv1(1) kind)
  qed
qed


theorem destroy_answers_requests_witness:
  "\<exists>sd. new_scheduler 1 = Some (Inr sd) \<and>
     settles sequence_panics (destroy idle_env \<lparr>by_worker = None, by_service = None\<rparr> 1 (indebted_node sd))
       (\<lambda>nd'. new_message 1 7 ERROR PNone \<in> set (queue_of nd' 2) \<and> nd_total nd' = 1)"
proof -
  obtain sd :: "u64 scheduler" where sd: "new_scheduler 1 = Some (Inr sd)" "sched_inv sd" using new_scheduler_ok [of 1] by auto
  let ?nd = "indebted_node sd" and ?c = "\<lparr>by_worker = None, by_service = None\<rparr>" and ?sv = "plain_service True [new_message 2 7 TEXT PNone]"
  have runs: "runs ?c ?nd" using sd by (simp add: runs_def indebted_node_def new_node_def valid_caller_def)
  have sv: "nd_svcs ?nd 1 = Some ?sv" "sv_dead ?sv" "held ?sv" "\<not> sv_destroyed ?sv" "\<not> sv_reserved ?sv"
    by (simp_all add: indebted_node_def plain_service_def held_def new_service_ctx_def)
  have owed: "(2, 7) \<in> set (owed ?sv)"
    by (simp add: owed_def unanswered_def plain_service_def new_service_ctx_def new_message_def needs_reply_def is_reply_def TEXT_def RESPONSE_def ERROR_def)
  have alive: "grab (nd_handles ?nd) 2 \<noteq> None"
    using indebted_node_inv [of sd] by (auto simp: node_inv_def indebted_node_def plain_service_def new_service_ctx_def)
  have total: "nd_total ?nd = 2" by (simp add: indebted_node_def)
  show ?thesis
    by (intro exI conjI, rule sd, rule settles_mono [OF destroy_answers_requests [OF idle_env_quiet indebted_node_inv runs sv(1-3)]])
      (use owed alive total sv(4,5) in \<open>auto simp: answered_def\<close>)
qed

end
