(* ===== verification/Wire.thy ===== *)
theory Wire
  imports Message
begin

text \<open>
  The frames of the cluster protocol (\<^verbatim>\<open>rskynet-cluster/src/wire.rs\<close>): an envelope is encoded by the
  Protobuf library and sent behind its length, four bytes in network order; the receiver cuts the frames out
  of a byte buffer that grows as data arrives.  The Protobuf encoder and decoder are parameters.  The two
  error texts of the source are the two values of \<^verbatim>\<open>wire_error\<close>.  The main result is that any sequence of
  frames survives any fragmentation of the byte stream.
\<close>

section \<open>Envelopes\<close>

definition PROTOCOL_VERSION :: u32 where "PROTOCOL_VERSION = 2"

datatype target_value = TargetHandle u64 | TargetName string

record target =
  tg_value :: "target_value option"

type_synonym i32 = "32 word"

record envelope =
  en_version :: u32
  en_kind :: i32
  en_source_node :: u32
  en_request_id :: u64
  en_type_id :: u32
  en_target :: "target option"
  en_payload :: bytes
  en_error :: string
  en_advertise :: string

datatype wire_kind = Hello | Send | Request | Response | Error

fun kind_value :: "wire_kind \<Rightarrow> i32" where
  "kind_value Hello = 0"
| "kind_value Send = 1"
| "kind_value Request = 2"
| "kind_value Response = 3"
| "kind_value Error = 4"

text \<open>\<^verbatim>\<open>Kind::try_from\<close>.\<close>

definition kind_of :: "i32 \<Rightarrow> wire_kind option" where
  "kind_of k = find (\<lambda>w. kind_value w = k) [Hello, Send, Request, Response, Error]"

lemma kind_of_value [simp]: "kind_of (kind_value w) = Some w"
  by (cases w) (simp_all add: kind_of_def)

definition default_envelope :: envelope where
  "default_envelope =
     \<lparr>en_version = 0, en_kind = 0, en_source_node = 0, en_request_id = 0, en_type_id = 0, en_target = None,
      en_payload = [], en_error = [], en_advertise = []\<rparr>"

section \<open>Framing\<close>

datatype wire_error = FrameTooLong | BadEnvelope

text \<open>\<^verbatim>\<open>u32::to_be_bytes\<close> and \<^verbatim>\<open>u32::from_be_bytes\<close>.\<close>

definition to_be_bytes :: "u32 \<Rightarrow> bytes" where
  "to_be_bytes w = map (\<lambda>k. ucast (drop_bit k w)) [24, 16, 8, 0]"

definition from_be_bytes :: "bytes \<Rightarrow> u32" where
  "from_be_bytes bs = foldl (\<lambda>acc b. push_bit 8 acc OR ucast b) 0 bs"

definition frame :: "(envelope \<Rightarrow> bytes) \<Rightarrow> envelope \<Rightarrow> nat \<Rightarrow> wire_error + bytes" where
  "frame encode e limit =
     (let body = encode e in
      if limit < length body \<or> 4294967295 < length body then Inl FrameTooLong
      else Inr (to_be_bytes (of_nat (length body)) @ body))"

text \<open>The loop of \<^verbatim>\<open>drain\<close>: the envelopes found so far, and how far the buffer has been consumed.\<close>

function drain_frames ::
  "(bytes \<Rightarrow> envelope option) \<Rightarrow> nat \<Rightarrow> bytes \<Rightarrow> nat \<Rightarrow> envelope list \<Rightarrow> wire_error + envelope list \<times> nat" where
  "drain_frames decode limit buffer consumed es =
     (if 4 \<le> length buffer - consumed then
        (let n = unat (from_be_bytes (take 4 (drop consumed buffer))) in
         if limit < n then Inl FrameTooLong
         else if length buffer - consumed < 4 + n then Inr (es, consumed)
         else (case decode (take n (drop (consumed + 4) buffer)) of
                 None \<Rightarrow> Inl BadEnvelope
               | Some e \<Rightarrow> drain_frames decode limit buffer (consumed + 4 + n) (es @ [e])))
      else Inr (es, consumed))"
  by pat_completeness auto
termination by (relation "measure (\<lambda>(_, _, buffer, consumed, _). length buffer - consumed)") auto

declare drain_frames.simps [simp del]

definition drain :: "(bytes \<Rightarrow> envelope option) \<Rightarrow> bytes \<Rightarrow> nat \<Rightarrow> (wire_error + envelope list) \<times> bytes" where
  "drain decode buffer limit =
     (case drain_frames decode limit buffer 0 [] of
        Inl err \<Rightarrow> (Inl err, buffer)
      | Inr (es, consumed) \<Rightarrow> (Inr es, if consumed \<noteq> 0 then drop consumed buffer else buffer))"

section \<open>A length survives its encoding\<close>

lemma be_round_trip: "from_be_bytes (to_be_bytes w) = w"
proof (rule bit_word_eqI)
  fix n
  assume "n < LENGTH(32)"
  then consider "n < 8" | "8 \<le> n" "n < 16" | "16 \<le> n" "n < 24" | "24 \<le> n" "n < 32" by fastforce
  then show "bit (from_be_bytes (to_be_bytes w)) n = bit w n"
    by cases (auto simp: from_be_bytes_def to_be_bytes_def bit_simps)
qed

lemma length_to_be [simp]: "length (to_be_bytes w) = 4"
  by (simp add: to_be_bytes_def)

section \<open>Frames survive fragmentation\<close>

text \<open>The receiver: every chunk is appended to the buffer, then the complete frames are cut out.\<close>

fun receive :: "(bytes \<Rightarrow> envelope option) \<Rightarrow> nat \<Rightarrow> bytes \<Rightarrow> bytes list \<Rightarrow> wire_error + envelope list \<times> bytes" where
  "receive decode limit buffer [] = Inr ([], buffer)"
| "receive decode limit buffer (d # ds) =
     (case drain decode (buffer @ d) limit of
        (Inl err, _) \<Rightarrow> Inl err
      | (Inr es, b) \<Rightarrow>
          (case receive decode limit b ds of Inl err \<Rightarrow> Inl err | Inr (es', b') \<Rightarrow> Inr (es @ es', b')))"

definition framed :: "(envelope \<Rightarrow> bytes) \<Rightarrow> (bytes \<Rightarrow> envelope option) \<Rightarrow> nat \<Rightarrow> envelope \<Rightarrow> bytes \<Rightarrow> bool" where
  "framed encode decode limit e f = (frame encode e limit = Inr f \<and> decode (encode e) = Some e)"

lemma framed_shape:
  assumes "framed encode decode limit e f"
  shows "f = to_be_bytes (of_nat (length (encode e))) @ encode e" "length f = 4 + length (encode e)"
    "length (encode e) \<le> limit" "unat (of_nat (length (encode e)) :: u32) = length (encode e)" "decode (encode e) = Some e"
  using assms by (auto simp: framed_def frame_def Let_def unat_of_nat split: if_splits)

text \<open>One frame at the front of what is left of the buffer.\<close>

lemma drain_one:
  assumes f: "framed encode decode limit e f" and b: "drop c buffer @ rest = f @ fr"
  shows "length f \<le> length (drop c buffer) \<Longrightarrow>
      drain_frames decode limit buffer c es = drain_frames decode limit buffer (c + length f) (es @ [e])"
    "length (drop c buffer) < length f \<Longrightarrow> drain_frames decode limit buffer c es = Inr (es, c)"
proof -
  note s = framed_shape [OF f]
  have hdr: "unat (from_be_bytes (take 4 (drop c buffer))) = length (encode e)" if "4 \<le> length (drop c buffer)"
  proof -
    have "take 4 (drop c buffer) = take 4 (drop c buffer @ rest)" using that by simp
    also have "\<dots> = to_be_bytes (of_nat (length (encode e)))" unfolding b s(1) by simp
    finally show ?thesis by (simp add: be_round_trip s(4))
  qed
  have body: "take (length (encode e)) (drop (c + 4) buffer) = encode e" if "length f \<le> length (drop c buffer)"
  proof -
    have "take (length f) (drop c buffer) = take (length f) (drop c buffer @ rest)" using that by simp
    also have "\<dots> = f" unfolding b by simp
    finally have "drop 4 (take (length f) (drop c buffer)) = encode e" by (simp add: s(1))
    then show ?thesis by (simp add: drop_take s(2) add.commute)
  qed
  show "drain_frames decode limit buffer c es = drain_frames decode limit buffer (c + length f) (es @ [e])" if "length f \<le> length (drop c buffer)"
    by (subst drain_frames.simps) (use that hdr body s(2,3,5) in \<open>simp add: Let_def add.assoc\<close>)
  show "drain_frames decode limit buffer c es = Inr (es, c)" if "length (drop c buffer) < length f"
    by (subst drain_frames.simps) (use that hdr s(2,3) in \<open>auto simp: Let_def\<close>)
qed

lemma drain_frames_exact:
  assumes "list_all2 (framed encode decode limit) es fs" and "drop c buffer @ rest = concat fs" and "c \<le> length buffer"
  shows "\<exists>k \<le> length es. drain_frames decode limit buffer c acc = Inr (acc @ take k es, c + length (concat (take k fs))) \<and>
    c + length (concat (take k fs)) \<le> length buffer \<and>
    (k < length es \<longrightarrow> length buffer - c < length (concat (take (Suc k) fs)))"
  using assms
proof (induction es fs arbitrary: c acc rule: list_all2_induct)
  case Nil
  then show ?case by (simp add: drain_frames.simps [of decode limit buffer c])
next
  case (Cons e es f fs)
  have b: "drop c buffer @ rest = f @ concat fs" using Cons.prems by simp
  show ?case
  proof (cases "length f \<le> length (drop c buffer)")
    case True
    have "drop (length f) (drop c buffer @ rest) = concat fs" unfolding b by simp
    then have "drop (c + length f) buffer @ rest = concat fs" using True by (simp add: add.commute)
    moreover have "c + length f \<le> length buffer" using True Cons.prems by simp
    ultimately obtain k where k: "k \<le> length es" "drain_frames decode limit buffer (c + length f) (acc @ [e]) =
        Inr ((acc @ [e]) @ take k es, c + length f + length (concat (take k fs)))"
      "c + length f + length (concat (take k fs)) \<le> length buffer"
      "k < length es \<longrightarrow> length buffer - (c + length f) < length (concat (take (Suc k) fs))"
      using Cons.IH by blast
    then show ?thesis
      using drain_one(1) [OF Cons.hyps(1) b True] True by (intro exI [of _ "Suc k"]) auto
  next
    case False
    then show ?thesis using drain_one(2) [OF Cons.hyps(1) b] Cons.prems by (intro exI [of _ 0]) simp
  qed
qed

lemma drain_exact:
  assumes "list_all2 (framed encode decode limit) es fs" and "buffer @ rest = concat fs"
  shows "\<exists>k \<le> length es. \<exists>b. drain decode buffer limit = (Inr (take k es), b) \<and> b @ rest = concat (drop k fs) \<and>
    (k < length es \<longrightarrow> length b < length (fs ! k))"
proof -
  obtain k where k: "k \<le> length es" "drain_frames decode limit buffer 0 [] = Inr (take k es, length (concat (take k fs)))"
    "length (concat (take k fs)) \<le> length buffer" "k < length es \<longrightarrow> length buffer < length (concat (take (Suc k) fs))"
    using drain_frames_exact [OF assms(1), of 0 buffer rest "[]"] assms(2) by auto
  let ?n = "length (concat (take k fs))" and ?b = "drop (length (concat (take k fs))) buffer"
  have split: "concat fs = concat (take k fs) @ concat (drop k fs)" by (simp flip: concat_append)
  have "?b @ rest = drop ?n (buffer @ rest)" using k(3) by simp
  also have "\<dots> = concat (drop k fs)" unfolding assms(2) split by simp
  finally have "?b @ rest = concat (drop k fs)" .
  moreover have "k < length es \<longrightarrow> length ?b < length (fs ! k)"
    using k(3,4) list_all2_lengthD [OF assms(1)] by (auto simp: take_Suc_conv_app_nth)
  moreover have "drain decode buffer limit = (Inr (take k es), ?b)"
    unfolding drain_def k(2) by (cases "?n = 0") (simp_all del: length_concat length_0_conv)
  ultimately show ?thesis using k(1) by blast
qed

lemma receive_exact:
  assumes "list_all2 (framed encode decode limit) es fs" and "(b @ concat chunks) @ rest = concat fs"
    and "es \<noteq> [] \<Longrightarrow> length b < length (hd fs)"
  shows "\<exists>k \<le> length es. \<exists>b'. receive decode limit b chunks = Inr (take k es, b') \<and> b' @ rest = concat (drop k fs) \<and>
    (k < length es \<longrightarrow> length b' < length (fs ! k))"
  using assms
proof (induction chunks arbitrary: b es fs)
  case Nil
  then show ?case using list_all2_lengthD [OF Nil(1)] by (intro exI [of _ 0]) (cases es; cases fs; simp)
next
  case (Cons d ds)
  have "(b @ d) @ (concat ds @ rest) = concat fs" using Cons.prems(2) by simp
  then obtain k b1 where k: "k \<le> length es" "drain decode (b @ d) limit = (Inr (take k es), b1)"
    "b1 @ concat ds @ rest = concat (drop k fs)" "k < length es \<longrightarrow> length b1 < length (fs ! k)"
    using drain_exact [OF Cons.prems(1)] by blast
  note len = list_all2_lengthD [OF Cons.prems(1)]
  have fr: "list_all2 (framed encode decode limit) (drop k es) (drop k fs)" using Cons.prems(1) by (rule list_all2_dropI)
  have st: "(b1 @ concat ds) @ rest = concat (drop k fs)" using k(3) by simp
  have inc: "length b1 < length (hd (drop k fs))" if "drop k es \<noteq> []"
    using that k(4) len by (simp add: hd_drop_conv_nth)
  obtain j b2 where j: "j \<le> length (drop k es)" "receive decode limit b1 ds = Inr (take j (drop k es), b2)"
    "b2 @ rest = concat (drop j (drop k fs))" "j < length (drop k es) \<longrightarrow> length b2 < length (drop k fs ! j)"
    using Cons.IH [OF fr st inc] by blast
  have "receive decode limit b (d # ds) = Inr (take (k + j) es, b2)" by (simp add: k(2) j(2) take_add)
  then show ?case
    using j k(1) len by (intro exI [of _ "k + j"]) (auto simp: add.commute)
qed

section \<open>Properties\<close>

text \<open>
  C15: Envelopes that were framed within the length limit arrive exactly, in order and once, however the byte
  stream between the two nodes is cut into chunks: after any chunks the receiver has handed out exactly the
  envelopes whose frames have arrived completely, it holds the beginning of the next frame in its buffer and
  reports no error; once everything has arrived, all envelopes have been handed out and the buffer is empty.
  (The Protobuf library decodes what it has encoded.)
\<close>

theorem frames_survive_fragmentation:
  assumes "list_all2 (\<lambda>e f. frame encode e limit = Inr f \<and> decode (encode e) = Some e) es fs"
    and "concat chunks @ rest = concat fs"
  shows "\<exists>k b. receive decode limit [] chunks = Inr (take k es, b) \<and> b @ rest = concat (drop k fs) \<and>
    (k < length es \<longrightarrow> length b < length (fs ! k)) \<and> (rest = [] \<longrightarrow> take k es = es \<and> b = [])"
proof -
  have fr: "list_all2 (framed encode decode limit) es fs" using assms(1) by (simp add: framed_def [abs_def])
  note len = list_all2_lengthD [OF fr]
  have first: "length ([] :: bytes) < length (hd fs)" if ne: "es \<noteq> []"
  proof -
    obtain e es' f fs' where "es = e # es'" "fs = f # fs'" using ne len by (cases es; cases fs) auto
    then show ?thesis using fr framed_shape(2) by fastforce
  qed
  obtain k b where k: "k \<le> length es" "receive decode limit [] chunks = Inr (take k es, b)" "b @ rest = concat (drop k fs)"
    "k < length es \<longrightarrow> length b < length (fs ! k)"
    using receive_exact [OF fr, of "[]" chunks rest] assms(2) first by auto
  have "k = length es" if "rest = []"
  proof (rule ccontr)
    assume "k \<noteq> length es"
    then have "k < length fs" using k(1) len by simp
    then have "concat (drop k fs) = fs ! k @ concat (drop (Suc k) fs)" by (simp add: Cons_nth_drop_Suc [symmetric])
    then show False using k(3,4) that \<open>k < length fs\<close> len by simp
  qed
  then show ?thesis using k len by (intro exI [of _ k] exI [of _ b]) auto
qed

theorem frames_survive_fragmentation_witness:
  "receive (\<lambda>_. Some default_envelope) 8 [] [[0, 0], [0, 1, 7, 0, 0, 0], [1, 7]] = Inr ([default_envelope, default_envelope], [])"
proof -
  have "to_be_bytes 1 = [0, 0, 0, 1]" by code_simp
  then have f: "frame (\<lambda>_. [7]) default_envelope 8 = Inr [0, 0, 0, 1, 7]" by (simp add: frame_def)
  let ?es = "[default_envelope, default_envelope]" and ?fs = "[[0, 0, 0, 1, 7], [0, 0, 0, 1, 7]] :: bytes list"
  have "\<exists>k b. receive (\<lambda>_. Some default_envelope) 8 [] [[0, 0], [0, 1, 7, 0, 0, 0], [1, 7]] = Inr (take k ?es, b) \<and>
    b @ [] = concat (drop k ?fs) \<and> (k < length ?es \<longrightarrow> length b < length (?fs ! k)) \<and> ([] = ([] :: bytes) \<longrightarrow> take k ?es = ?es \<and> b = [])"
    by (rule frames_survive_fragmentation [of "\<lambda>_. [7]"]) (use f in simp_all)
  then show ?thesis by metis
qed

end
