(* ===== verification/Socket_Event.thy ===== *)
theory Socket_Event
  imports Message
begin

text \<open>
  What the network service tells the owner of a socket (\<^verbatim>\<open>rskynet-net/src/event.rs\<close>).  Socket numbers are
  32 bits wide; addresses are of a type parameter.
\<close>

type_synonym socket_id = u32

datatype 'a socket_event =
    Accept socket_id socket_id 'a
  | Data socket_id bytes
  | Udp socket_id 'a bytes
  | Close socket_id
  | SocketError socket_id string
  | Warning socket_id nat

fun event_id :: "'a socket_event \<Rightarrow> socket_id" where
  "event_id (Accept i _ _) = i"
| "event_id (Data i _) = i"
| "event_id (Udp i _ _) = i"
| "event_id (Close i) = i"
| "event_id (SocketError i _) = i"
| "event_id (Warning i _) = i"

fun is_gone :: "'a socket_event \<Rightarrow> bool" where
  "is_gone (Close _) = True"
| "is_gone (SocketError _ _) = True"
| "is_gone _ = False"

end
