(* ===== verification/Cluster_Runs.thy ===== *)
theory Cluster_Runs
  imports Cluster
begin

text \<open>
  What holds over a whole run of the cluster service: commands, events of sockets, answers of the network
  service and results of handlers arrive in any order.
\<close>

section \<open>Runs\<close>

text \<open>
  The frames of one chunk of data may be handled apart from each other, because a handler may wait; so an
  envelope can also arrive on its own, and so can the result of a handler.
\<close>

datatype 'a cluster_input =
    InCommand "u64 \<times> u64" cluster_command
  | InEvent "'a socket_event"
  | InEnvelope socket_id envelope
  | InResult socket_id envelope bool "string + bytes"
  | InConnected node_id string "Message.error + socket_id"
  | InStarted socket_id bool

type_synonym 'h handler_code = "'h \<Rightarrow> remote_context \<Rightarrow> bytes \<Rightarrow> string + bytes"

definition cluster_step ::
  "cluster_env \<Rightarrow> 'h handler_code \<Rightarrow> 'a cluster_input \<Rightarrow> ('h, 't) cluster \<Rightarrow> ('h, 't) cluster \<times> effect list" where
  "cluster_step env run i c =
     (case i of
        InCommand msg cmd \<Rightarrow> on_command env msg cmd c
      | InEvent ev \<Rightarrow> on_socket env run ev c
      | InEnvelope s e \<Rightarrow> on_envelope env run s e c
      | InResult s e wants r \<Rightarrow> (c, invoke_done env s e wants r c)
      | InConnected n a r \<Rightarrow> connect_done env n a r c
      | InStarted s ok \<Rightarrow> (c, on_started env s ok c))"

fun cluster_run ::
  "(cluster_env \<times> 'h handler_code \<times> 'a cluster_input) list \<Rightarrow> ('h, 't) cluster \<Rightarrow> ('h, 't) cluster \<times> effect list" where
  "cluster_run [] c = (c, [])"
| "cluster_run ((env, run, i) # is) c =
     (case cluster_step env run i c of (c, es) \<Rightarrow> (case cluster_run is c of (c, fs) \<Rightarrow> (c, es @ fs)))"

section \<open>Commands and their answers\<close>

text \<open>Who asks, who has been answered, who waits; a message without a session is nobody's request.\<close>

definition asked :: "'a cluster_input \<Rightarrow> (u64 \<times> u64) list" where
  "asked i =
     (case i of
        InCommand msg cmd \<Rightarrow>
          (case cmd of CmdSend _ _ _ \<Rightarrow> [msg] | CmdRequest _ _ _ _ \<Rightarrow> [msg] | _ \<Rightarrow> [])
      | _ \<Rightarrow> [])"

definition answered_of :: "effect \<Rightarrow> (u64 \<times> u64) list" where
  "answered_of e = (case e of Answer s k _ \<Rightarrow> [(s, k)] | _ \<Rightarrow> [])"

definition one :: "u64 \<times> u64 \<Rightarrow> (u64 \<times> u64) multiset" where
  "one r = (if snd r \<noteq> 0 then {#r#} else {#})"

definition real :: "(u64 \<times> u64) list \<Rightarrow> (u64 \<times> u64) multiset" where
  "real rs = mset (filter (\<lambda>r. snd r \<noteq> 0) rs)"

definition answers :: "effect list \<Rightarrow> (u64 \<times> u64) multiset" where
  "answers es = real (concat (map answered_of es))"

definition waiting :: "(u64 \<times> cluster_pending) list \<Rightarrow> (u64 \<times> u64) multiset" where
  "waiting ps = real (map (\<lambda>(_, p). (cp_source p, cp_session p)) ps)"

definition pending_inv :: "('h, 't) cluster \<Rightarrow> bool" where
  "pending_inv c = (distinct (map fst (cl_pending c)) \<and> (\<forall>i \<in> fst ` set (cl_pending c). i \<le> cl_next_request c))"

lemma real_append [simp]: "real (xs @ ys) = real xs + real ys" "real [] = {#}" "real (r # rs) = one r + real rs"
  by (simp_all add: real_def one_def)

lemma answers_append [simp]: "answers (xs @ ys) = answers xs + answers ys" "answers [] = {#}"
  "answers (e # es) = real (answered_of e) + answers es"
  by (simp_all add: answers_def)

lemma waiting_simps [simp]: "waiting [] = {#}" "waiting (x # xs) = one (cp_source (snd x), cp_session (snd x)) + waiting xs"
  "waiting (xs @ ys) = waiting xs + waiting ys"
  by (auto simp: waiting_def split: prod.split)

lemma answered_simps [simp]:
  "answered_of (Answer s k a) = [(s, k)]" "answered_of (NetSend i b) = []" "answered_of (NetShutdown i) = []" "answered_of (NetStart i) = []"
  "answered_of (NetConnect n t) = []" "answered_of (Later ms m) = []" "answered_of (Log l) = []" "answered_of (ToSelf m) = []"
  "answered_of (NetListen t) = []" "answered_of (AnswerError s k) = []"
  by (simp_all add: answered_of_def)

lemma answers_reply [simp]: "answers (reply_to msg a) = one msg"
  by (simp add: reply_to_def one_def)

text \<open>What only transmits answers nobody.\<close>

lemma transmit_answers [simp]: "answers (snd (transmit env s e c)) = {#}"
  by (simp add: transmit_def split: sum.split option.split)

lemma outbound_answers [simp]: "answers (snd (outbound env a t i k b c)) = {#}"
  by (simp add: outbound_def split: option.split)

lemma invoke_answers [simp]: "answers (invoke_done env s e w r c) = {#}"
  by (simp add: invoke_done_def Let_def split: prod.split)

lemma transmit_no_answer: "transmit env s e c = (r, es) \<Longrightarrow> answers es = {#}"
  using transmit_answers [of env s e c] by simp

lemma connect_answers [simp]: "answers (connect_begin n t c) = {#}" "answers (snd (connect_done env n t r c)) = {#}"
  by (auto simp: connect_begin_def connect_done_def retry_def Let_def dest: transmit_no_answer split: sum.split prod.split)

lemma started_answers [simp]: "answers (on_started env s b c) = {#}"
  by (simp add: on_started_def)

lemma hello_answers [simp]: "answers (snd (accept_hello s n c)) = {#}"
  by (auto simp: accept_hello_def adopt_def Let_def split: option.split prod.split bool.split)

text \<open>Taking one request, or all requests to a node, out of the table.\<close>

lemma remove_waiting:
  assumes "distinct (map fst ps)"
  shows "waiting ps = (case map_of ps i of Some p \<Rightarrow> one (cp_source p, cp_session p) | None \<Rightarrow> {#}) + waiting (filter (\<lambda>(j, _). j \<noteq> i) ps)"
  using assms
proof (induction ps)
  case (Cons x ps)
  obtain j p where x: "x = (j, p)" by (cases x)
  show ?case
  proof (cases "j = i")
    case True
    then have "filter (\<lambda>(k, _). k \<noteq> i) ps = ps" using Cons.prems x by (auto simp: filter_id_conv image_iff)
    then show ?thesis using x True by simp
  next
    case False
    have ih: "waiting ps = (case map_of ps i of Some p \<Rightarrow> one (cp_source p, cp_session p) | None \<Rightarrow> {#}) + waiting (filter (\<lambda>(j, _). j \<noteq> i) ps)"
      using Cons by simp
    show ?thesis using x False by (simp add: ih add.left_commute)
  qed
qed simp

lemma filter_waiting: "waiting ps = waiting (filter P ps) + waiting (filter (\<lambda>x. \<not> P x) ps)"
  by (induction ps) auto

section \<open>One step answers what it takes\<close>

text \<open>
  After the step the table still has distinct numbers, asked or waiting before is answered or waiting after,
  a request that is new in the table has its timeout on the way, and at most \<^verbatim>\<open>k\<close> numbers were used up.
\<close>

definition accounts :: "nat \<Rightarrow> (u64 \<times> u64) multiset \<Rightarrow> ('h, 't) cluster \<Rightarrow> ('h, 't) cluster \<times> effect list \<Rightarrow> bool" where
  "accounts k rs c r =
     (pending_inv (fst r) \<and> unat (cl_next_request (fst r)) \<le> unat (cl_next_request c) + k \<and> answers (snd r) + waiting (cl_pending (fst r)) = rs + waiting (cl_pending c) \<and>
      (\<forall>i \<in> fst ` set (cl_pending (fst r)). i \<in> fst ` set (cl_pending c) \<or> (\<exists>t. Later t (CmdTimeout i) \<in> set (snd r))))"

lemma accounts_same:
  assumes "pending_inv c" "cl_pending c' = cl_pending c" "cl_next_request c' = cl_next_request c" "answers es = {#}"
  shows "accounts 0 {#} c (c', es)"
  using assms by (simp add: accounts_def pending_inv_def)

lemma accounts_filter:
  assumes inv: "pending_inv c" and c': "cl_pending c' = filter P (cl_pending c)" "cl_next_request c' = cl_next_request c"
    and es: "answers es = waiting (filter (\<lambda>x. \<not> P x) (cl_pending c))"
  shows "accounts 0 {#} c (c', es)"
proof -
  have "pending_inv c'" using inv by (auto simp: pending_inv_def c' distinct_map_filter)
  then show ?thesis using filter_waiting [of "cl_pending c" P] by (auto simp: accounts_def c' es add.commute)
qed

lemma accept_hello_pending:
  "cl_pending (fst (accept_hello s n c)) = cl_pending c" "cl_next_request (fst (accept_hello s n c)) = cl_next_request c"
  by (auto simp: accept_hello_def adopt_def Let_def split: option.split prod.split bool.split)

lemma remove_accounts:
  assumes inv: "pending_inv c" and r: "remove_pending i (cl_pending c) = (Some p, ps)"
  shows "accounts 0 {#} c (c\<lparr>cl_pending := ps\<rparr>, [Answer (cp_source p) (cp_session p) a])"
proof -
  have r: "map_of (cl_pending c) i = Some p" "ps = filter (\<lambda>(j, _). j \<noteq> i) (cl_pending c)" using r by (simp_all add: remove_pending_def)
  have "pending_inv (c\<lparr>cl_pending := ps\<rparr>)" using inv by (auto simp: pending_inv_def r(2) distinct_map_filter)
  moreover have "waiting (cl_pending c) = one (cp_source p, cp_session p) + waiting ps"
    using remove_waiting [of "cl_pending c" i] inv r by (simp add: pending_inv_def)
  ultimately show ?thesis by (auto simp: accounts_def r(2))
qed

lemma complete_accounts: "pending_inv c \<Longrightarrow> accounts 0 {#} c (complete_request n e b c)"
  using remove_accounts [of c "en_request_id e"] accounts_same [of c c "[]"]
  by (auto simp: complete_request_def split: prod.split option.split)

lemma timeout_accounts: "pending_inv c \<Longrightarrow> accounts 0 {#} c (request_timeout i c)"
  using remove_accounts [of c i] accounts_same [of c c "[]"]
  by (auto simp: request_timeout_def split: prod.split option.split)

lemma envelope_accounts:
  assumes "pending_inv c"
  shows "accounts 0 {#} c (on_envelope env run s e c)"
proof -
  have hello: "accounts 0 {#} c (accept_hello s n c)" for n
    using accounts_same [OF assms accept_hello_pending hello_answers [of s n c], of s n] by simp
  show ?thesis
    using hello complete_accounts [OF assms] accounts_same [OF assms refl refl]
    by (auto simp: on_envelope_def Let_def split: sum.split option.split)
qed

lemma accounts_trans:
  assumes 1: "accounts k rs c (c1, es)" and 2: "accounts k' rs' c1 (c2, fs)"
  shows "accounts (k + k') (rs + rs') c (c2, es @ fs)"
proof -
  have "answers es + waiting (cl_pending c1) = rs + waiting (cl_pending c)" "answers fs + waiting (cl_pending c2) = rs' + waiting (cl_pending c1)"
    using assms by (simp_all add: accounts_def)
  then have "answers (es @ fs) + waiting (cl_pending c2) = (rs + rs') + waiting (cl_pending c)"
    by (simp add: ac_simps)
  moreover have "unat (cl_next_request c2) \<le> unat (cl_next_request c) + (k + k')" using assms by (simp add: accounts_def)
  ultimately show ?thesis using 1 2 unfolding accounts_def set_append fst_conv snd_conv by blast
qed

lemma envelopes_accounts: "pending_inv c \<Longrightarrow> accounts 0 {#} c (on_envelopes env run s es c)"
proof (induction es arbitrary: c)
  case (Cons e es)
  obtain c1 fs where 1: "on_envelope env run s e c = (c1, fs)" by (cases "on_envelope env run s e c")
  have a1: "accounts 0 {#} c (c1, fs)" using envelope_accounts [OF Cons.prems, of env run s e] 1 by simp
  obtain c2 gs where 2: "on_envelopes env run s es c1 = (c2, gs)" by (cases "on_envelopes env run s es c1")
  have "accounts 0 {#} c1 (c2, gs)" using Cons.IH [of c1] a1 2 by (simp add: accounts_def)
  then show ?case using accounts_trans [OF a1] 1 2 by simp
qed (simp add: accounts_same)

lemma data_accounts:
  assumes "pending_inv c"
  shows "accounts 0 {#} c (on_data env run s d c)"
proof (cases "cl_peers c s")
  case None
  then show ?thesis using accounts_same [OF assms refl refl, of "[]"] by (simp add: on_data_def)
next
  case (Some p)
  obtain r b where d: "drain (ce_decode env) (pe_buffer p @ d) (cc_max_frame_len (cl_config c)) = (r, b)" by (metis surj_pair)
  let ?c1 = "c\<lparr>cl_peers := (cl_peers c)(s \<mapsto> p\<lparr>pe_buffer := b\<rparr>)\<rparr>"
  have inv: "pending_inv ?c1" using assms by (simp add: pending_inv_def)
  have "accounts 0 {#} c x" if "accounts 0 {#} ?c1 x" for x using that by (simp add: accounts_def)
  then show ?thesis
    using envelopes_accounts [OF inv] accounts_same [OF inv refl refl] by (auto simp: on_data_def Some d Let_def split: sum.split)
qed

lemma disconnected_accounts:
  assumes "pending_inv c"
  shows "accounts 0 {#} c (disconnected s c)"
proof -
  have eq: "answers (map (\<lambda>(_, q). Answer (cp_source q) (cp_session q) (a q)) ps) = waiting ps" for ps :: "(u64 \<times> cluster_pending) list" and a
    by (induction ps) auto
  have late: "answers (case x of Some z \<Rightarrow> retry n (sd_address z) | None \<Rightarrow> []) = {#}" for x n by (simp add: retry_def split: option.split)
  let ?node = "Option.bind (Option.bind (cl_peers c s) reconnect_node)
    (\<lambda>n. case cl_nodes c n of Some active \<Rightarrow> if active \<noteq> s then None else Some n | None \<Rightarrow> Some n)"
  show ?thesis
  proof (cases ?node)
    case None
    then show ?thesis unfolding disconnected_def Let_def by (simp add: accounts_same [OF assms])
  next
    case (Some n)
    have sel: "cl_nodes (c\<lparr>cl_peers := x\<rparr>) = cl_nodes c" "cl_pending (c\<lparr>cl_peers := x\<rparr>) = cl_pending c" "cl_config (c\<lparr>cl_peers := x\<rparr>) = cl_config c"
      for x by simp_all
    show ?thesis
      unfolding disconnected_def Let_def sel Some option.case
      by (rule accounts_filter [OF assms]) (simp_all add: eq late, simp add: split_def)
  qed
qed

lemma request_accounts:
  assumes inv: "pending_inv c" and room: "cl_next_request c \<noteq> - 1"
  shows "accounts 1 (one msg) c (on_command env msg (CmdRequest a t u b) c)"
proof -
  let ?i = "cl_next_request c + 1"
  have u: "unat ?i = Suc (unat (cl_next_request c))" using room by (metis add.commute add_eq_0_iff unatSuc)
  have i: "max ?i 1 = ?i" using u by (simp add: max_def word_le_nat_alt unat_eq_zero)
  define p where "p = \<lparr>cp_source = fst msg, cp_session = snd msg, cp_node = ca_node a, cp_response_type = u\<rparr>"
  have lt: "j < ?i" if "j \<in> fst ` set (cl_pending c)" for j
    using inv that u by (auto simp: pending_inv_def word_le_nat_alt word_less_nat_alt)
  then have fresh: "?i \<notin> fst ` set (cl_pending c)" by blast
  then have same: "filter (\<lambda>(j, _). j \<noteq> ?i) (cl_pending c) = cl_pending c" by (force simp: filter_id_conv)
  define c1 where "c1 = c\<lparr>cl_next_request := ?i, cl_pending := cl_pending c @ [(?i, p)]\<rparr>"
  obtain r es where o: "outbound env a t ?i Request b c1 = (r, es)" by (cases "outbound env a t ?i Request b c1")
  have quiet: "answers es = {#}" using outbound_answers [of env a t ?i Request b c1] o by simp
  have eq: "on_command env msg (CmdRequest a t u b) c =
      (case r of
         Inl err \<Rightarrow> (c1\<lparr>cl_pending := cl_pending c\<rparr>, es @ reply_to msg (AnswerFailed (FailError err)))
       | Inr _ \<Rightarrow> (c1, es @ [Later (cc_request_timeout_ms (cl_config c)) (CmdTimeout ?i)]))"
    using o same by (simp add: on_command_def Let_def i put_pending_def remove_pending_def p_def c1_def split: sum.split)
  have inv1: "pending_inv c1" "pending_inv (c1\<lparr>cl_pending := cl_pending c\<rparr>)"
    using inv fresh lt by (auto simp: pending_inv_def c1_def image_iff order.strict_implies_order)
  have n1: "cl_next_request c1 = ?i" "cl_pending c1 = cl_pending c @ [(?i, p)]" by (simp_all add: c1_def)
  have "one (cp_source p, cp_session p) = one msg" by (simp add: p_def)
  then show ?thesis
    unfolding eq using inv1 quiet u by (cases r) (auto simp: accounts_def n1 ac_simps)
qed

lemma command_accounts:
  assumes inv: "pending_inv c" and room: "cl_next_request c \<noteq> - 1"
  shows "accounts 1 (real (asked (InCommand msg cmd))) c (on_command env msg cmd c)"
proof -
  have weak: "accounts 0 rs c r \<Longrightarrow> accounts 1 rs c r" for rs r by (simp add: accounts_def)
  show ?thesis
  proof (cases cmd)
    case (CmdSend a t b)
    obtain r es where o: "outbound env a t 0 Send b c = (r, es)" by (cases "outbound env a t 0 Send b c")
    then have "answers es = {#}" using outbound_answers [of env a t 0 Send b c] by simp
    then show ?thesis using inv o by (auto simp: CmdSend on_command_def asked_def accounts_def split: sum.split)
  next
    case (CmdRequest a t u b)
    then show ?thesis using request_accounts [OF assms] by (simp add: asked_def)
  next
    case (CmdTimeout i)
    then show ?thesis using weak [OF timeout_accounts [OF inv]] by (simp add: asked_def on_command_def)
  next
    case (CmdConnect n t)
    then show ?thesis using weak [OF accounts_same [OF inv refl refl]] by (simp add: asked_def on_command_def)
  qed
qed

lemma step_accounts:
  assumes inv: "pending_inv c" and room: "cl_next_request c \<noteq> - 1"
  shows "accounts 1 (real (asked i)) c (cluster_step env run i c)"
proof -
  have weak: "accounts 0 rs c r \<Longrightarrow> accounts 1 rs c r" for rs r by (simp add: accounts_def)
  note quiet = weak [OF accounts_same [OF inv refl refl]]
  show ?thesis
  proof (cases i)
    case (InCommand msg cmd)
    then show ?thesis using command_accounts [OF assms] by (simp add: cluster_step_def)
  next
    case (InEvent ev)
    have "accounts 0 {#} c (on_accept s c)" for s by (simp add: on_accept_def accounts_same [OF inv])
    then show ?thesis
      using InEvent weak data_accounts [OF inv] disconnected_accounts [OF inv] accounts_same [OF inv refl refl, of "[]"]
      by (auto simp: cluster_step_def on_socket_def asked_def split: socket_event.split)
  next
    case (InConnected n t r)
    have same: "cl_pending (fst (connect_done env n t r c)) = cl_pending c" "cl_next_request (fst (connect_done env n t r c)) = cl_next_request c"
      by (auto simp: connect_done_def Let_def split: sum.split prod.split)
    have "accounts 0 {#} c (connect_done env n t r c)"
      using accounts_same [OF inv same connect_answers(2) [of env n t r c]] by simp
    then show ?thesis using weak InConnected by (simp add: cluster_step_def asked_def)
  qed (use weak [OF envelope_accounts [OF inv]] quiet in \<open>simp_all add: cluster_step_def asked_def\<close>)
qed

lemma run_accounts:
  assumes "pending_inv c" "unat (cl_next_request c) + length ins < 2 ^ 64"
  shows "accounts (length ins) (real (concat (map (\<lambda>(_, _, i). asked i) ins))) c (cluster_run ins c)"
  using assms
proof (induction ins arbitrary: c)
  case Nil
  then show ?case by (simp add: accounts_same)
next
  case (Cons x ins)
  obtain env run i where x: "x = (env, run, i)" by (cases x)
  have "cl_next_request c \<noteq> - 1" using Cons.prems(2) unsigned_minus_1_eq_mask [where 'a = nat and 'b = 64] by (auto simp: mask_eq_exp_minus_1)
  then have a: "accounts 1 (real (asked i)) c (cluster_step env run i c)" by (rule step_accounts [OF Cons.prems(1)])
  obtain c1 es where s: "cluster_step env run i c = (c1, es)" by (cases "cluster_step env run i c")
  have c1: "pending_inv c1" "unat (cl_next_request c1) \<le> unat (cl_next_request c) + 1" using a s by (simp_all add: accounts_def)
  obtain c2 fs where r: "cluster_run ins c1 = (c2, fs)" by (cases "cluster_run ins c1")
  have "accounts (length ins) (real (concat (map (\<lambda>(_, _, i). asked i) ins))) c1 (c2, fs)"
    using Cons.IH [OF c1(1)] c1(2) Cons.prems(2) r by simp
  then show ?case using accounts_trans [OF a [unfolded s]] by (simp add: x s r)
qed

section \<open>The tables of connections\<close>

text \<open>
  A node in the table of nodes is another node, and its connection is one over which that node has introduced
  itself; a connection this node has opened has only been claimed by the node it was meant for.
\<close>

definition tables_inv :: "('h, 't) cluster \<Rightarrow> bool" where
  "tables_inv c =
     ((\<forall>n s. cl_nodes c n = Some s \<longrightarrow> n \<noteq> cl_node_id c \<and> (\<exists>p. cl_peers c s = Some p \<and> pe_node p = Some n)) \<and>
      (\<forall>s p n. cl_peers c s = Some p \<longrightarrow> pe_node p = Some n \<longrightarrow> pe_expected p = None \<or> pe_expected p = Some n))"

text \<open>The network service gives a new connection a number that no known connection has.\<close>

definition new_socket :: "'a cluster_input \<Rightarrow> ('h, 't) cluster \<Rightarrow> bool" where
  "new_socket i c =
     (case i of
        InEvent (Accept s _ _) \<Rightarrow> cl_peers c s = None
      | InConnected _ _ (Inr s) \<Rightarrow> cl_peers c s = None
      | _ \<Rightarrow> True)"

fun new_sockets :: "(cluster_env \<times> 'h handler_code \<times> 'a cluster_input) list \<Rightarrow> ('h, 't) cluster \<Rightarrow> bool" where
  "new_sockets [] c = True"
| "new_sockets ((env, run, i) # is) c = (new_socket i c \<and> new_sockets is (fst (cluster_step env run i c)))"

lemma tablesD:
  assumes "tables_inv c"
  shows "cl_nodes c n = Some s \<Longrightarrow> n \<noteq> cl_node_id c" "cl_nodes c n = Some s \<Longrightarrow> \<exists>p. cl_peers c s = Some p \<and> pe_node p = Some n"
    "\<lbrakk>cl_peers c s = Some p; pe_node p = Some n\<rbrakk> \<Longrightarrow> pe_expected p = None \<or> pe_expected p = Some n"
    "\<lbrakk>cl_nodes c n = Some s; cl_nodes c m = Some s\<rbrakk> \<Longrightarrow> m = n"
  using assms unfolding tables_inv_def by (blast, blast, blast, metis option.inject)

lemma tablesI:
  assumes "\<And>n s. cl_nodes c n = Some s \<Longrightarrow> n \<noteq> cl_node_id c" "\<And>n s. cl_nodes c n = Some s \<Longrightarrow> \<exists>p. cl_peers c s = Some p \<and> pe_node p = Some n"
    "\<And>s p n. \<lbrakk>cl_peers c s = Some p; pe_node p = Some n\<rbrakk> \<Longrightarrow> pe_expected p = None \<or> pe_expected p = Some n"
  shows "tables_inv c"
  using assms unfolding tables_inv_def by blast

lemma tables_frame:
  assumes "tables_inv c" "cl_nodes c' = cl_nodes c" "cl_peers c' = cl_peers c" "cl_node_id c' = cl_node_id c"
  shows "tables_inv c'"
  using assms by (simp add: tables_inv_def)

text \<open>An entry of the table of connections changes that is not in use, or keeps what counts.\<close>

lemma tables_put_peer:
  assumes inv: "tables_inv c" and use: "\<And>m. cl_nodes c m = Some s \<Longrightarrow> pe_node p = Some m"
    and exp: "\<And>n. pe_node p = Some n \<Longrightarrow> pe_expected p = None \<or> pe_expected p = Some n"
  shows "tables_inv (c\<lparr>cl_peers := (cl_peers c)(s \<mapsto> p)\<rparr>)"
proof (rule tablesI, goal_cases)
  case (1 n t)
  then show ?case using tablesD(1) [OF inv] by simp
next
  case (2 n t)
  then show ?case using tablesD(2) [OF inv, of n t] use [of n] by (cases "t = s") auto
next
  case (3 t q n)
  then show ?case using tablesD(3) [OF inv, of t q n] exp by (auto split: if_splits)
qed

lemma tables_new_peer:
  assumes "tables_inv c" "cl_peers c s = None" "pe_node p = None"
  shows "tables_inv (c\<lparr>cl_peers := (cl_peers c)(s \<mapsto> p)\<rparr>)"
  using assms tablesD(2) [OF assms(1)] by (intro tables_put_peer) force+

lemma tables_buffer:
  assumes "tables_inv c" "cl_peers c s = Some p"
  shows "tables_inv (c\<lparr>cl_peers := (cl_peers c)(s \<mapsto> p\<lparr>pe_buffer := b\<rparr>)\<rparr>)"
  using assms tablesD(2,3) [OF assms(1)] by (intro tables_put_peer) force+

text \<open>A connection that is not in use is forgotten; a node is put into the table, or taken out.\<close>

lemma tables_drop_peer:
  assumes inv: "tables_inv c" and free: "\<And>m. cl_nodes c m \<noteq> Some s"
  shows "tables_inv (c\<lparr>cl_peers := (cl_peers c)(s := None)\<rparr>)"
proof (rule tablesI, goal_cases)
  case (1 n t)
  then show ?case using tablesD(1) [OF inv] by simp
next
  case (2 n t)
  then show ?case using tablesD(2) [OF inv, of n t] free [of n] by auto
next
  case (3 t q n)
  then show ?case using tablesD(3) [OF inv, of t q n] by (auto split: if_splits)
qed

lemma tables_put_node:
  assumes inv: "tables_inv c" and "n \<noteq> cl_node_id c" "cl_peers c s = Some p" "pe_node p = Some n"
  shows "tables_inv (c\<lparr>cl_nodes := (cl_nodes c)(n \<mapsto> s)\<rparr>)"
  using assms tablesD [OF inv] by (intro tablesI) (auto split: if_splits)

lemma tables_remove_node:
  assumes inv: "tables_inv c"
  shows "tables_inv (c\<lparr>cl_nodes := (cl_nodes c)(n := None)\<rparr>)"
  using tablesD [OF inv] by (intro tablesI) (auto split: if_splits)

text \<open>A handshake is refused, or the connection is claimed and then compared with an older one.\<close>

lemma accept_hello_cases:
  obtains (refused) "accept_hello s n c = (c, [NetShutdown s])" | (unknown) "accept_hello s n c = (c, [])"
  | (claimed) p where "cl_peers c s = Some p" "pe_node p = None" "pe_expected p = None \<or> pe_expected p = Some n" "n \<noteq> cl_node_id c"
      "accept_hello s n c =
         (let c = c\<lparr>cl_peers := (cl_peers c)(s \<mapsto> p\<lparr>pe_node := Some n\<rparr>)\<rparr> in
          if old_stays n (if pe_expected p \<noteq> None then cl_node_id c else n) c then (c, [NetShutdown s]) else adopt s n c)"
proof (cases "n = cl_node_id c \<or> cl_peers c s = None")
  case True
  then show ?thesis using refused unknown by (cases "n = cl_node_id c") (simp_all add: accept_hello_def)
next
  case False
  then obtain p where p: "cl_peers c s = Some p" "n \<noteq> cl_node_id c" by auto
  show ?thesis
  proof (cases "pe_node p = None \<and> (pe_expected p = None \<or> pe_expected p = Some n)")
    case True
    then show ?thesis using claimed [OF p(1) _ _ p(2)] p by (auto simp: accept_hello_def claim_def)
  next
    case False
    then show ?thesis using refused p by (auto simp: accept_hello_def claim_def split: option.splits)
  qed
qed

lemma adopt_tables:
  assumes inv: "tables_inv c" and "n \<noteq> cl_node_id c" "cl_peers c s = Some p" "pe_node p = Some n"
  shows "tables_inv (fst (adopt s n c))"
proof -
  let ?c1 = "c\<lparr>cl_nodes := (cl_nodes c)(n \<mapsto> s)\<rparr>"
  have one: "tables_inv ?c1" by (rule tables_put_node [OF assms])
  have "tables_inv (?c1\<lparr>cl_peers := (cl_peers ?c1)(t := None)\<rparr>)" if t: "cl_nodes c n = Some t" "t \<noteq> s" for t
    using tablesD(4) [OF inv t(1)] t(2) by (intro tables_drop_peer [OF one]) (auto split: if_splits)
  then show ?thesis using one by (auto simp: adopt_def Let_def split: option.split)
qed

lemma hello_tables:
  assumes inv: "tables_inv c"
  shows "tables_inv (fst (accept_hello s n c))"
proof (rule accept_hello_cases [of s n c])
  fix p
  assume p: "cl_peers c s = Some p" "pe_node p = None" "pe_expected p = None \<or> pe_expected p = Some n" and o: "n \<noteq> cl_node_id c"
    and eq: "accept_hello s n c =
         (let c = c\<lparr>cl_peers := (cl_peers c)(s \<mapsto> p\<lparr>pe_node := Some n\<rparr>)\<rparr> in
          if old_stays n (if pe_expected p \<noteq> None then cl_node_id c else n) c then (c, [NetShutdown s]) else adopt s n c)"
  have "cl_nodes c m \<noteq> Some s" for m using tablesD(2) [OF inv, of m s] p by auto
  then have one: "tables_inv (c\<lparr>cl_peers := (cl_peers c)(s \<mapsto> p\<lparr>pe_node := Some n\<rparr>)\<rparr>)" using p by (intro tables_put_peer [OF inv]) auto
  show ?thesis using one adopt_tables [OF one, of n s] o by (simp add: eq Let_def)
qed (use inv in simp_all)

lemma envelope_tables: "tables_inv c \<Longrightarrow> tables_inv (fst (on_envelope env run s e c))"
  by (auto simp: on_envelope_def Let_def complete_request_def hello_tables intro: tables_frame split: sum.split option.split prod.split)

lemma envelopes_tables: "tables_inv c \<Longrightarrow> tables_inv (fst (on_envelopes env run s es c))"
proof (induction es arbitrary: c)
  case (Cons e es)
  show ?case
    using Cons.IH [OF envelope_tables [OF Cons.prems, of env run s e]] by (simp split: prod.split) (metis fst_conv)
qed simp

lemma data_tables:
  assumes "tables_inv c"
  shows "tables_inv (fst (on_data env run s d c))"
  using assms envelopes_tables [OF tables_buffer [OF assms]] tables_buffer [OF assms]
  by (auto simp: on_data_def Let_def split: option.split prod.split sum.split)

lemma disconnected_tables:
  assumes inv: "tables_inv c"
  shows "tables_inv (fst (disconnected s c))"
proof (cases "\<exists>m. cl_nodes c m = Some s")
  case True
  then obtain m where m: "cl_nodes c m = Some s" by blast
  obtain p where p: "cl_peers c s = Some p" "pe_node p = Some m" using tablesD(2) [OF inv m] by blast
  then have "reconnect_node p = Some m" using tablesD(3) [OF inv] by (fastforce simp: reconnect_node_def)
  then have st: "cl_nodes (fst (disconnected s c)) = (cl_nodes c)(m := None)" "cl_peers (fst (disconnected s c)) = (cl_peers c)(s := None)"
    "cl_node_id (fst (disconnected s c)) = cl_node_id c" using p m by (simp_all add: disconnected_def Let_def)
  let ?c1 = "c\<lparr>cl_nodes := (cl_nodes c)(m := None)\<rparr>"
  have "cl_nodes ?c1 k \<noteq> Some s" for k using tablesD(4) [OF inv m, of k] by auto
  then have "tables_inv (?c1\<lparr>cl_peers := (cl_peers ?c1)(s := None)\<rparr>)" by (rule tables_drop_peer [OF tables_remove_node [OF inv]])
  then show ?thesis using st by (elim tables_frame) simp_all
next
  case False
  then have st: "cl_nodes (fst (disconnected s c)) = cl_nodes c" "cl_peers (fst (disconnected s c)) = (cl_peers c)(s := None)"
    "cl_node_id (fst (disconnected s c)) = cl_node_id c" by (auto simp: disconnected_def Let_def split: option.split)
  have "tables_inv (c\<lparr>cl_peers := (cl_peers c)(s := None)\<rparr>)" using False by (intro tables_drop_peer [OF inv]) auto
  then show ?thesis using st by (elim tables_frame) simp_all
qed

lemma command_tables: "tables_inv c \<Longrightarrow> tables_inv (fst (on_command env msg cmd c))"
  by (cases cmd) (auto simp: on_command_def request_timeout_def Let_def intro: tables_frame split: sum.split prod.split option.split)

lemma step_tables:
  assumes inv: "tables_inv c" and new: "new_socket i c"
  shows "tables_inv (fst (cluster_step env run i c))"
proof (cases i)
  case (InEvent ev)
  then show ?thesis
    using new data_tables [OF inv] disconnected_tables [OF inv] tables_new_peer [OF inv] inv
    by (auto simp: cluster_step_def on_socket_def on_accept_def new_socket_def split: socket_event.split)
next
  case (InConnected n t r)
  then show ?thesis
    using new inv tables_new_peer [OF inv]
    by (auto simp: cluster_step_def connect_done_def new_socket_def Let_def split: sum.split prod.split)
qed (use command_tables [OF inv] envelope_tables [OF inv] inv in \<open>simp_all add: cluster_step_def\<close>)

lemma run_tables: "\<lbrakk>tables_inv c; new_sockets ins c\<rbrakk> \<Longrightarrow> tables_inv (fst (cluster_run ins c))"
proof (induction ins arbitrary: c)
  case (Cons x ins)
  obtain env run i where x: "x = (env, run, i)" by (cases x)
  obtain c1 es where s: "cluster_step env run i c = (c1, es)" by (cases "cluster_step env run i c")
  have "tables_inv c1" "new_sockets ins c1" using Cons.prems step_tables [of c i env run] s x by simp_all
  then show ?case using Cons.IH [of c1] x s by (simp split: prod.split) (metis fst_conv)
qed simp

section \<open>Two nodes that connect to each other\<close>

text \<open>
  The state of one end: a connection it has opened to the other node and one it has accepted, neither of them
  introduced yet.
\<close>

definition duel :: "node_id \<Rightarrow> socket_id \<Rightarrow> socket_id \<Rightarrow> ('h, 't) cluster \<Rightarrow> bool" where
  "duel other opened accepted c =
     (cl_node_id c \<noteq> other \<and> opened \<noteq> accepted \<and> cl_nodes c other = None \<and>
      (\<exists>p. cl_peers c opened = Some p \<and> pe_node p = None \<and> pe_expected p = Some other) \<and>
      (\<exists>p. cl_peers c accepted = Some p \<and> pe_node p = None \<and> pe_expected p = None))"

text \<open>The two introductions of the other node arrive, in one order or the other.\<close>

definition both_hellos :: "bool \<Rightarrow> node_id \<Rightarrow> socket_id \<Rightarrow> socket_id \<Rightarrow> ('h, 't) cluster \<Rightarrow> ('h, 't) cluster \<times> effect list" where
  "both_hellos opened_first other opened accepted c =
     (case accept_hello (if opened_first then opened else accepted) other c of (c, es) \<Rightarrow>
        (case accept_hello (if opened_first then accepted else opened) other c of (c, fs) \<Rightarrow> (c, es @ fs)))"

lemma duel_end:
  assumes "duel b x y c"
  shows "cl_nodes (fst (both_hellos first b x y c)) b = Some (if cl_node_id c < b then x else y)"
    "snd (both_hellos first b x y c) = [NetShutdown (if cl_node_id c < b then y else x)]"
proof -
  obtain p q where d: "cl_node_id c \<noteq> b" "b \<noteq> cl_node_id c" "x \<noteq> y" "y \<noteq> x" "cl_nodes c b = None" "cl_peers c x = Some p" "pe_node p = None" "pe_expected p = Some b"
    "cl_peers c y = Some q" "pe_node q = None" "pe_expected q = None" using assms by (auto simp: duel_def)
  let ?cx = "c\<lparr>cl_peers := (cl_peers c)(x \<mapsto> p\<lparr>pe_node := Some b\<rparr>), cl_nodes := (cl_nodes c)(b \<mapsto> x)\<rparr>"
  let ?cy = "c\<lparr>cl_peers := (cl_peers c)(y \<mapsto> q\<lparr>pe_node := Some b\<rparr>), cl_nodes := (cl_nodes c)(b \<mapsto> y)\<rparr>"
  have 1: "accept_hello x b c = (?cx, [])" "accept_hello y b c = (?cy, [])"
    using d by (simp_all add: accept_hello_def claim_def old_stays_def adopt_def Let_def)
  have 2: "accept_hello y b ?cx =
      (let c1 = ?cx\<lparr>cl_peers := (cl_peers c)(x \<mapsto> p\<lparr>pe_node := Some b\<rparr>, y \<mapsto> q\<lparr>pe_node := Some b\<rparr>)\<rparr>
       in if cl_node_id c \<le> b then (c1, [NetShutdown y]) else adopt y b c1)"
    using d by (simp add: accept_hello_def claim_def old_stays_def initiator_def Let_def)
  have 3: "accept_hello x b ?cy =
      (let c1 = ?cy\<lparr>cl_peers := (cl_peers c)(y \<mapsto> q\<lparr>pe_node := Some b\<rparr>, x \<mapsto> p\<lparr>pe_node := Some b\<rparr>)\<rparr>
       in if b \<le> cl_node_id c then (c1, [NetShutdown x]) else adopt x b c1)"
    using d by (simp add: accept_hello_def claim_def old_stays_def initiator_def Let_def)
  have le: "cl_node_id c \<le> b \<longleftrightarrow> cl_node_id c < b" "b \<le> cl_node_id c \<longleftrightarrow> \<not> cl_node_id c < b" using d(1) by auto
  have "cl_nodes (fst (both_hellos first b x y c)) b = Some (if cl_node_id c < b then x else y) \<and>
    snd (both_hellos first b x y c) = [NetShutdown (if cl_node_id c < b then y else x)]"
  proof (cases first)
    case True
    then show ?thesis using d unfolding both_hellos_def by (simp add: 1 2 le adopt_def Let_def)
  next
    case False
    then show ?thesis using d unfolding both_hellos_def by (simp add: 1 3 le adopt_def Let_def)
  qed
  then show "cl_nodes (fst (both_hellos first b x y c)) b = Some (if cl_node_id c < b then x else y)"
    "snd (both_hellos first b x y c) = [NetShutdown (if cl_node_id c < b then y else x)]" by simp_all
qed

section \<open>Properties\<close>

definition silent_env :: cluster_env where
  "silent_env = \<lparr>ce_encode = (\<lambda>_. []), ce_decode = (\<lambda>_. None), ce_tell = (\<lambda>_. None)\<rparr>"

lemma first_config: "config_validate (default_config\<lparr>cc_node_id := 1\<rparr>) = Inr 1"
  by (simp add: config_validate_def new_node_id_def default_config_def DEFAULT_MAX_FRAME_LEN_def)

lemma init_inv:
  assumes "cluster_init handlers cfg free listened started = Inr (c, es)"
  shows "pending_inv c" "tables_inv c" "cl_next_request c = 0" "cl_pending c = []"
  using assms by (auto simp: cluster_init_def Let_def pending_inv_def tables_inv_def split: sum.splits option.splits if_splits)

text \<open>
  C10: Whatever happens on the network and in whatever order, every command to send or to request is answered
  exactly once: at every moment the callers that have been answered, together with the callers whose requests
  still wait in the table, are exactly the callers that have asked, counted with multiplicity.  And a request
  that still waits has its timeout on the way.  (Fewer than $2^{64}$ things happen, so the numbers of the requests
  do not wrap around.)
\<close>

theorem commands_answered_once:
  assumes "cluster_init handlers cfg free listened started = Inr (c0, es0)" and "length ins < 2 ^ 64"
    and "cluster_run ins c0 = (c, es)"
  shows "answers es + waiting (cl_pending c) = real (concat (map (\<lambda>(_, _, i). asked i) ins)) \<and>
    (\<forall>i \<in> fst ` set (cl_pending c). \<exists>t. Later t (CmdTimeout i) \<in> set es)"
  using run_accounts [of c0 ins] init_inv [OF assms(1)] assms(2,3) by (simp add: accounts_def)

theorem commands_answered_once_witness:
  "\<exists>c0 es0. cluster_init (new_registry :: (unit, unit) handler_registry) (Some (default_config\<lparr>cc_node_id := 1\<rparr>)) True (Inr 5) None = Inr (c0, es0) \<and>
     (\<forall>env run c es. cluster_run [(env, run, InCommand (3, 9) (CmdSend \<lparr>ca_node = 2, ca_service = AddrHandle 8\<rparr> 1 []) :: unit cluster_input)] c0 = (c, es) \<longrightarrow>
        answers es + waiting (cl_pending c) = {#(3, 9)#})"
proof -
  obtain c0 es0 where 0: "cluster_init (new_registry :: (unit, unit) handler_registry) (Some (default_config\<lparr>cc_node_id := 1\<rparr>)) True (Inr 5) None = Inr (c0, es0)"
    by (simp add: first_config cluster_init_def Let_def)
  show ?thesis
    using commands_answered_once [OF 0, of "[(_, _, InCommand (3, 9) (CmdSend \<lparr>ca_node = 2, ca_service = AddrHandle 8\<rparr> 1 []) :: unit cluster_input)]"] 0
    by (auto simp: asked_def one_def)
qed

text \<open>
  C13: In every run in which the network service numbers connections freshly, a node in the table of connected
  nodes is never the node itself, its connection is one that is still open and over which exactly that node has
  introduced itself, and no two nodes share a connection.
\<close>

theorem connected_nodes_are_who_they_say:
  assumes "cluster_init handlers cfg free listened started = Inr (c0, es0)" and "new_sockets ins c0"
    and "cluster_run ins c0 = (c, es)" and "cl_nodes c n = Some s"
  shows "n \<noteq> cl_node_id c \<and> (\<exists>p. cl_peers c s = Some p \<and> pe_node p = Some n) \<and> (\<forall>m. cl_nodes c m = Some s \<longrightarrow> m = n)"
proof -
  have "tables_inv c" using run_tables [OF init_inv(2) [OF assms(1)] assms(2)] assms(3) by simp
  then show ?thesis using tablesD assms(4) by blast
qed

theorem connected_nodes_are_who_they_say_witness:
  "\<exists>c0 es0 c es. cluster_init (new_registry :: (unit, unit) handler_registry) (Some (default_config\<lparr>cc_node_id := 1\<rparr>)) True (Inr 5) None = Inr (c0, es0) \<and>
     cluster_run [(silent_env, \<lambda>_ _ _. Inl [], InEvent (Accept 7 5 ())),
                  (silent_env, \<lambda>_ _ _. Inl [], InEnvelope 7 (default_envelope\<lparr>en_version := PROTOCOL_VERSION, en_source_node := 2\<rparr>))] c0 = (c, es) \<and>
     cl_nodes c 2 = Some 7 \<and> (\<forall>m. cl_nodes c m = Some 7 \<longrightarrow> m = 2)"
proof -
  obtain c0 es0 where 0: "cluster_init (new_registry :: (unit, unit) handler_registry) (Some (default_config\<lparr>cc_node_id := 1\<rparr>)) True (Inr 5) None = Inr (c0, es0)"
    "cl_node_id c0 = 1" "cl_nodes c0 = Map.empty" "cl_peers c0 = Map.empty"
    by (simp add: first_config cluster_init_def Let_def)
  let ?ins = "[(silent_env, \<lambda>_ _ _. Inl [], InEvent (Accept 7 5 ())),
    (silent_env, \<lambda>_ _ _. Inl [], InEnvelope 7 (default_envelope\<lparr>en_version := PROTOCOL_VERSION, en_source_node := 2\<rparr>))]"
  obtain c es where r: "cluster_run ?ins c0 = (c, es)" by (metis surj_pair)
  have "kind_of 0 = Some Hello" using kind_of_value [of Hello] by simp
  then have n: "cl_nodes c 2 = Some 7"
    using r 0(2-4) by (auto simp: cluster_step_def on_socket_def on_accept_def on_envelope_def default_envelope_def new_node_id_def
        accept_hello_def claim_def old_stays_def adopt_def Let_def)
  have "new_sockets ?ins c0" using 0(4) by (simp add: new_socket_def)
  then show ?thesis using connected_nodes_are_who_they_say [OF 0(1) _ r n] 0(1) r n by blast
qed

text \<open>
  C14: When two nodes have connected to each other at the same time, then in whatever order the introductions
  arrive at either end, both ends keep the connection that the node with the smaller number has opened, and each
  shuts down exactly its end of the other one.
\<close>

theorem simultaneous_connections_agree:
  assumes a: "duel b x y ca" "cl_node_id ca = a" and b: "duel a y' x' cb" "cl_node_id cb = b"
    and "both_hellos fa b x y ca = (ca', ea)" and "both_hellos fb a y' x' cb = (cb', eb)"
  shows "if a < b then cl_nodes ca' b = Some x \<and> cl_nodes cb' a = Some x' \<and> ea = [NetShutdown y] \<and> eb = [NetShutdown y']
         else cl_nodes ca' b = Some y \<and> cl_nodes cb' a = Some y' \<and> ea = [NetShutdown x] \<and> eb = [NetShutdown x']"
proof -
  have "a \<noteq> b" using a by (simp add: duel_def)
  then show ?thesis
    using duel_end [OF a(1), of fa] duel_end [OF b(1), of fb] assms(2,4,5,6) by (auto simp: not_less)
qed

theorem simultaneous_connections_agree_witness:
  "\<exists>c. cluster_init (new_registry :: (unit, unit) handler_registry) (Some (default_config\<lparr>cc_node_id := 1\<rparr>)) True (Inr 5) None = Inr (c, [NetListen ''127.0.0.1:0'', NetStart 5]) \<and>
     (let ca = c\<lparr>cl_peers := [10 \<mapsto> \<lparr>pe_node = None, pe_expected = Some 2, pe_buffer = []\<rparr>, 11 \<mapsto> \<lparr>pe_node = None, pe_expected = None, pe_buffer = []\<rparr>]\<rparr>;
          cb = c\<lparr>cl_node_id := 2, cl_peers := [20 \<mapsto> \<lparr>pe_node = None, pe_expected = Some 1, pe_buffer = []\<rparr>, 21 \<mapsto> \<lparr>pe_node = None, pe_expected = None, pe_buffer = []\<rparr>]\<rparr>
      in cl_nodes (fst (both_hellos True 2 10 11 ca)) 2 = Some 10 \<and> cl_nodes (fst (both_hellos True 1 20 21 cb)) 1 = Some 21)"
proof -
  obtain c where c: "cluster_init (new_registry :: (unit, unit) handler_registry) (Some (default_config\<lparr>cc_node_id := 1\<rparr>)) True (Inr 5) None =
      Inr (c, [NetListen ''127.0.0.1:0'', NetStart 5])" "cl_node_id c = 1" "cl_nodes c = Map.empty"
    by (simp add: first_config cluster_init_def Let_def) (simp add: default_config_def)
  let ?ca = "c\<lparr>cl_peers := [10 \<mapsto> \<lparr>pe_node = None, pe_expected = Some 2, pe_buffer = []\<rparr>, 11 \<mapsto> \<lparr>pe_node = None, pe_expected = None, pe_buffer = []\<rparr>]\<rparr>"
  let ?cb = "c\<lparr>cl_node_id := 2, cl_peers := [20 \<mapsto> \<lparr>pe_node = None, pe_expected = Some 1, pe_buffer = []\<rparr>, 21 \<mapsto> \<lparr>pe_node = None, pe_expected = None, pe_buffer = []\<rparr>]\<rparr>"
  have d: "duel 2 10 11 ?ca" "cl_node_id ?ca = 1" "duel 1 20 21 ?cb" "cl_node_id ?cb = 2"
    using c by (simp_all add: duel_def)
  obtain ca' ea cb' eb where r: "both_hellos True 2 10 11 ?ca = (ca', ea)" "both_hellos True 1 20 21 ?cb = (cb', eb)" by (metis surj_pair)
  show ?thesis
    using simultaneous_connections_agree [OF d r] c(1) r by (auto simp: Let_def)
qed

end
