(* ===== verification/Module.thy ===== *)
theory Module
  imports Service "HOL-Library.Product_Lexorder" "HOL-Library.Multiset"
begin

text \<open>
  \<^verbatim>\<open>rskynet-core/src/module.rs\<close>: the table of service types. A factory is what its instances do; the factory of an
  exclusive service type produces exclusive instances.
\<close>

section \<open>The table\<close>

type_synonym ('b, 'f) registry = "string \<Rightarrow> ('b, 'f) instance_code option"

text \<open>A description that the linker has collected, with the function that enters it into a table.\<close>

record ('b, 'f) auto_service =
  as_name :: string
  as_exclusive :: bool
  as_source :: string
  as_register :: "('b, 'f) registry \<Rightarrow> ('b, 'f) registry"

definition registry_new :: "('b, 'f) registry" where
  "registry_new = Map.empty"

definition registry_register :: "string \<Rightarrow> ('b, 'f) instance_code \<Rightarrow> ('b, 'f) registry \<Rightarrow> ('b, 'f) registry" where
  "registry_register kind factory r = r(kind \<mapsto> factory\<lparr>code_exclusive := False\<rparr>)"

definition registry_register_exclusive :: "string \<Rightarrow> ('b, 'f) instance_code \<Rightarrow> ('b, 'f) registry \<Rightarrow> ('b, 'f) registry" where
  "registry_register_exclusive kind factory r = r(kind \<mapsto> factory\<lparr>code_exclusive := True\<rparr>)"

definition registry_contains :: "string \<Rightarrow> ('b, 'f) registry \<Rightarrow> bool" where
  "registry_contains kind r = (r kind \<noteq> None)"

definition registry_kinds :: "('b, 'f) registry \<Rightarrow> string list" where
  "registry_kinds r = sorted_list_of_set (dom r)"

section \<open>Automatic registration\<close>

definition DUPLICATE_TEXT_1 :: string where
  "DUPLICATE_TEXT_1 = map (\<lambda>n. char_of (n :: nat)) [0xe8, 0x87, 0xaa, 0xe5, 0x8a, 0xa8, 0xe6, 0xb3,
     0xa8, 0xe5, 0x86, 0x8c, 0xe7, 0x9a, 0x84, 0xe6, 0x9c, 0x8d, 0xe5, 0x8a, 0xa1, 0xe7, 0xb1, 0xbb, 0xe5,
     0x9e, 0x8b, 0x20, 0x60]"

definition DUPLICATE_TEXT_2 :: string where
  "DUPLICATE_TEXT_2 = map (\<lambda>n. char_of (n :: nat)) [0x60, 0x20, 0xe9, 0x87, 0x8d, 0xe5, 0xa4, 0x8d,
     0xef, 0xbc, 0x9a]"

definition DUPLICATE_TEXT_3 :: string where
  "DUPLICATE_TEXT_3 = map (\<lambda>n. char_of (n :: nat)) [0x20, 0xe4, 0xb8, 0x8e, 0x20]"

definition duplicate_text :: "string \<Rightarrow> string \<Rightarrow> string \<Rightarrow> string" where
  "duplicate_text name a b = DUPLICATE_TEXT_1 @ name @ DUPLICATE_TEXT_2 @ a @ DUPLICATE_TEXT_3 @ b"

text \<open>The first two neighbours with the same name.\<close>

fun same_name :: "('b, 'f) auto_service list \<Rightarrow> error option" where
  "same_name (a # b # ss) =
     (if as_name a = as_name b then Some (ConfigError (duplicate_text (as_name a) (as_source a) (as_source b)))
      else same_name (b # ss))"
| "same_name ss = None"

definition auto_services :: "('b, 'f) auto_service list \<Rightarrow> ('b, 'f) auto_service list" where
  "auto_services linked = sort_key (\<lambda>s. (as_name s, as_source s)) linked"

definition registry_from_auto :: "('b, 'f) auto_service list \<Rightarrow> ('b, 'f) registry result" where
  "registry_from_auto linked =
     (let services = auto_services linked in
      case same_name services of
        Some err \<Rightarrow> Inl err
      | None \<Rightarrow> Inr (foldl (\<lambda>r s. as_register s r) registry_new services))"

section \<open>Lemmas\<close>

text \<open>Whether a name is taken twice depends only on names and sources, in order.\<close>

lemma same_name_keys:
  "map (\<lambda>s. (as_name s, as_source s)) ss = map (\<lambda>s. (as_name s, as_source s)) ts \<Longrightarrow> same_name ss = same_name ts"
proof (induction ss arbitrary: ts rule: same_name.induct)
  case (1 a b ss)
  then obtain a' b' ts' where "ts = a' # b' # ts'" by (auto simp: map_eq_Cons_conv)
  then show ?case using 1 by auto
qed (auto simp: map_eq_Cons_conv)

lemma sorted_same_name:
  "sorted (map (\<lambda>s. (as_name s, as_source s)) ss) \<Longrightarrow> same_name ss = None \<longleftrightarrow> distinct (map as_name ss)"
proof (induction ss rule: same_name.induct)
  case (1 a b ss)
  have "as_name a \<notin> as_name ` set ss" if "as_name a \<noteq> as_name b"
  proof
    assume "as_name a \<in> as_name ` set ss"
    then obtain s where s: "s \<in> set ss" "as_name s = as_name a" by auto
    then have "(as_name b, as_source b) \<le> (as_name s, as_source s)" "(as_name a, as_source a) \<le> (as_name b, as_source b)"
      using 1(2) by auto
    then show False using that s(2) by (auto simp: less_eq_prod_def)
  qed
  then show ?case using 1 by auto
qed auto

lemma auto_services_keys:
  assumes "mset xs = mset ys"
  shows "map (\<lambda>s. (as_name s, as_source s)) (auto_services xs) = map (\<lambda>s. (as_name s, as_source s)) (auto_services ys)"
    (is "map ?key _ = _")
proof -
  have "map ?key (auto_services zs) = sort (map ?key ys)" if "mset zs = mset ys" for zs
    using that by (intro properties_for_sort [symmetric]) (simp_all add: auto_services_def mset_map)
  then show ?thesis using assms by simp
qed

lemma auto_services_unique:
  assumes "mset xs = mset ys" and "same_name (auto_services xs) = None"
  shows "auto_services xs = auto_services ys"
proof -
  have "distinct (map as_name (auto_services xs))"
    using assms(2) sorted_same_name [of "auto_services xs"] by (simp add: auto_services_def)
  then have "inj_on as_name (set xs)" by (simp add: auto_services_def distinct_map)
  then have "inj_on (\<lambda>s. (as_name s, as_source s)) (set xs)" by (auto simp: inj_on_def)
  moreover have "mset xs = mset (auto_services ys)" using assms(1) by (simp add: auto_services_def)
  ultimately show ?thesis
    unfolding auto_services_def [of xs] by (intro sort_key_inj_key_eq) (simp_all add: auto_services_def)
qed

section \<open>Properties\<close>

text \<open>
  C38: The order in which the linker has collected the service types does not matter: the automatic registration
  of the same descriptions in any order gives the same table or the same error, and it is an error exactly when
  two descriptions carry the same name.
\<close>

theorem registration_order_irrelevant:
  assumes "mset xs = mset ys"
  shows "registry_from_auto xs = registry_from_auto ys \<and>
    ((\<exists>r. registry_from_auto xs = Inr r) \<longleftrightarrow> distinct (map as_name xs))"
proof
  have k: "same_name (auto_services xs) = same_name (auto_services ys)"
    using same_name_keys [OF auto_services_keys [OF assms]] .
  then show "registry_from_auto xs = registry_from_auto ys"
    using auto_services_unique [OF assms] by (simp add: registry_from_auto_def Let_def split: option.split)
  have "mset (map as_name (auto_services xs)) = mset (map as_name xs)" by (simp add: auto_services_def)
  then have "distinct (map as_name (auto_services xs)) = distinct (map as_name xs)" by (metis mset_eq_imp_distinct_iff)
  then show "(\<exists>r. registry_from_auto xs = Inr r) \<longleftrightarrow> distinct (map as_name xs)"
    using sorted_same_name [of "auto_services xs"]
    by (auto simp: registry_from_auto_def Let_def auto_services_def split: option.split)
qed

theorem registration_order_irrelevant_witness:
  "let code = \<lparr>code_exclusive = False, code_init = (\<lambda>_ _. ()), code_dispatch = (\<lambda>_ (_ :: unit message). ())\<rparr>;
       service = (\<lambda>name. \<lparr>as_name = name, as_exclusive = False, as_source = ''lib.rs'', as_register = registry_register name code\<rparr>)
   in registry_from_auto [service ''echo'', service ''gate''] = registry_from_auto [service ''gate'', service ''echo''] \<and>
      (\<exists>r. registry_from_auto [service ''echo'', service ''gate''] = Inr r)"
proof -
  let ?code = "\<lparr>code_exclusive = False, code_init = (\<lambda>_ _. ()), code_dispatch = (\<lambda>_ (_ :: unit message). ())\<rparr>"
  let ?service = "\<lambda>name. \<lparr>as_name = name, as_exclusive = False, as_source = ''lib.rs'', as_register = registry_register name ?code\<rparr>"
  have m: "mset [?service ''echo'', ?service ''gate''] = mset [?service ''gate'', ?service ''echo'']" by simp
  have "distinct (map as_name [?service ''echo'', ?service ''gate''])" by simp
  then show ?thesis using registration_order_irrelevant [OF m] unfolding Let_def by blast
qed

end
