(* ===== verification/Monitor.thy ===== *)
theory Monitor
  imports Prelude
begin

text \<open>
  \<^verbatim>\<open>rskynet-core/src/monitor.rs\<close>: the record of progress that a worker keeps for the monitoring thread. The
  operations come first as functions; then the atomic accesses of one worker and of the monitoring thread are the
  steps of a transition system, in sequentially consistent order, with a history of the polls as ghost state.
\<close>

section \<open>The operations\<close>

record monitor =
  mo_version :: u64
  mo_checked :: u64
  mo_route_source :: u64
  mo_route_destination :: u64
  mo_route_seq :: u64

definition new_monitor :: monitor where
  "new_monitor = \<lparr>mo_version = 0, mo_checked = 0, mo_route_source = 0, mo_route_destination = 0, mo_route_seq = 0\<rparr>"

definition bump_seq :: "monitor \<Rightarrow> monitor" where
  "bump_seq m = m\<lparr>mo_route_seq := mo_route_seq m + 1\<rparr>"

definition bump_version :: "monitor \<Rightarrow> monitor" where
  "bump_version m = m\<lparr>mo_version := mo_version m + 1\<rparr>"

definition begin_poll :: "u64 \<Rightarrow> u64 \<Rightarrow> monitor \<Rightarrow> monitor" where
  "begin_poll source destination m =
     (let m = bump_version m;
          m = bump_seq m;
          m = m\<lparr>mo_route_source := source\<rparr>;
          m = m\<lparr>mo_route_destination := destination\<rparr>
      in bump_seq m)"

definition finish_poll :: "monitor \<Rightarrow> monitor" where
  "finish_poll m =
     (let m = bump_seq m;
          m = m\<lparr>mo_route_source := 0\<rparr>;
          m = m\<lparr>mo_route_destination := 0\<rparr>;
          m = bump_seq m
      in bump_version m)"

text \<open>\<^verbatim>\<open>read_route\<close> with nobody writing meanwhile: both readings of the sequence number
  agree, and the loop goes on only while it is odd.\<close>

partial_function (option) read_route :: "monitor \<Rightarrow> (u64 \<times> u64) option" where
  "read_route m =
     (if odd (mo_route_seq m) then read_route m else Some (mo_route_source m, mo_route_destination m))"

text \<open>\<^verbatim>\<open>check\<close> with nobody writing meanwhile: both readings of the version agree.\<close>

definition check :: "monitor \<Rightarrow> ((u64 \<times> u64 \<times> u64) option \<times> monitor) option" where
  "check m =
     Option.bind (read_route m) (\<lambda>(source, destination).
       let after = mo_version m in
       if after \<noteq> mo_checked m then Some (None, m\<lparr>mo_checked := after\<rparr>)
       else Some (if destination \<noteq> 0 then Some (source, destination, after) else None, m))"

text \<open>The thread-local binding: the monitor of the current worker, or none.\<close>

definition install :: "monitor \<Rightarrow> monitor option \<Rightarrow> monitor option outcome" where
  "install m current = (if current \<noteq> None then Inl (Panic ''one monitor per worker'') else Inr (Some m))"

definition running_enter :: "u64 \<Rightarrow> u64 \<Rightarrow> monitor option \<Rightarrow> monitor option" where
  "running_enter source destination current = map_option (begin_poll source destination) current"

definition running_drop :: "monitor option \<Rightarrow> monitor option" where
  "running_drop current = map_option finish_poll current"

section \<open>Atomic steps\<close>

text \<open>
  The worker: the points of \<^verbatim>\<open>begin\<close> (the number of accesses done), the poll itself, the points of
  \<^verbatim>\<open>finish\<close>.
\<close>

datatype writer = Idle | Begun1 | Begun2 | Begun3 | Begun4 | Polling | Fin1 | Fin2 | Fin3 | Fin4

text \<open>The monitoring thread: the points of \<^verbatim>\<open>check\<close> with what it has read so far.\<close>

datatype reader =
    Away
  | AtSeq u64
  | AtSource u64 u64
  | AtDestination u64 u64 u64
  | AtSeqAgain u64 u64 u64 u64
  | AtVersion u64 u64 u64
  | AtChecked u64 u64 u64
  | AtStore u64

text \<open>
  The ghost part: the routes of all polls so far, how many of them have returned, both numbers as the checks saw
  them (the polls that had returned when the current check began, the polls that had begun when the last check
  ended), and the reports made, each with these two numbers.
\<close>

record mosys =
  mm :: monitor
  mw :: writer
  mr :: reader
  polls :: "(u64 \<times> u64) list"
  returned :: nat
  seen_returned :: nat
  seen_begun :: nat
  reports :: "((u64 \<times> u64 \<times> u64) \<times> nat \<times> nat) list"

definition init_mosys :: mosys where
  "init_mosys =
     \<lparr>mm = new_monitor, mw = Idle, mr = Away, polls = [], returned = 0, seen_returned = 0, seen_begun = 0, reports = []\<rparr>"

inductive writer_step :: "mosys \<Rightarrow> mosys \<Rightarrow> bool" where
  b1: "mw s = Idle \<Longrightarrow> writer_step s (s\<lparr>mm := bump_version (mm s), mw := Begun1, polls := polls s @ [route]\<rparr>)"
| b2: "mw s = Begun1 \<Longrightarrow> writer_step s (s\<lparr>mm := bump_seq (mm s), mw := Begun2\<rparr>)"
| b3: "mw s = Begun2 \<Longrightarrow> writer_step s (s\<lparr>mm := (mm s)\<lparr>mo_route_source := fst (last (polls s))\<rparr>, mw := Begun3\<rparr>)"
| b4: "mw s = Begun3 \<Longrightarrow> writer_step s (s\<lparr>mm := (mm s)\<lparr>mo_route_destination := snd (last (polls s))\<rparr>, mw := Begun4\<rparr>)"
| b5: "mw s = Begun4 \<Longrightarrow> writer_step s (s\<lparr>mm := bump_seq (mm s), mw := Polling\<rparr>)"
| f1: "mw s = Polling \<Longrightarrow> writer_step s (s\<lparr>mm := bump_seq (mm s), mw := Fin1, returned := length (polls s)\<rparr>)"
| f2: "mw s = Fin1 \<Longrightarrow> writer_step s (s\<lparr>mm := (mm s)\<lparr>mo_route_source := 0\<rparr>, mw := Fin2\<rparr>)"
| f3: "mw s = Fin2 \<Longrightarrow> writer_step s (s\<lparr>mm := (mm s)\<lparr>mo_route_destination := 0\<rparr>, mw := Fin3\<rparr>)"
| f4: "mw s = Fin3 \<Longrightarrow> writer_step s (s\<lparr>mm := bump_seq (mm s), mw := Fin4\<rparr>)"
| f5: "mw s = Fin4 \<Longrightarrow> writer_step s (s\<lparr>mm := bump_version (mm s), mw := Idle\<rparr>)"

definition leave :: "((u64 \<times> u64 \<times> u64) option) \<Rightarrow> mosys \<Rightarrow> mosys" where
  "leave res s =
     s\<lparr>mr := Away, seen_begun := length (polls s),
       reports := reports s @ (case res of Some rep \<Rightarrow> [(rep, seen_returned s, seen_begun s)] | None \<Rightarrow> [])\<rparr>"

inductive reader_step :: "mosys \<Rightarrow> mosys \<Rightarrow> bool" where
  start: "mr s = Away \<Longrightarrow> reader_step s (s\<lparr>seen_returned := returned s, mr := AtSeq (mo_version (mm s))\<rparr>)"
| spin: "\<lbrakk>mr s = AtSeq v; odd (mo_route_seq (mm s))\<rbrakk> \<Longrightarrow> reader_step s s"
| seq: "\<lbrakk>mr s = AtSeq v; even (mo_route_seq (mm s))\<rbrakk> \<Longrightarrow> reader_step s (s\<lparr>mr := AtSource v (mo_route_seq (mm s))\<rparr>)"
| source: "mr s = AtSource v q \<Longrightarrow> reader_step s (s\<lparr>mr := AtDestination v q (mo_route_source (mm s))\<rparr>)"
| destination: "mr s = AtDestination v q x \<Longrightarrow> reader_step s (s\<lparr>mr := AtSeqAgain v q x (mo_route_destination (mm s))\<rparr>)"
| same: "\<lbrakk>mr s = AtSeqAgain v q x y; mo_route_seq (mm s) = q\<rbrakk> \<Longrightarrow> reader_step s (s\<lparr>mr := AtVersion v x y\<rparr>)"
| torn: "\<lbrakk>mr s = AtSeqAgain v q x y; mo_route_seq (mm s) \<noteq> q\<rbrakk> \<Longrightarrow> reader_step s (s\<lparr>mr := AtSeq v\<rparr>)"
| moved: "\<lbrakk>mr s = AtVersion v x y; mo_version (mm s) \<noteq> v\<rbrakk> \<Longrightarrow> reader_step s (s\<lparr>mr := AtStore (mo_version (mm s))\<rparr>)"
| stayed: "\<lbrakk>mr s = AtVersion v x y; mo_version (mm s) = v\<rbrakk> \<Longrightarrow> reader_step s (s\<lparr>mr := AtChecked v x y\<rparr>)"
| fresh: "\<lbrakk>mr s = AtChecked v x y; mo_checked (mm s) \<noteq> v\<rbrakk> \<Longrightarrow> reader_step s (s\<lparr>mr := AtStore v\<rparr>)"
| stuck: "\<lbrakk>mr s = AtChecked v x y; mo_checked (mm s) = v\<rbrakk> \<Longrightarrow>
    reader_step s (leave (if y \<noteq> 0 then Some (x, y, v) else None) s)"
| store: "mr s = AtStore v \<Longrightarrow> reader_step s (leave None (s\<lparr>mm := (mm s)\<lparr>mo_checked := v\<rparr>\<rparr>))"

inductive mosys_reach :: "mosys \<Rightarrow> bool" where
  init: "mosys_reach init_mosys"
| writer: "\<lbrakk>mosys_reach s; writer_step s s'\<rbrakk> \<Longrightarrow> mosys_reach s'"
| reader: "\<lbrakk>mosys_reach s; reader_step s s'\<rbrakk> \<Longrightarrow> mosys_reach s'"

section \<open>Invariants\<close>

text \<open>What the counters would be without wrap-around.\<close>

definition true_version :: "mosys \<Rightarrow> nat" where
  "true_version s = (if mw s = Idle then 2 * length (polls s) else 2 * length (polls s) - 1)"

fun seq_offset :: "writer \<Rightarrow> nat" where
  "seq_offset Idle = 4"
| "seq_offset Begun1 = 0"
| "seq_offset Begun2 = 1"
| "seq_offset Begun3 = 1"
| "seq_offset Begun4 = 1"
| "seq_offset Polling = 2"
| "seq_offset Fin1 = 3"
| "seq_offset Fin2 = 3"
| "seq_offset Fin3 = 3"
| "seq_offset Fin4 = 4"

definition true_seq :: "mosys \<Rightarrow> nat" where
  "true_seq s = 4 * length (polls s) + seq_offset (mw s) - 4"

definition writer_inv :: "mosys \<Rightarrow> bool" where
  "writer_inv s =
     ((mw s \<noteq> Idle \<longrightarrow> polls s \<noteq> []) \<and>
      mo_version (mm s) = of_nat (true_version s) \<and> mo_route_seq (mm s) = of_nat (true_seq s) \<and>
      mo_route_source (mm s) = (if mw s \<in> {Begun3, Begun4, Polling, Fin1} then fst (last (polls s)) else 0) \<and>
      mo_route_destination (mm s) = (if mw s \<in> {Begun4, Polling, Fin1, Fin2} then snd (last (polls s)) else 0) \<and>
      returned s = (if mw s \<in> {Begun1, Begun2, Begun3, Begun4, Polling} then length (polls s) - 1 else length (polls s)))"

text \<open>A poll that a check has found, and a report that was right.\<close>

definition found :: "u64 \<Rightarrow> u64 \<Rightarrow> nat \<Rightarrow> mosys \<Rightarrow> bool" where
  "found x y k s = (k < length (polls s) \<and> polls s ! k = (x, y) \<and> seen_returned s \<le> k)"

definition sees :: "u64 \<Rightarrow> nat \<Rightarrow> mosys \<Rightarrow> bool" where
  "sees v i s = (v = of_nat i \<and> i \<le> true_version s)"

definition snapshot_at :: "u64 \<Rightarrow> nat \<Rightarrow> mosys \<Rightarrow> bool" where
  "snapshot_at q j s = (q = of_nat j \<and> even j \<and> j \<le> true_seq s)"

fun reader_ok :: "reader \<Rightarrow> mosys \<Rightarrow> bool" where
  "reader_ok Away s = True"
| "reader_ok (AtSeq v) s = (\<exists>i. sees v i s)"
| "reader_ok (AtSource v q) s = ((\<exists>i. sees v i s) \<and> (\<exists>j. snapshot_at q j s))"
| "reader_ok (AtDestination v q x) s =
     ((\<exists>i. sees v i s) \<and> (\<exists>j. snapshot_at q j s \<and> (j = true_seq s \<longrightarrow> x = mo_route_source (mm s))))"
| "reader_ok (AtSeqAgain v q x y) s =
     ((\<exists>i. sees v i s) \<and>
      (\<exists>j. snapshot_at q j s \<and> (j = true_seq s \<longrightarrow> x = mo_route_source (mm s) \<and> y = mo_route_destination (mm s))))"
| "reader_ok (AtVersion v x y) s =
     (\<exists>i. sees v i s \<and> (y \<noteq> 0 \<longrightarrow> (\<exists>k. found x y k s \<and> i \<le> 2 * k + 1 \<and> 2 * k + 1 \<le> true_version s)))"
| "reader_ok (AtChecked v x y) s =
     ((\<exists>i. sees v i s) \<and> (y \<noteq> 0 \<longrightarrow> (\<exists>k. found x y k s \<and> v = of_nat (2 * k + 1))))"
| "reader_ok (AtStore v) s = (\<exists>i. sees v i s)"

definition reported :: "(u64 \<times> u64) list \<Rightarrow> (u64 \<times> u64 \<times> u64) \<times> nat \<times> nat \<Rightarrow> bool" where
  "reported ps rep =
     (case rep of ((x, y, v), ret, beg) \<Rightarrow>
        \<exists>k < length ps. ps ! k = (x, y) \<and> v = of_nat (2 * k + 1) \<and> ret \<le> k \<and> k < beg)"

definition reader_inv :: "mosys \<Rightarrow> bool" where
  "reader_inv s =
     (reader_ok (mr s) s \<and> seen_returned s \<le> returned s \<and>
      (\<exists>c \<le> 2 * seen_begun s. mo_checked (mm s) = of_nat c) \<and> seen_begun s \<le> length (polls s) \<and>
      list_all (reported (polls s)) (reports s))"

lemma writer_step_inv: "writer_step s s' \<Longrightarrow> writer_inv s \<Longrightarrow> writer_inv s'"
proof (induction rule: writer_step.induct)
  case (b1 s route)
  then show ?case
    by (simp add: writer_inv_def true_version_def true_seq_def bump_version_def)
qed (auto simp: writer_inv_def true_version_def true_seq_def bump_version_def bump_seq_def neq_Nil_conv algebra_simps)

text \<open>What a step of the worker leaves as it was, and which way the rest goes.\<close>

lemma writer_step_frame:
  assumes "writer_step s s'" and "writer_inv s"
  shows "true_version s \<le> true_version s'" and "true_seq s \<le> true_seq s'" and "\<exists>ps. polls s' = polls s @ ps"
    and "returned s \<le> returned s'" and "mr s' = mr s" and "seen_returned s' = seen_returned s"
    and "seen_begun s' = seen_begun s" and "reports s' = reports s" and "mo_checked (mm s') = mo_checked (mm s)"
    and "even (true_seq s') \<Longrightarrow> true_seq s' = true_seq s \<Longrightarrow>
      mo_route_source (mm s') = mo_route_source (mm s) \<and> mo_route_destination (mm s') = mo_route_destination (mm s)"
  using assms
  by (induction rule: writer_step.induct)
    (auto simp: writer_inv_def true_version_def true_seq_def bump_version_def bump_seq_def neq_Nil_conv)

text \<open>A snapshot that is still current after a step was current before it, with the same route.\<close>

lemma still_current:
  assumes "writer_step s s'" "writer_inv s" "snapshot_at q j s" "j = true_seq s'"
  shows "j = true_seq s \<and> mo_route_source (mm s') = mo_route_source (mm s) \<and> mo_route_destination (mm s') = mo_route_destination (mm s)"
proof -
  have "j = true_seq s" using writer_step_frame(2) [OF assms(1,2)] assms(3,4) by (auto simp: snapshot_at_def)
  moreover have "even (true_seq s')" using assms(3,4) by (auto simp: snapshot_at_def)
  ultimately show ?thesis using writer_step_frame(10) [OF assms(1,2)] assms(4) by simp
qed

lemma sees_mono: "sees v i s \<Longrightarrow> true_version s \<le> true_version s' \<Longrightarrow> sees v i s'"
  by (auto simp: sees_def)

lemma snapshot_mono: "snapshot_at q j s \<Longrightarrow> true_seq s \<le> true_seq s' \<Longrightarrow> snapshot_at q j s'"
  by (auto simp: snapshot_at_def)

lemma found_mono: "found x y k s \<Longrightarrow> polls s' = polls s @ ps \<Longrightarrow> seen_returned s' = seen_returned s \<Longrightarrow> found x y k s'"
  by (auto simp: found_def nth_append)

lemma reported_mono: "reported ps rep \<Longrightarrow> reported (ps @ qs) rep"
  by (auto simp: reported_def nth_append split: prod.splits)

lemma writer_step_reader:
  assumes w: "writer_step s s'" "writer_inv s" and r: "reader_inv s"
  shows "reader_inv s'"
proof -
  note f = writer_step_frame [OF w]
  obtain ps where ps: "polls s' = polls s @ ps" using f(3) by blast
  have "reader_ok (mr s) s \<Longrightarrow> reader_ok (mr s) s'"
  proof (cases "mr s")
    case (AtDestination v q x)
    assume "reader_ok (mr s) s"
    then obtain i j where "sees v i s" "snapshot_at q j s" "j = true_seq s \<longrightarrow> x = mo_route_source (mm s)"
      using AtDestination by auto
    then have "sees v i s'" "snapshot_at q j s'" "j = true_seq s' \<longrightarrow> x = mo_route_source (mm s')"
      using sees_mono [OF _ f(1)] snapshot_mono [OF _ f(2)] still_current [OF w, of q j] by metis+
    then show ?thesis using AtDestination by auto
  next
    case (AtSeqAgain v q x y)
    assume "reader_ok (mr s) s"
    then obtain i j where "sees v i s" "snapshot_at q j s"
      "j = true_seq s \<longrightarrow> x = mo_route_source (mm s) \<and> y = mo_route_destination (mm s)"
      using AtSeqAgain by auto
    then have "sees v i s'" "snapshot_at q j s'"
      "j = true_seq s' \<longrightarrow> x = mo_route_source (mm s') \<and> y = mo_route_destination (mm s')"
      using sees_mono [OF _ f(1)] snapshot_mono [OF _ f(2)] still_current [OF w, of q j] by metis+
    then show ?thesis using AtSeqAgain by auto
  next
    case (AtVersion v x y)
    assume "reader_ok (mr s) s"
    then show ?thesis using AtVersion f(1) sees_mono found_mono [OF _ ps f(6)] by fastforce
  next
    case (AtChecked v x y)
    assume "reader_ok (mr s) s"
    then show ?thesis using AtChecked f(1) sees_mono found_mono [OF _ ps f(6)] by fastforce
  qed (auto dest: sees_mono [OF _ f(1)] snapshot_mono [OF _ f(2)])
  then show ?thesis
    using r f ps reported_mono by (auto simp: reader_inv_def list_all_iff)
qed

lemma of_nat_u64_eq: "of_nat a = (of_nat b :: u64) \<Longrightarrow> a < 2 ^ 64 \<Longrightarrow> b < 2 ^ 64 \<Longrightarrow> a = b"
  by (drule arg_cong [of _ _ unat]) (simp add: unat_of_nat_less)

text \<open>The poll behind a complete route: the number of the sequence has not moved, so nobody has written.\<close>

lemma same_found:
  assumes w: "writer_inv s" and n: "length (polls s) < 2 ^ 62" and r: "seen_returned s \<le> returned s"
    and q: "snapshot_at (mo_route_seq (mm s)) j s"
    and xy: "j = true_seq s \<longrightarrow> x = mo_route_source (mm s) \<and> y = mo_route_destination (mm s)" and y: "y \<noteq> 0"
  shows "\<exists>k. found x y k s \<and> 2 * k + 1 = true_version s"
proof -
  have "true_seq s < 2 ^ 64" using n by (cases "mw s") (auto simp: true_seq_def)
  then have j: "j = true_seq s" using q w of_nat_u64_eq [of j "true_seq s"] by (auto simp: snapshot_at_def writer_inv_def)
  then have e: "even (true_seq s)" using q by (auto simp: snapshot_at_def)
  have "y = mo_route_destination (mm s)" using xy j by simp
  then have "mw s \<in> {Begun4, Polling, Fin1, Fin2}" using y w by (auto simp: writer_inv_def split: if_splits)
  moreover have "polls s \<noteq> []" using w calculation by (auto simp: writer_inv_def)
  ultimately have p: "mw s = Polling" "polls s \<noteq> []" using e by (auto simp: true_seq_def neq_Nil_conv)
  then have "found x y (length (polls s) - 1) s"
    using w xy j r by (auto simp: found_def writer_inv_def last_conv_nth)
  moreover have "2 * (length (polls s) - 1) + 1 = true_version s" using p by (auto simp: true_version_def neq_Nil_conv)
  ultimately show ?thesis by blast
qed

lemma reader_frame [simp]:
  "true_version (s\<lparr>mr := r\<rparr>) = true_version s" "true_seq (s\<lparr>mr := r\<rparr>) = true_seq s" "writer_inv (s\<lparr>mr := r\<rparr>) = writer_inv s"
  "found x y k (s\<lparr>mr := r\<rparr>) = found x y k s" "sees v i (s\<lparr>mr := r\<rparr>) = sees v i s"
  "snapshot_at q j (s\<lparr>mr := r\<rparr>) = snapshot_at q j s"
  by (simp_all add: true_version_def true_seq_def writer_inv_def found_def sees_def snapshot_at_def)

lemma leave_frame:
  "writer_inv (leave res s) = writer_inv s" "mr (leave res s) = Away" "polls (leave res s) = polls s" "returned (leave res s) = returned s"
  "seen_begun (leave res s) = length (polls s)" "seen_returned (leave res s) = seen_returned s" "mm (leave res s) = mm s"
  by (simp_all add: leave_def writer_inv_def true_version_def true_seq_def)

lemma leave_mr: "leave res (s\<lparr>mr := r\<rparr>) = leave res s" "leave res (s\<lparr>mr := r, mm := m\<rparr>) = leave res (s\<lparr>mm := m\<rparr>)"
  by (cases res; simp add: leave_def)+

lemma current_seen: "writer_inv s \<Longrightarrow> sees (mo_version (mm s)) (true_version s) s"
  by (simp add: sees_def writer_inv_def)

lemma version_bound: "length (polls s) < 2 ^ 62 \<Longrightarrow> true_version s < 2 ^ 64"
  by (auto simp: true_version_def)

lemma report_right:
  assumes r: "reader_inv s" "mr s = AtChecked v x y" and n: "length (polls s) < 2 ^ 62" and c: "mo_checked (mm s) = v" and y: "y \<noteq> 0"
  shows "reported (polls s) ((x, y, v), seen_returned s, seen_begun s)"
proof -
  obtain k where k: "found x y k s" "v = of_nat (2 * k + 1)" using r y by (auto simp: reader_inv_def)
  obtain d where d: "d \<le> 2 * seen_begun s" "v = of_nat d" using r(1) c by (auto simp: reader_inv_def)
  have "seen_begun s \<le> length (polls s)" using r(1) by (simp add: reader_inv_def)
  then have "d = 2 * k + 1" using k d n by (intro of_nat_u64_eq) (auto simp: found_def)
  then have "k < seen_begun s" using d by simp
  then show ?thesis using k by (auto simp: reported_def found_def)
qed

lemma reader_step_inv:
  assumes "reader_step s s'" and "writer_inv s" and "reader_inv s" and "length (polls s) < 2 ^ 62"
  shows "reader_inv s'"
  using assms
proof (induction rule: reader_step.induct)
  case (start s)
  then have "reader_ok (AtSeq (mo_version (mm s))) (s\<lparr>seen_returned := returned s, mr := AtSeq (mo_version (mm s))\<rparr>)"
    using current_seen [of s] by (auto simp: sees_def true_version_def simp del: of_nat_mult)
  then show ?case using start by (auto simp: reader_inv_def)
next
  case (seq s v)
  then have "snapshot_at (mo_route_seq (mm s)) (true_seq s) s"
    by (auto simp: snapshot_at_def writer_inv_def)
  then show ?case using seq by (auto simp: reader_inv_def)
next
  case (same s v q x y)
  then obtain i where i: "sees v i s" by (auto simp: reader_inv_def)
  have "\<exists>k. found x y k s \<and> 2 * k + 1 = true_version s" if "y \<noteq> 0"
    using same_found [of s] same that by (auto simp: reader_inv_def)
  moreover have "i \<le> true_version s" using i by (simp add: sees_def)
  ultimately have "reader_ok (AtVersion v x y) s" using i by (metis le_refl reader_ok.simps(6))
  then show ?case using same by (auto simp: reader_inv_def)
next
  case (moved s v x y)
  then show ?case using current_seen [of s] by (auto simp: reader_inv_def)
next
  case (stayed s v x y)
  then obtain i where i: "sees v i s" "y \<noteq> 0 \<longrightarrow> (\<exists>k. found x y k s \<and> i \<le> 2 * k + 1 \<and> 2 * k + 1 \<le> true_version s)"
    by (auto simp: reader_inv_def)
  have "i = true_version s"
    using i(1) stayed current_seen [of s] version_bound [of s] by (intro of_nat_u64_eq) (auto simp: sees_def)
  then have "reader_ok (AtChecked v x y) s" using i by (auto simp: sees_def)
  then show ?case using stayed by (auto simp: reader_inv_def)
next
  case (stuck s v x y)
  then have c: "\<exists>c \<le> 2 * length (polls s). mo_checked (mm s) = of_nat c"
    by (meson reader_inv_def mult_le_mono2 order_trans)
  have "list_all (reported (polls s)) (reports s @ (if y \<noteq> 0 then [((x, y, v), seen_returned s, seen_begun s)] else []))"
    using stuck report_right [of s v x y] by (auto simp: reader_inv_def)
  then have "list_all (reported (polls s)) (reports (leave (if y \<noteq> 0 then Some (x, y, v) else None) s))"
    by (simp add: leave_def split: if_splits)
  then show ?case using stuck c by (simp add: reader_inv_def leave_frame)
next
  case (store s v)
  then obtain i where "sees v i s" by (auto simp: reader_inv_def)
  then have "v = of_nat i" "i \<le> 2 * length (polls s)" by (auto simp: sees_def true_version_def split: if_splits)
  then show ?case using store by (auto simp: reader_inv_def leave_frame) (auto simp: leave_def)
qed (auto simp: reader_inv_def)

lemma reader_step_writer: "reader_step s s' \<Longrightarrow> writer_inv s \<Longrightarrow> writer_inv s' \<and> polls s' = polls s"
  by (induction rule: reader_step.induct)
    (auto simp: leave_frame, auto simp: writer_inv_def true_version_def true_seq_def)

lemma mosys_reach_inv: "mosys_reach s \<Longrightarrow> writer_inv s \<and> (length (polls s) < 2 ^ 62 \<longrightarrow> reader_inv s)"
proof (induction rule: mosys_reach.induct)
  case init
  have "mo_checked (mm init_mosys) = of_nat 0" by (simp add: init_mosys_def new_monitor_def)
  then show ?case
    by (auto simp: writer_inv_def reader_inv_def true_version_def true_seq_def init_mosys_def new_monitor_def)
next
  case (writer s s')
  have "length (polls s) \<le> length (polls s')" using writer_step_frame(3) [OF writer(2)] writer(3) by auto
  then show ?case using writer_step_inv [OF writer(2)] writer_step_reader [OF writer(2)] writer(3) by (meson order_le_less_trans)
next
  case (reader s s')
  then show ?case using reader_step_inv [OF reader(2)] reader_step_writer [OF reader(2)] by simp
qed

lemma read_route_even: "even (mo_route_seq m) \<Longrightarrow> read_route m = Some (mo_route_source m, mo_route_destination m)"
  by (simp add: read_route.simps)

text \<open>A check that nobody disturbs takes the atomic steps one after the other.\<close>

lemma check_steps:
  assumes "mosys_reach s" and "mr s = Away" and e: "even (mo_route_seq (mm s))" and "check (mm s) = Some (res, m)"
  shows "mosys_reach (leave res (s\<lparr>seen_returned := returned s, mm := m\<rparr>))"
proof -
  let ?v = "mo_version (mm s)" and ?q = "mo_route_seq (mm s)" and ?x = "mo_route_source (mm s)" and ?y = "mo_route_destination (mm s)"
  let ?s = "s\<lparr>seen_returned := returned s\<rparr>"
  have 1: "mosys_reach (?s\<lparr>mr := AtSeq ?v\<rparr>)" using mosys_reach.reader [OF assms(1) reader_step.start [OF assms(2)]] by simp
  have 2: "mosys_reach (?s\<lparr>mr := AtSource ?v ?q\<rparr>)" using mosys_reach.reader [OF 1 reader_step.seq] e by simp
  have 3: "mosys_reach (?s\<lparr>mr := AtDestination ?v ?q ?x\<rparr>)" using mosys_reach.reader [OF 2 reader_step.source] by simp
  have 4: "mosys_reach (?s\<lparr>mr := AtSeqAgain ?v ?q ?x ?y\<rparr>)" using mosys_reach.reader [OF 3 reader_step.destination] by simp
  have 5: "mosys_reach (?s\<lparr>mr := AtVersion ?v ?x ?y\<rparr>)" using mosys_reach.reader [OF 4 reader_step.same] by simp
  have 6: "mosys_reach (?s\<lparr>mr := AtChecked ?v ?x ?y\<rparr>)" using mosys_reach.reader [OF 5 reader_step.stayed] by simp
  show ?thesis
  proof (cases "mo_checked (mm s) = ?v")
    case True
    have "mosys_reach (leave (if ?y \<noteq> 0 then Some (?x, ?y, ?v) else None) ?s)"
      using mosys_reach.reader [OF 6 reader_step.stuck [of _ ?v ?x ?y]] True by (simp add: leave_mr)
    moreover have "?s\<lparr>mm := mm s\<rparr> = ?s" by simp
    ultimately show ?thesis using assms(4) True by (auto simp: check_def read_route_even [OF e] Let_def)
  next
    case False
    have 7: "mosys_reach (?s\<lparr>mr := AtStore ?v\<rparr>)" using mosys_reach.reader [OF 6 reader_step.fresh] False by simp
    have "mosys_reach (leave None (?s\<lparr>mm := (mm s)\<lparr>mo_checked := ?v\<rparr>\<rparr>))"
      using mosys_reach.reader [OF 7 reader_step.store [of _ ?v]] by (simp add: leave_mr)
    then show ?thesis using assms(4) False by (auto simp: check_def read_route_even [OF e] Let_def)
  qed
qed

text \<open>The worker in its first poll.\<close>

definition first_poll :: "u64 \<Rightarrow> u64 \<Rightarrow> mosys" where
  "first_poll x y = init_mosys\<lparr>mm := begin_poll x y new_monitor, mw := Polling, polls := [(x, y)]\<rparr>"

lemma first_poll_reach: "mosys_reach (first_poll x y)"
proof -
  let ?n = "\<lparr>mo_version = 1, mo_checked = 0, mo_route_source = 0, mo_route_destination = 0, mo_route_seq = 0\<rparr> :: monitor"
  let ?s = "init_mosys\<lparr>polls := [(x, y)]\<rparr>"
  have 1: "mosys_reach (?s\<lparr>mm := ?n, mw := Begun1\<rparr>)"
    using mosys_reach.writer [OF mosys_reach.init writer_step.b1 [of _ "(x, y)"]] by (simp add: init_mosys_def new_monitor_def bump_version_def)
  have 2: "mosys_reach (?s\<lparr>mm := ?n\<lparr>mo_route_seq := 1\<rparr>, mw := Begun2\<rparr>)"
    using mosys_reach.writer [OF 1 writer_step.b2] by (simp add: bump_seq_def)
  have 3: "mosys_reach (?s\<lparr>mm := ?n\<lparr>mo_route_seq := 1, mo_route_source := x\<rparr>, mw := Begun3\<rparr>)"
    using mosys_reach.writer [OF 2 writer_step.b3] by simp
  have 4: "mosys_reach (?s\<lparr>mm := ?n\<lparr>mo_route_seq := 1, mo_route_source := x, mo_route_destination := y\<rparr>, mw := Begun4\<rparr>)"
    using mosys_reach.writer [OF 3 writer_step.b4] by simp
  show ?thesis
    using mosys_reach.writer [OF 4 writer_step.b5]
    by (simp add: first_poll_def init_mosys_def begin_poll_def bump_seq_def bump_version_def new_monitor_def Let_def)
qed

section \<open>Properties\<close>

text \<open>
  C12: Whatever the interleaving of a worker with the monitoring thread, a report of a stuck poll names both ends of
  the route of one and the same poll, with that poll's version; the poll had begun before the previous check
  ended, and it had not returned when the check that reports it began. (The counters do not wrap: fewer than
  2^62 polls.)
\<close>

theorem reports_name_stuck_polls:
  assumes "mosys_reach s" and "length (polls s) < 2 ^ 62" and "((source, destination, version), ret, beg) \<in> set (reports s)"
  shows "\<exists>k < length (polls s). polls s ! k = (source, destination) \<and> version = of_nat (2 * k + 1) \<and> ret \<le> k \<and> k < beg"
proof -
  have "list_all (reported (polls s)) (reports s)" using mosys_reach_inv [OF assms(1)] assms(2) by (simp add: reader_inv_def)
  then show ?thesis using assms(3) unfolding list_all_iff reported_def by fastforce
qed

theorem reports_name_stuck_polls_witness:
  "\<exists>s. mosys_reach s \<and> ((0x12, 0x34, 1), 0, 1) \<in> set (reports s) \<and> polls s = [(0x12, 0x34)]"
proof -
  let ?s = "first_poll 0x12 0x34"
  let ?m = "(mm ?s)\<lparr>mo_checked := 1\<rparr>"
  let ?t = "leave None (?s\<lparr>seen_returned := returned ?s, mm := ?m\<rparr>)"
  let ?u = "leave (Some (0x12, 0x34, 1)) (?t\<lparr>seen_returned := returned ?t, mm := ?m\<rparr>)"
  have m: "mm ?s = \<lparr>mo_version = 1, mo_checked = 0, mo_route_source = 0x12, mo_route_destination = 0x34, mo_route_seq = 2\<rparr>"
    by (simp add: first_poll_def begin_poll_def bump_seq_def bump_version_def new_monitor_def Let_def)
  have "mosys_reach ?t"
    by (rule check_steps [OF first_poll_reach]) (simp_all add: m, simp_all add: first_poll_def init_mosys_def check_def read_route_even Let_def)
  then have "mosys_reach ?u"
    by (rule check_steps) (simp_all add: m leave_frame check_def read_route_even Let_def)
  moreover have r: "reports ?u = [((0x12, 0x34, 1), 0, 1)]" "polls ?u = [(0x12, 0x34)]"
    by (simp_all add: leave_def first_poll_def init_mosys_def)
  moreover have "\<exists>k < length (polls ?u). polls ?u ! k = (0x12, 0x34) \<and> 1 = (of_nat (2 * k + 1) :: u64) \<and> 0 \<le> k \<and> k < 1"
    using calculation by (intro reports_name_stuck_polls) simp_all
  ultimately show ?thesis by (intro exI [of _ ?u]) simp
qed

text \<open>
  C37: A poll that does not return is found: while the worker is inside a poll for a service, the monitoring
  thread's check always returns, and of two checks in a row the second reports exactly this poll.
\<close>

theorem stuck_poll_is_reported:
  assumes "mosys_reach s" and "mw s = Polling" and "last (polls s) = (source, destination)" and "destination \<noteq> 0"
  shows "\<exists>first m. check (mm s) = Some (first, m) \<and>
    check m = Some (Some (source, destination, mo_version (mm s)), m)"
proof -
  have w: "writer_inv s" "polls s \<noteq> []" using mosys_reach_inv [OF assms(1)] assms(2) by (auto simp: writer_inv_def)
  have "true_seq s = 2 * (2 * length (polls s) - 1)" using assms(2) w(2) by (auto simp: true_seq_def neq_Nil_conv)
  then have "even (mo_route_seq (mm s))" using w(1) by (simp add: writer_inv_def)
  then have r: "read_route (mm s) = Some (source, destination)"
    using read_route_even w(1) assms(2,3) by (auto simp: writer_inv_def)
  show ?thesis
  proof (cases "mo_version (mm s) = mo_checked (mm s)")
    case True
    then show ?thesis using r assms(4) by (simp add: check_def)
  next
    case False
    have "read_route ((mm s)\<lparr>mo_checked := mo_version (mm s)\<rparr>) = Some (source, destination)"
      using r \<open>even (mo_route_seq (mm s))\<close> by (simp add: read_route_even)
    then show ?thesis using r False assms(4) by (simp add: check_def Let_def)
  qed
qed

theorem stuck_poll_is_reported_witness:
  "\<exists>first m. check (mm (first_poll 5 7)) = Some (first, m) \<and> check m = Some (Some (5, 7, 1), m)"
proof -
  have "mo_version (mm (first_poll 5 7)) = 1"
    by (simp add: first_poll_def begin_poll_def bump_seq_def bump_version_def new_monitor_def Let_def)
  then show ?thesis
    using stuck_poll_is_reported [OF first_poll_reach, of 5 7 5 7] by (simp add: first_poll_def)
qed

end
