(* ===== verification/Start.thy ===== *)
theory Start
  imports Context Module Monitor
begin

text \<open>
  \<^verbatim>\<open>rskynet-core/src/start.rs\<close>: the configuration, the start of a node, its worker threads and its shutdown. The
  TOML library is a parameter: what its values are, and what it reads out of them. What the other threads do while
  the main thread waits for a service or joins a thread is a parameter as well.
\<close>

section \<open>Configuration\<close>

record 'v config =
  cf_thread :: nat
  cf_profile :: bool
  cf_sections :: "(string, 'v) btree"

text \<open>
  The TOML library: whether a value is a table, the empty table, and the optional key \<^verbatim>\<open>name\<close> of a value that is
  deserialised as a \<^verbatim>\<open>SystemService\<close>.
\<close>

record 'v toml =
  tm_is_table :: "'v \<Rightarrow> bool"
  tm_empty :: 'v
  tm_name :: "'v \<Rightarrow> string option result"

definition cfg_default :: "nat option \<Rightarrow> 'v config" where
  "cfg_default parallelism = \<lparr>cf_thread = (case parallelism of Some n \<Rightarrow> n | None \<Rightarrow> 4), cf_profile = True, cf_sections = []\<rparr>"

definition THREAD_TEXT :: string where
  "THREAD_TEXT = map (\<lambda>n. char_of (n :: nat)) [0x77, 0x6f, 0x72, 0x6b, 0x65, 0x72, 0x20, 0xe7, 0xba,
     0xbf, 0xe7, 0xa8, 0x8b, 0xe6, 0x95, 0xb0, 0xe5, 0xbf, 0x85, 0xe9, 0xa1, 0xbb, 0xe5, 0xa4, 0xa7, 0xe4,
     0xba, 0x8e, 0x20, 0x30]"

definition UNKNOWN_TEXT_1 :: string where
  "UNKNOWN_TEXT_1 = map (\<lambda>n. char_of (n :: nat)) [0xe4, 0xb8, 0x8d, 0xe8, 0xae, 0xa4, 0xe8, 0xaf,
     0x86, 0xe7, 0x9a, 0x84, 0xe9, 0x85, 0x8d, 0xe7, 0xbd, 0xae, 0xe9, 0xa1, 0xb9, 0x20, 0x60]"

definition UNKNOWN_TEXT_2 :: string where
  "UNKNOWN_TEXT_2 = map (\<lambda>n. char_of (n :: nat)) [0x60, 0xef, 0xbc, 0x9b, 0xe6, 0x89, 0xa9, 0xe5,
     0xb1, 0x95, 0xe7, 0x9a, 0x84, 0xe9, 0x85, 0x8d, 0xe7, 0xbd, 0xae, 0xe8, 0xa6, 0x81, 0xe5, 0x86, 0x99,
     0xe6, 0x88, 0x90, 0x20, 0x60, 0x5b]"

definition UNKNOWN_TEXT_3 :: string where
  "UNKNOWN_TEXT_3 = map (\<lambda>n. char_of (n :: nat)) [0x5d, 0x60, 0x20, 0xe8, 0xbf, 0x99, 0xe6, 0xa0,
     0xb7, 0xe7, 0x9a, 0x84, 0xe6, 0xae, 0xb5]"

fun first_scalar :: "'v toml \<Rightarrow> (string \<times> 'v) list \<Rightarrow> string option" where
  "first_scalar tm [] = None"
| "first_scalar tm ((key, v) # ss) = (if tm_is_table tm v then first_scalar tm ss else Some key)"

definition cfg_validate :: "'v toml \<Rightarrow> 'v config \<Rightarrow> unit result" where
  "cfg_validate tm cf =
     (if cf_thread cf = 0 then Inl (ConfigError THREAD_TEXT)
      else (case first_scalar tm (cf_sections cf) of
              Some key \<Rightarrow> Inl (ConfigError (UNKNOWN_TEXT_1 @ key @ UNKNOWN_TEXT_2 @ key @ UNKNOWN_TEXT_3))
            | None \<Rightarrow> Inr ()))"

definition from_toml_str :: "'v toml \<Rightarrow> (string \<Rightarrow> 'v config result) \<Rightarrow> string \<Rightarrow> 'v config result" where
  "from_toml_str tm parse content =
     (case parse content of
        Inl err \<Rightarrow> Inl err
      | Inr cf \<Rightarrow> (case cfg_validate tm cf of Inl err \<Rightarrow> Inl err | Inr _ \<Rightarrow> Inr cf))"

definition from_toml_file ::
  "'v toml \<Rightarrow> (string \<Rightarrow> 'v config result) \<Rightarrow> (string \<Rightarrow> string + string) \<Rightarrow> string \<Rightarrow> 'v config result" where
  "from_toml_file tm parse read path =
     (case read path of Inl reason \<Rightarrow> Inl (ConfigIo path reason) | Inr content \<Rightarrow> from_toml_str tm parse content)"

definition with_thread :: "nat \<Rightarrow> 'v config \<Rightarrow> 'v config" where
  "with_thread n cf = cf\<lparr>cf_thread := n\<rparr>"

definition cfg_section :: "('v \<Rightarrow> 't result) \<Rightarrow> string \<Rightarrow> 'v config \<Rightarrow> 't option result" where
  "cfg_section deserialize name cf =
     (case bt_get (cf_sections cf) name of
        None \<Rightarrow> Inr None
      | Some v \<Rightarrow> (case deserialize v of Inl err \<Rightarrow> Inl err | Inr t \<Rightarrow> Inr (Some t)))"

definition has_section :: "string \<Rightarrow> 'v config \<Rightarrow> bool" where
  "has_section name cf = (bt_get (cf_sections cf) name \<noteq> None)"

definition with_section :: "string \<Rightarrow> 'v \<Rightarrow> 'v config \<Rightarrow> 'v config" where
  "with_section name table cf = cf\<lparr>cf_sections := bt_insert name table (cf_sections cf)\<rparr>"

text \<open>\<^verbatim>\<open>section_mut\<close>: the table behind the reference, and the configuration that contains it.\<close>

definition section_mut :: "'v toml \<Rightarrow> string \<Rightarrow> 'v config \<Rightarrow> 'v \<times> 'v config" where
  "section_mut tm name cf =
     (case bt_get (cf_sections cf) name of
        Some v \<Rightarrow> if tm_is_table tm v then (v, cf) else (tm_empty tm, with_section name (tm_empty tm) cf)
      | None \<Rightarrow> (tm_empty tm, with_section name (tm_empty tm) cf))"

definition system_kind :: "'v toml \<Rightarrow> string \<Rightarrow> string \<Rightarrow> 'v config \<Rightarrow> string result" where
  "system_kind tm name fallback cf =
     (case cfg_section (tm_name tm) name cf of
        Inl err \<Rightarrow> Inl err
      | Inr (Some (Some kind)) \<Rightarrow> Inr kind
      | Inr _ \<Rightarrow> Inr fallback)"

section \<open>Start\<close>

record ('v, 'b, 'f, 't) builder =
  bd_config :: "'v config"
  bd_registry :: "('b, 'f) registry"
  bd_timer :: "'t option"
  bd_startup :: "(string \<times> string) list"

definition builder_new :: "'v config \<Rightarrow> ('v, 'b, 'f, 't) builder" where
  "builder_new cf = \<lparr>bd_config = cf, bd_registry = registry_new, bd_timer = None, bd_startup = []\<rparr>"

definition builder_registry :: "('b, 'f) registry \<Rightarrow> ('v, 'b, 'f, 't) builder \<Rightarrow> ('v, 'b, 'f, 't) builder" where
  "builder_registry r b = b\<lparr>bd_registry := r\<rparr>"

definition builder_timer :: "'t \<Rightarrow> ('v, 'b, 'f, 't) builder \<Rightarrow> ('v, 'b, 'f, 't) builder" where
  "builder_timer t b = b\<lparr>bd_timer := Some t\<rparr>"

definition builder_service :: "string \<Rightarrow> ('b, 'f) instance_code \<Rightarrow> ('v, 'b, 'f, 't) builder \<Rightarrow> ('v, 'b, 'f, 't) builder" where
  "builder_service kind factory b = b\<lparr>bd_registry := registry_register kind factory (bd_registry b)\<rparr>"

definition builder_exclusive :: "string \<Rightarrow> ('b, 'f) instance_code \<Rightarrow> ('v, 'b, 'f, 't) builder \<Rightarrow> ('v, 'b, 'f, 't) builder" where
  "builder_exclusive kind factory b = b\<lparr>bd_registry := registry_register_exclusive kind factory (bd_registry b)\<rparr>"

definition startup_service :: "string \<Rightarrow> string \<Rightarrow> ('v, 'b, 'f, 't) builder \<Rightarrow> ('v, 'b, 'f, 't) builder" where
  "startup_service kind args b = b\<lparr>bd_startup := bd_startup b @ [(kind, args)]\<rparr>"

definition builder_ready :: "'v toml \<Rightarrow> ('v, 'b, 'f, 't) builder \<Rightarrow> 't result" where
  "builder_ready tm b =
     (case cfg_validate tm (bd_config b) of
        Inl err \<Rightarrow> Inl err
      | Inr _ \<Rightarrow> (case bd_timer b of None \<Rightarrow> Inl MissingTimer | Some t \<Rightarrow> Inr t))"

definition LOGGER :: string where "LOGGER = ''logger''"
definition SIGNAL :: string where "SIGNAL = ''signal''"
definition TIMER :: string where "TIMER = ''timer''"
definition BOOTSTRAP :: string where "BOOTSTRAP = ''bootstrap''"

definition SYSTEM_TEXT_1 :: string where
  "SYSTEM_TEXT_1 = map (\<lambda>n. char_of (n :: nat)) [0xe7, 0xb3, 0xbb, 0xe7, 0xbb, 0x9f, 0xe6, 0x9c, 0x8d,
     0xe5, 0x8a, 0xa1, 0x20, 0x60]"

definition SYSTEM_TEXT_2 :: string where
  "SYSTEM_TEXT_2 = map (\<lambda>n. char_of (n :: nat)) [0x60, 0x20, 0xe6, 0x97, 0xa0, 0xe6, 0xb3, 0x95, 0xe6,
     0xb3, 0xa8, 0xe5, 0x86, 0x8c, 0xe5, 0x88, 0xb0, 0x20, 0x3a]"

definition bind_system_name :: "u64 \<Rightarrow> string \<Rightarrow> ('b, 'f, 'u) node \<Rightarrow> unit result \<times> ('b, 'f, 'u) node" where
  "bind_system_name h name nd =
     (case register_name h name (nd_handles nd) of (bound, hs) \<Rightarrow>
        (let nd = nd\<lparr>nd_handles := hs\<rparr> in
         if bound \<or> find_name hs name = Some h then (Inr (), nd)
         else (Inl (ServiceError (SYSTEM_TEXT_1 @ name @ SYSTEM_TEXT_2 @ pad_left 8 (hex_string (unat h)))), nd)))"

text \<open>
  Whether nothing is left of a string in UTF-8 once the white space of Unicode is trimmed.
\<close>

fun blank :: "string \<Rightarrow> bool" where
  "blank [] = True"
| "blank (a # s) =
     (if of_char a \<in> {9, 10, 11, 12, 13, 32 :: nat} then blank s
      else (case s of
              b # t \<Rightarrow>
                if of_char a = (0xc2 :: nat) then of_char b \<in> {0x85, 0xa0 :: nat} \<and> blank t
                else (case t of
                        d # u \<Rightarrow>
                          (of_char a :: nat, of_char b :: nat, of_char d) \<in>
                            {(0xe1, 0x9a, 0x80), (0xe2, 0x80, 0xa8), (0xe2, 0x80, 0xa9), (0xe2, 0x80, 0xaf), (0xe2, 0x81, 0x9f),
                             (0xe3, 0x80, 0x80)} \<union> (\<lambda>n. (0xe2, 0x80, n)) ` {0x80 .. 0x8a :: nat} \<and> blank u
                      | [] \<Rightarrow> False)
            | [] \<Rightarrow> False))"

text \<open>Sequencing of calls that return a \<^verbatim>\<open>Result\<close> and change the node, as the operator \<^verbatim>\<open>?\<close> does it.\<close>

definition rbind ::
  "('a result \<times> 'n) outcome option \<Rightarrow> ('a \<Rightarrow> 'n \<Rightarrow> ('c result \<times> 'n) outcome option) \<Rightarrow> ('c result \<times> 'n) outcome option" where
  "rbind m k = obind m (\<lambda>(r, nd). case r of Inl err \<Rightarrow> Some (Inr (Inl err, nd)) | Inr x \<Rightarrow> k x nd)"

text \<open>
  A reserved service: launched, waited for, bound to its name. \<^verbatim>\<open>wait\<close> is what happens until the ticket of a
  service holds a result.
\<close>

definition boot_reserved ::
  "'v toml \<Rightarrow> ('b, 'f, 'u) env \<Rightarrow> caller \<Rightarrow> (u64 \<Rightarrow> ('b, 'f, 'u) node \<Rightarrow> (unit result \<times> ('b, 'f, 'u) node) outcome option) \<Rightarrow>
   'v config \<Rightarrow> string \<Rightarrow> bool \<Rightarrow> ('b, 'f, 'u) node \<Rightarrow> (unit result \<times> ('b, 'f, 'u) node) outcome option" where
  "boot_reserved tm e c wait cf name logger nd =
     (case system_kind tm name name cf of
        Inl err \<Rightarrow> Some (Inr (Inl err, nd))
      | Inr kind \<Rightarrow>
          if blank kind then Some (Inr (Inr (), nd))
          else rbind (new_reserved_service e c kind [] nd) (\<lambda>h nd.
               rbind (wait h nd) (\<lambda>_ nd.
                 Some (Inr (bind_system_name h name (if logger then set_logger h nd else nd))))))"

fun boot_startup ::
  "('b, 'f, 'u) env \<Rightarrow> caller \<Rightarrow> (u64 \<Rightarrow> ('b, 'f, 'u) node \<Rightarrow> (unit result \<times> ('b, 'f, 'u) node) outcome option) \<Rightarrow>
   (string \<times> string) list \<Rightarrow> ('b, 'f, 'u) node \<Rightarrow> (unit result \<times> ('b, 'f, 'u) node) outcome option" where
  "boot_startup e c wait [] nd = Some (Inr (Inr (), nd))"
| "boot_startup e c wait ((kind, args) # ss) nd =
     rbind (new_service e c kind args nd) (\<lambda>h nd. rbind (wait h nd) (\<lambda>_ nd. boot_startup e c wait ss nd))"

definition boot_bootstrap ::
  "'v toml \<Rightarrow> ('b, 'f, 'u) env \<Rightarrow> caller \<Rightarrow> (u64 \<Rightarrow> ('b, 'f, 'u) node \<Rightarrow> (unit result \<times> ('b, 'f, 'u) node) outcome option) \<Rightarrow>
   'v config \<Rightarrow> ('b, 'f, 'u) node \<Rightarrow> (unit result \<times> ('b, 'f, 'u) node) outcome option" where
  "boot_bootstrap tm e c wait cf nd =
     (case system_kind tm BOOTSTRAP BOOTSTRAP cf of
        Inl err \<Rightarrow> Some (Inr (Inl err, nd))
      | Inr kind \<Rightarrow>
          if blank kind then Some (Inr (Inr (), nd))
          else rbind (new_service e c kind [] nd) (\<lambda>h nd.
                 if kind = BOOTSTRAP then wait h nd else Some (Inr (Inr (), nd))))"

definition boot ::
  "'v toml \<Rightarrow> ('b, 'f, 'u) env \<Rightarrow> caller \<Rightarrow> (u64 \<Rightarrow> ('b, 'f, 'u) node \<Rightarrow> (unit result \<times> ('b, 'f, 'u) node) outcome option) \<Rightarrow>
   'v config \<Rightarrow> (string \<times> string) list \<Rightarrow> ('b, 'f, 'u) node \<Rightarrow> (unit result \<times> ('b, 'f, 'u) node) outcome option" where
  "boot tm e c wait cf startup nd =
     rbind (boot_reserved tm e c wait cf LOGGER True nd) (\<lambda>_ nd.
     rbind (boot_reserved tm e c wait cf SIGNAL False nd) (\<lambda>_ nd.
     rbind (boot_reserved tm e c wait cf TIMER False nd) (\<lambda>_ nd.
     rbind (boot_startup e c wait startup nd) (\<lambda>_ nd.
       boot_bootstrap tm e c wait cf nd))))"

text \<open>What follows the boot: a node that has booted may quit with its last service, a failed boot makes it quit.\<close>

definition after_boot :: "unit result \<Rightarrow> ('b, 'f, 'u) node \<Rightarrow> ('b, 'f, 'u) node" where
  "after_boot r nd = (case r of Inr _ \<Rightarrow> mark_booted nd | Inl _ \<Rightarrow> quit nd)"

section \<open>Workers and the monitoring thread\<close>

text \<open>
  One turn of the loop of a worker, from the service in its hand to the next one; a worker that finds nothing
  sleeps and wakes up with empty hands.
\<close>

definition worker_find :: "nat \<Rightarrow> ('b, 'f, 'u) node \<Rightarrow> (u64 option \<times> ('b, 'f, 'u) node) outcome option" where
  "worker_find w nd =
     obind (find_work_or_park w (nd_sched nd)) (\<lambda>(r, sd).
       (let nd = nd\<lparr>nd_sched := sd\<rparr> in
        Some (Inr (case r of
                     Found h \<Rightarrow> (Some h, svc_mark_running h nd)
                   | Quitting \<Rightarrow> (None, nd)
                   | WillPark \<Rightarrow> (None, nd\<lparr>nd_sched := after_park w sd\<rparr>)))))"

definition worker_turn ::
  "('b, 'f, 'u) env \<Rightarrow> nat \<Rightarrow> u64 option \<Rightarrow> ('b, 'f, 'u) node \<Rightarrow> (u64 option \<times> ('b, 'f, 'u) node) outcome option" where
  "worker_turn e w hold nd =
     obind (dispatch_step e \<lparr>by_worker = Some w, by_service = None\<rparr> hold nd) (\<lambda>(step, nd).
       case dr_next step of Some h \<Rightarrow> Some (Inr (Some h, nd)) | None \<Rightarrow> worker_find w nd)"

definition worker_end :: "nat \<Rightarrow> u64 option \<Rightarrow> ('b, 'f, 'u) node \<Rightarrow> ('b, 'f, 'u) node outcome option" where
  "worker_end w hold nd =
     obind (case hold of Some h \<Rightarrow> enqueue \<lparr>by_worker = Some w, by_service = None\<rparr> h nd | None \<Rightarrow> Some (Inr nd)) (\<lambda>nd.
     obind (flush_local (Some w) (nd_sched nd)) (\<lambda>sd. Some (Inr (nd\<lparr>nd_sched := sd\<rparr>))))"

partial_function (option) worker_loop ::
  "('b, 'f, 'u) env \<Rightarrow> nat \<Rightarrow> u64 option \<Rightarrow> ('b, 'f, 'u) node \<Rightarrow> ('b, 'f, 'u) node outcome option" where
  "worker_loop e w hold nd =
     (if sd_quit (nd_sched nd) then worker_end w hold nd
      else (case worker_turn e w hold nd of
              None \<Rightarrow> None
            | Some (Inl p) \<Rightarrow> Some (Inl p)
            | Some (Inr (hold', nd')) \<Rightarrow> worker_loop e w hold' nd'))"

text \<open>A worker thread as a whole: it binds its monitor and its run queue, and then loops.\<close>

definition worker_start :: "nat \<Rightarrow> monitor \<Rightarrow> monitor option \<Rightarrow> ('b, 'f, 'u) node \<Rightarrow> (monitor option \<times> ('b, 'f, 'u) node) outcome" where
  "worker_start w m current nd =
     (case install m current of
        Inl p \<Rightarrow> Inl p
      | Inr bound \<Rightarrow>
          (case register_worker w (nd_sched nd) of Inl p \<Rightarrow> Inl p | Inr sd \<Rightarrow> Inr (bound, nd\<lparr>nd_sched := sd\<rparr>)))"

definition worker_thread ::
  "('b, 'f, 'u) env \<Rightarrow> nat \<Rightarrow> monitor \<Rightarrow> monitor option \<Rightarrow> ('b, 'f, 'u) node \<Rightarrow> ('b, 'f, 'u) node outcome option" where
  "worker_thread e w m current nd = obind (Some (worker_start w m current nd)) (\<lambda>(_, nd). worker_loop e w None nd)"

text \<open>One scan of the monitoring thread, and its loop over the answers of the timed waits for the stop signal.\<close>

fun monitor_scan ::
  "caller \<Rightarrow> monitor list \<Rightarrow> ('b, 'f, 'u) node \<Rightarrow> (monitor list \<times> ('b, 'f, 'u) node) outcome option" where
  "monitor_scan c [] nd = Some (Inr ([], nd))"
| "monitor_scan c (m # ms) nd =
     (case check m of
        None \<Rightarrow> None
      | Some (res, m) \<Rightarrow>
          obind (case res of
                   Some (source, destination, version) \<Rightarrow> report_endless c source destination version nd
                 | None \<Rightarrow> Some (Inr nd)) (\<lambda>nd.
          obind (monitor_scan c ms nd) (\<lambda>(ms, nd). Some (Inr (m # ms, nd)))))"

fun monitor_wait :: "nat \<Rightarrow> bool list \<Rightarrow> bool \<times> bool list" where
  "monitor_wait 0 stops = (False, stops)"
| "monitor_wait (Suc n) [] = (True, [])"
| "monitor_wait (Suc n) (stop # stops) = (if stop then (True, stops) else monitor_wait n stops)"

lemma monitor_wait_shorter: "monitor_wait n stops = (False, rest) \<Longrightarrow> n \<noteq> 0 \<Longrightarrow> length rest < length stops"
proof (induction n stops arbitrary: rest rule: monitor_wait.induct)
  case (3 n stop stops)
  then show ?case by (cases n) (auto split: if_splits)
qed auto

function monitor_loop ::
  "caller \<Rightarrow> monitor list \<Rightarrow> bool list \<Rightarrow> ('b, 'f, 'u) node \<Rightarrow> ('b, 'f, 'u) node outcome option" where
  "monitor_loop c ms stops nd =
     obind (monitor_scan c ms nd) (\<lambda>(ms, nd).
       case monitor_wait 5 stops of
         (True, _) \<Rightarrow> Some (Inr nd)
       | (False, rest) \<Rightarrow> monitor_loop c ms rest nd)"
  by pat_completeness auto
termination
  by (relation "measure (\<lambda>(_, _, stops, _). length stops)") (auto intro: monitor_wait_shorter [of 5])

section \<open>Shutdown\<close>

definition DRAIN_BUDGET :: nat where "DRAIN_BUDGET = 4096"

definition DRAIN_TEXT_1 :: string where
  "DRAIN_TEXT_1 = map (\<lambda>n. char_of (n :: nat)) [0x65, 0x72, 0x72, 0x6f, 0x72, 0x3a, 0x20, 0xe6, 0x9c,
     0x8d, 0xe5, 0x8a, 0xa1, 0x20, 0x3a]"

definition DRAIN_TEXT_2 :: string where
  "DRAIN_TEXT_2 = map (\<lambda>n. char_of (n :: nat)) [0x29, 0x20, 0xe5, 0x9c, 0xa8, 0xe6, 0x94, 0xb6, 0xe5,
     0xb0, 0xbe, 0xe6, 0x8e, 0x92, 0xe7, 0xa9, 0xba, 0xe4, 0xb8, 0xad, 0xe7, 0xb4, 0xaf, 0xe8, 0xae, 0xa1,
     0xe8, 0xae, 0xa9, 0xe6, 0xb8, 0xa1, 0x20, 0x34, 0x30, 0x39, 0x36, 0x20, 0xe8, 0xbd, 0xae, 0xe4, 0xbb,
     0x8d, 0xe6, 0x9c, 0xaa, 0xe7, 0xbb, 0x93, 0xe6, 0x9d, 0x9f, 0xef, 0xbc, 0x88, 0xe4, 0xbb, 0xbb, 0xe5,
     0x8a, 0xa1, 0xe6, 0x95, 0xb0, 0x20]"

definition DRAIN_TEXT_3 :: string where
  "DRAIN_TEXT_3 = map (\<lambda>n. char_of (n :: nat)) [0xef, 0xbc, 0x8c, 0xe9, 0x82, 0xae, 0xe7, 0xae, 0xb1,
     0xe9, 0x95, 0xbf, 0xe5, 0xba, 0xa6, 0x20]"

definition DRAIN_TEXT_4 :: string where
  "DRAIN_TEXT_4 = map (\<lambda>n. char_of (n :: nat)) [0xef, 0xbc, 0x89, 0xef, 0xbc, 0x8c, 0xe5, 0xbc, 0xba,
     0xe5, 0x88, 0xb6, 0xe6, 0x91, 0x98, 0xe9, 0x99, 0xa4]"

definition drain_text :: "u64 \<Rightarrow> ('b, 'f) service \<Rightarrow> string" where
  "drain_text h sv =
     DRAIN_TEXT_1 @ pad_left 8 (hex_string (unat h)) @ '' ('' @ sv_kind sv @ DRAIN_TEXT_2 @ dec_string (task_len (sv_tasks sv)) @
     DRAIN_TEXT_3 @ dec_string (mailbox_len (sv_mailbox sv)) @ DRAIN_TEXT_4"

text \<open>A service that yields is charged for it, and is retired when its budget is spent.\<close>

definition drain_charge ::
  "caller \<Rightarrow> u64 option \<Rightarrow> (u64 \<Rightarrow> nat option) \<Rightarrow> ('b, 'f, 'u) node \<Rightarrow> ((u64 \<Rightarrow> nat option) \<times> ('b, 'f, 'u) node) outcome option" where
  "drain_charge c yielded budgets nd =
     (case yielded of
        None \<Rightarrow> Some (Inr (budgets, nd))
      | Some h \<Rightarrow>
          (let count = (case budgets h of Some n \<Rightarrow> n | None \<Rightarrow> 0) + 1 in
           if count < DRAIN_BUDGET then Some (Inr (budgets(h \<mapsto> count), nd))
           else (let budgets = budgets(h := None) in
                 case grab (nd_handles nd) h of
                   None \<Rightarrow> Some (Inr (budgets, nd))
                 | Some ctx \<Rightarrow>
                     obind (log_node c 0 (case nd_svcs nd (ctx_handle ctx) of Some sv \<Rightarrow> utf8 (drain_text (ctx_handle ctx) sv) | None \<Rightarrow> []) nd) (\<lambda>nd.
                     obind (retire_svc c h nd) (\<lambda>(_, nd). Some (Inr (budgets, nd)))))))"

definition drain_round ::
  "('b, 'f, 'u) env \<Rightarrow> caller \<Rightarrow> u64 option \<Rightarrow> (u64 \<Rightarrow> nat option) \<Rightarrow> ('b, 'f, 'u) node \<Rightarrow>
   (dispatch_result \<times> (u64 \<Rightarrow> nat option) \<times> ('b, 'f, 'u) node) outcome option" where
  "drain_round e c hold budgets nd =
     obind (dispatch_step e c hold nd) (\<lambda>(step, nd).
     obind (drain_charge c (dr_yielded step) budgets nd) (\<lambda>(budgets, nd). Some (Inr (step, budgets, nd))))"

partial_function (option) drain_rounds ::
  "('b, 'f, 'u) env \<Rightarrow> caller \<Rightarrow> u64 option \<Rightarrow> (u64 \<Rightarrow> nat option) \<Rightarrow> ('b, 'f, 'u) node \<Rightarrow> ('b, 'f, 'u) node outcome option" where
  "drain_rounds e c hold budgets nd =
     (case drain_round e c hold budgets nd of
        None \<Rightarrow> None
      | Some (Inl p) \<Rightarrow> Some (Inl p)
      | Some (Inr (step, budgets', nd')) \<Rightarrow>
          if dr_next step = None then Some (Inr nd') else drain_rounds e c (dr_next step) budgets' nd')"

definition drain_node :: "('b, 'f, 'u) env \<Rightarrow> caller \<Rightarrow> ('b, 'f, 'u) node \<Rightarrow> ('b, 'f, 'u) node outcome option" where
  "drain_node e c nd = drain_rounds e c None Map.empty nd"

text \<open>\<^verbatim>\<open>join\<close> is what happens until the threads of the services of a list have ended.\<close>

definition shutdown ::
  "('b, 'f, 'u) env \<Rightarrow> caller \<Rightarrow> (u64 list \<Rightarrow> ('b, 'f, 'u) node \<Rightarrow> ('b, 'f, 'u) node outcome option) \<Rightarrow>
   ('b, 'f, 'u) node \<Rightarrow> ('b, 'f, 'u) node outcome option" where
  "shutdown e c join nd =
     obind (drain_node e c nd) (\<lambda>nd.
     obind (retire_all c nd) (\<lambda>nd.
     obind (drain_node e c nd) (\<lambda>nd.
     obind (case join_retired_exclusives nd of (hs, nd) \<Rightarrow> join hs nd) (\<lambda>nd.
     obind (retire_reserved c True nd) (\<lambda>nd.
     obind (drain_node e c nd) (\<lambda>nd.
     obind (case join_retired_exclusives nd of (hs, nd) \<Rightarrow> join hs nd) (\<lambda>nd.
     obind (retire_reserved c False nd) (\<lambda>nd.
     obind (drain_node e c nd) (\<lambda>nd.
       (case join_exclusives nd of (hs, nd) \<Rightarrow> join hs nd))))))))))"

text \<open>The whole run: boot, the work of all threads until the workers have ended, shutdown.\<close>

definition run_node ::
  "'v toml \<Rightarrow> ('b, 'f, 'u) env \<Rightarrow> caller \<Rightarrow> (u64 \<Rightarrow> ('b, 'f, 'u) node \<Rightarrow> (unit result \<times> ('b, 'f, 'u) node) outcome option) \<Rightarrow>
   (('b, 'f, 'u) node \<Rightarrow> ('b, 'f, 'u) node outcome option) \<Rightarrow> (u64 list \<Rightarrow> ('b, 'f, 'u) node \<Rightarrow> ('b, 'f, 'u) node outcome option) \<Rightarrow>
   'v config \<Rightarrow> (string \<times> string) list \<Rightarrow> ('b, 'f, 'u) node \<Rightarrow> (unit result \<times> ('b, 'f, 'u) node) outcome option" where
  "run_node tm e c wait work join cf startup nd =
     obind (boot tm e c wait cf startup nd) (\<lambda>(r, nd).
     obind (work (after_boot r nd)) (\<lambda>nd.
     obind (shutdown e c join nd) (\<lambda>nd. Some (Inr (r, nd)))))"

end
