(* ===== verification/Shutdown.thy ===== *)
theory Shutdown
  imports Start Lifecycle
begin

text \<open>
  What the shutdown of a node achieves when it returns, what bounds its draining, and where that bound fails.
\<close>

section \<open>Draining keeps the accounts\<close>

lemma drain_charge_evolves: "returns (drain_charge c y budgets nd) (\<lambda>x. evolves nd (snd x))"
proof (cases y)
  case (Some h)
  have "returns (obind (log_node c 0 t nd) (\<lambda>nd. obind (retire_svc c h nd) (\<lambda>(_, nd). Some (Inr (b, nd))))) (\<lambda>x. evolves nd (snd x))"
    for t and b :: "u64 \<Rightarrow> nat option"
    by (rule returns_bind [OF life_evolves_returns [OF log_node_life]], rule returns_bind [OF retire_svc_evolves])
      (auto intro: evolves_trans)
  then show ?thesis using Some by (auto simp: drain_charge_def Let_def split: option.split)
qed (simp add: drain_charge_def)

lemma drain_round_evolves:
  assumes "user_code_ok e"
  shows "returns (drain_round e c hold budgets nd) (\<lambda>(_, _, nd'). evolves nd nd')"
  unfolding drain_round_def
  by (rule returns_bind [OF dispatch_step_evolves [OF assms]]) (auto intro!: returns_bind [OF drain_charge_evolves] intro: evolves_trans)

lemma drain_rounds_evolves:
  assumes u: "user_code_ok e"
  shows "returns (drain_rounds e c hold budgets nd) (evolves nd)"
proof -
  have "case y of Inl _ \<Rightarrow> True | Inr nd' \<Rightarrow> evolves nd nd'" if "drain_rounds e c hold budgets nd = Some y" for y
    using that u
  proof (induction rule: drain_rounds.raw_induct [rotated, consumes 1, case_names step])
    case (step f e c hold budgets nd y)
    show ?case
    proof (cases "drain_round e c hold budgets nd")
      case (Some z)
      show ?thesis
      proof (cases z)
        case (Inr x)
        obtain s b nd1 where x: "x = (s, b, nd1)" by (cases x)
        have e1: "evolves nd nd1" using returnsD [OF drain_round_evolves [OF step(3)]] Some Inr x by fastforce
        show ?thesis
        proof (cases "dr_next s")
          case None
          then show ?thesis using step(2) Some Inr x e1 by auto
        next
          case (Some h)
          then have "f e c (Some h) b nd1 = Some y" using step(2) \<open>drain_round e c hold budgets nd = Some z\<close> Inr x by simp
          then show ?thesis using step(1) [of e c "Some h" b nd1 y] step(3) e1 evolves_trans by (auto split: sum.splits)
        qed
      qed (use step Some in auto)
    qed (use step in auto)
  qed
  then show ?thesis by (auto simp: returns_def split: option.split sum.splits)
qed

lemma drain_node_evolves: "user_code_ok e \<Longrightarrow> returns (drain_node e c nd) (evolves nd)"
  by (simp add: drain_node_def drain_rounds_evolves)

section \<open>Who is left\<close>

definition registered :: "('b, 'f, 'u) node \<Rightarrow> u64 set" where
  "registered nd = {h. grab (nd_handles nd) h \<noteq> None}"

lemma registered_handles: "node_inv nd \<Longrightarrow> set (handles (nd_handles nd)) = registered nd"
proof -
  assume "node_inv nd"
  then have "storage_inv (nd_handles nd)" by (simp add: node_inv_def)
  note g = grab_iff [OF storage_slots_ok [OF this]]
  show ?thesis by (auto simp: registered_def handles_def g)
qed

lemma registered_alive: "node_inv nd \<Longrightarrow> h \<in> registered nd \<longleftrightarrow> (\<exists>sv. nd_svcs nd h = Some sv \<and> \<not> sv_dead sv)"
  by (simp add: registered_def node_inv_def)

text \<open>A node that has quit only loses services.\<close>

lemma evolves_registered:
  assumes "evolves nd nd'" "node_inv nd" "sd_quit (nd_sched nd)"
  shows "registered nd' \<subseteq> registered nd"
proof
  note D = evolvesD [OF assms(1,2)]
  fix h assume "h \<in> registered nd'"
  then obtain sv' where sv': "nd_svcs nd' h = Some sv'" "\<not> sv_dead sv'" using registered_alive [OF D(1)] by blast
  then obtain sv where "nd_svcs nd h = Some sv" using D(5) [OF assms(3)] by (metis domD domI)
  then show "h \<in> registered nd" using D(2) [of h sv] sv' registered_alive [OF assms(2)] by (auto simp: svc_older_def)
qed

lemma retire_svc_gone:
  assumes inv: "storage_inv (nd_handles nd)"
  shows "returns (retire_svc c h nd) (\<lambda>x. grab (nd_handles (snd x)) h = None)"
proof (cases "grab (nd_handles nd) h")
  case None
  then show ?thesis by (simp add: retire_svc_def retire_miss)
next
  case (Some ctx)
  let ?nd1 = "upd_svc h mark_dead (nd\<lparr>nd_handles := snd (retire h (nd_handles nd))\<rparr>)"
  have r: "retire h (nd_handles nd) = (Some ctx, snd (retire h (nd_handles nd)))"
    using Some retire_fst [of h "nd_handles nd"] by (metis prod.collapse)
  have g: "grab (nd_handles ?nd1) h = None" using retire_grab [OF storage_slots_ok [OF inv]] by (simp add: upd_svc_def)
  have "grab (nd_handles nd') h = None" if "life nd' = life x" "life x = life ?nd1" for x nd' :: "('a, 'b, 'c) node"
    using that g by (simp add: life_def)
  then show ?thesis
    unfolding retire_svc_def by (subst r) (auto simp: grab_handle [OF Some]
      intro!: returns_bind [OF fail_inflight_life] returns_bind [OF mailbox_op_life])
qed

lemma retire_each_gone:
  assumes "node_inv nd" "sd_quit (nd_sched nd)"
  shows "returns (retire_each c hs nd) (\<lambda>nd'. registered nd' \<subseteq> registered nd - set hs)"
  using assms
proof (induction hs arbitrary: nd)
  case (Cons h hs)
  have "returns (retire_svc c h nd) (\<lambda>x. grab (nd_handles (snd x)) h = None \<and> evolves nd (snd x))"
    using retire_svc_gone [of nd c h] retire_svc_evolves [of c h nd] Cons.prems(1) by (auto simp: returns_def node_inv_def)
  then show ?case
  proof (simp, elim returns_bind, clarsimp)
    fix r nd1
    assume g: "grab (nd_handles nd1) h = None" and e: "evolves nd nd1"
    have q: "node_inv nd1" "sd_quit (nd_sched nd1)" using evolvesD [OF e Cons.prems(1)] Cons.prems(2) by auto
    have "registered nd1 \<subseteq> registered nd - {h}"
      using evolves_registered [OF e Cons.prems] g by (auto simp: registered_def)
    then have sub: "A \<subseteq> registered nd1 - set hs \<Longrightarrow> A \<subseteq> registered nd - insert h (set hs)" for A by blast
    show "returns (retire_each c hs nd1) (\<lambda>nd'. registered nd' \<subseteq> registered nd - insert h (set hs))"
      by (rule returns_mono [OF Cons.IH [OF q] sub])
  qed
qed simp

lemma retire_sweep_none:
  "retire_sweep c hs k nd = Some (Inr (0, nd')) \<Longrightarrow>
   k = 0 \<and> nd' = nd \<and> (\<forall>h \<in> set hs. \<exists>ctx sv. grab (nd_handles nd) h = Some ctx \<and> nd_svcs nd (ctx_handle ctx) = Some sv \<and> sv_reserved sv)"
proof (induction hs arbitrary: k nd)
  case (Cons h hs)
  show ?case
  proof (cases "case grab (nd_handles nd) h of
            Some ctx \<Rightarrow> (case nd_svcs nd (ctx_handle ctx) of Some sv \<Rightarrow> sv_reserved sv | None \<Rightarrow> False)
          | None \<Rightarrow> False")
    case True
    then show ?thesis using Cons by (auto split: option.splits)
  next
    case False
    then obtain r nd1 where "retire_sweep c hs (k + 1) nd1 = Some (Inr (0, nd'))"
      using Cons.prems by (auto simp: obind_def split: option.splits sum.splits)
    then show ?thesis using Cons.IH [of "k + 1"] by auto
  qed
qed simp

text \<open>When \<^verbatim>\<open>retire_all\<close> returns, only reserved services are registered.\<close>

lemma retire_all_reserved:
  "returns (retire_all c nd) (\<lambda>nd'. \<forall>h \<in> set (handles (nd_handles nd')). \<exists>sv. nd_svcs nd' h = Some sv \<and> sv_reserved sv)"
proof -
  have "case y of Inl _ \<Rightarrow> True | Inr nd' \<Rightarrow> \<forall>h \<in> set (handles (nd_handles nd')). \<exists>sv. nd_svcs nd' h = Some sv \<and> sv_reserved sv"
    if "retire_all c nd = Some y" for y
    using that
  proof (induction rule: retire_all.raw_induct [rotated, consumes 1, case_names step])
    case (step f c nd y)
    show ?case
    proof (cases "retire_sweep c (handles (nd_handles nd)) 0 nd")
      case (Some z)
      show ?thesis
      proof (cases z)
        case (Inr x)
        obtain k nd1 where x: "x = (k, nd1)" by (cases x)
        show ?thesis
        proof (cases "k = 0")
          case True
          then have "retire_sweep c (handles (nd_handles nd)) 0 nd = Some (Inr (0, nd1))" using Some Inr x by simp
          from retire_sweep_none [OF this] show ?thesis
            using step(2) Some Inr x True grab_handle by (fastforce split: sum.splits)
        next
          case False
          then have "f c nd1 = Some y" using step(2) Some Inr x by simp
          then show ?thesis using step(1) by blast
        qed
      qed (use step Some in auto)
    qed (use step in auto)
  qed
  then show ?thesis by (auto simp: returns_def split: sum.splits)
qed

text \<open>What the other threads do while the main thread joins some of them: steps of the node.\<close>

definition join_ok :: "('b, 'f, 'u) env \<Rightarrow> (u64 list \<Rightarrow> ('b, 'f, 'u) node \<Rightarrow> ('b, 'f, 'u) node outcome option) \<Rightarrow> bool" where
  "join_ok e join = (\<forall>hs nd nd'. join hs nd = Some (Inr nd') \<longrightarrow> (node_step e)\<^sup>*\<^sup>* nd nd')"

lemma join_evolves:
  assumes "user_code_ok e" "join_ok e join"
  shows "returns (case join_retired_exclusives nd of (hs, nd) \<Rightarrow> join hs nd) (evolves nd)"
    and "returns (case join_exclusives nd of (hs, nd) \<Rightarrow> join hs nd) (evolves nd)"
proof -
  have "evolves nd nd'" if "join hs x = Some (Inr nd')" "node_step e nd x" for hs x nd'
    using that assms steps_evolve [OF assms(1)] unfolding join_ok_def by (meson converse_rtranclp_into_rtranclp)
  then show "returns (case join_retired_exclusives nd of (hs, nd) \<Rightarrow> join hs nd) (evolves nd)"
    "returns (case join_exclusives nd of (hs, nd) \<Rightarrow> join hs nd) (evolves nd)"
    using node_step.joining node_step.joining_all by (fastforce simp: returns_def split: prod.splits)+
qed

lemma obind_eq: "obind m k = Some (Inr y) \<longleftrightarrow> (\<exists>x. m = Some (Inr x) \<and> k x = Some (Inr y))"
  by (auto simp: obind_def split: option.splits sum.splits)

lemma retire_reserved_gone:
  assumes "node_inv nd" "sd_quit (nd_sched nd)"
  shows "returns (retire_reserved c keep nd) (\<lambda>nd'. registered nd' \<subseteq> (if keep then {nd_logger nd} else {}))"
  unfolding retire_reserved_def
  by (rule returns_mono [OF retire_each_gone [OF assms]]) (auto simp: registered_handles [OF assms(1)])

section \<open>The budget\<close>

text \<open>A service that has just yielded is alive.\<close>

definition alive :: "u64 \<Rightarrow> ('b, 'f, 'u) node \<Rightarrow> bool" where
  "alive h nd = (\<exists>sv. nd_svcs nd h = Some sv \<and> \<not> sv_dead sv)"

lemma alive_lives: "alive h nd \<longleftrightarrow> (\<exists>r d. lives nd h = Some (False, r, d))"
  by (auto simp: alive_def lives_def svc_life_def)

lemma alive_life: "\<lbrakk>alive h nd; life nd' = life nd\<rbrakk> \<Longrightarrow> alive h nd'"
  by (simp add: alive_lives life_def)

lemma run_turn_present: "run_turn e c h nd = Some (Inr (t, nd')) \<Longrightarrow> t \<noteq> TurnEmpty \<Longrightarrow> h \<in> dom (nd_svcs nd)"
  by (cases "nd_svcs nd h") (auto simp: run_turn_def is_running_svc_def svc_take_work_def)

lemma run_loop_yields:
  assumes u: "user_code_ok e" and i: "node_inv nd" and r: "run_loop e c h pre k nd = Some (Inr (RanYielded, nd'))"
  shows "alive h nd'"
proof -
  have "y = Inr (RanYielded, nd') \<longrightarrow> alive h nd'" if "run_loop e c h pre k nd = Some y" for y
    using that u i
  proof (induction rule: run_loop.raw_induct [rotated, consumes 1, case_names step])
    case (step f e c h pre k nd y)
    show ?case
    proof (cases "run_turn e c h nd")
      case (Some z)
      show ?thesis
      proof (cases z)
        case (Inr tn)
        obtain t nd1 where tn: "tn = (t, nd1)" by (cases tn)
        have e1: "evolves nd nd1" using returnsD [OF run_turn_evolves [OF step(3)]] Some Inr tn by fastforce
        have i1: "node_inv nd1" using evolvesD(1) [OF e1 step(4)] .
        have "alive h nd1" if t: "t \<noteq> TurnEmpty" and d: "\<not> is_dead_svc h nd1"
        proof -
          obtain sv where "nd_svcs nd h = Some sv" using run_turn_present [of e c h nd t nd1] t Some Inr tn by auto
          then obtain sv' where "nd_svcs nd1 h = Some sv'" using evolvesD(2) [OF e1 step(4)] by blast
          then show ?thesis using d by (simp add: alive_def is_dead_svc_def)
        qed
        then show ?thesis
          using step(2) step(1) [OF _ step(3) i1] unfolding Some Inr tn by (cases t) (auto split: if_splits)
      qed (use step(2) Some in auto)
    qed (use step(2) in auto)
  qed
  then show ?thesis using r by blast
qed

lemma dispatch_held_yields:
  fixes nd :: "('b, 'f, 'u) node"
  assumes u: "user_code_ok e" and i: "node_inv nd"
  shows "returns (dispatch_held e c h nd) (\<lambda>(step, nd'). dr_yielded step = None \<or> dr_yielded step = Some h \<and> alive h nd')"
proof -
  let ?ok = "\<lambda>(step, nd'). dr_yielded step = None \<or> dr_yielded step = Some h \<and> alive h nd'"
  have y: "returns (obind (dequeue c nd1) (\<lambda>(next, nd). case next of
      Some _ \<Rightarrow> obind (enqueue c h nd) (\<lambda>nd. Some (Inr (\<lparr>dr_next = next, dr_yielded = Some h\<rparr>, nd)))
    | None \<Rightarrow> Some (Inr (\<lparr>dr_next = Some h, dr_yielded = Some h\<rparr>, nd)))) ?ok" if "alive h nd1" for nd1 :: "('b, 'f, 'u) node"
  proof (rule returns_bind [OF dequeue_life], clarsimp)
    fix nx :: "u64 option" and nd2 :: "('b, 'f, 'u) node"
    assume "life nd2 = life nd1"
    with that have "alive h nd2" by (rule alive_life)
    then show "returns (case nx of Some x \<Rightarrow> obind (enqueue c h nd2) (\<lambda>nd. Some (Inr (\<lparr>dr_next = nx, dr_yielded = Some h\<rparr>, nd)))
      | None \<Rightarrow> Some (Inr (\<lparr>dr_next = Some h, dr_yielded = Some h\<rparr>, nd2))) ?ok"
      using alive_life by (cases nx) (auto intro!: returns_bind [OF enqueue_life])
  qed
  have n: "returns (obind (dequeue c nd1) (\<lambda>(next, nd). Some (Inr (\<lparr>dr_next = next, dr_yielded = None\<rparr>, nd)))) ?ok" for nd1 :: "('b, 'f, 'u) node"
    by (rule returns_bind [OF dequeue_life]) auto
  have "returns (run_service e c h True nd) (\<lambda>(r, nd1). r = RanYielded \<longrightarrow> alive h nd1)"
    using run_loop_yields [OF u i] by (auto simp: run_service_def returns_def)
  then show ?thesis
    unfolding dispatch_held_def
  proof (rule returns_bind, clarify)
    fix r and nd1 :: "('b, 'f, 'u) node"
    assume a: "r = RanYielded \<longrightarrow> alive h nd1"
    show "returns (case r of
         RanDead \<Rightarrow>
           obind (destroy e c h nd1) (\<lambda>nd.
           obind (dequeue c nd) (\<lambda>(next, nd). Some (Inr (\<lparr>dr_next = next, dr_yielded = None\<rparr>, nd))))
       | RanIdle \<Rightarrow>
           obind (if is_dead_svc h nd1 then notify_push c h nd1 else Some (Inr nd1)) (\<lambda>nd.
           obind (dequeue c nd) (\<lambda>(next, nd). Some (Inr (\<lparr>dr_next = next, dr_yielded = None\<rparr>, nd))))
       | RanYielded \<Rightarrow>
           obind (dequeue c nd1) (\<lambda>(next, nd).
             case next of
               Some _ \<Rightarrow> obind (enqueue c h nd) (\<lambda>nd. Some (Inr (\<lparr>dr_next = next, dr_yielded = Some h\<rparr>, nd)))
             | None \<Rightarrow> Some (Inr (\<lparr>dr_next = Some h, dr_yielded = Some h\<rparr>, nd)))) ?ok"
      using y a by (cases r) (auto intro!: returns_bind_any n)
  qed
qed

lemma dispatch_step_yields:
  fixes nd :: "('b, 'f, 'u) node"
  assumes u: "user_code_ok e" and i: "node_inv nd" and d: "dispatch_step e c hold nd = Some (Inr (step, nd'))" and y: "dr_yielded step = Some h"
  shows "alive h nd'"
proof (cases hold)
  case None
  obtain r nd1 where n: "dequeue c nd = Some (Inr (r, nd1))"
    "(case r of Some h \<Rightarrow> dispatch_held e c h nd1 | None \<Rightarrow> Some (Inr (\<lparr>dr_next = None, dr_yielded = None\<rparr>, nd1))) = Some (Inr (step, nd'))"
    using d None by (auto simp: dispatch_step_def obind_eq)
  have "node_inv nd1" using evolvesD(1) [OF life_evolves [OF returnsD [OF dequeue_life n(1)]] i] by simp
  then show ?thesis using n(2) y returnsD [OF dispatch_held_yields [OF u, of nd1]] by (cases r) force+
next
  case (Some h')
  then show ?thesis using d y returnsD [OF dispatch_held_yields [OF u i]] by (force simp: dispatch_step_def)
qed

text \<open>Draining as a sequence of rounds, with the services that have yielded so far.\<close>

inductive drain_reach ::
  "('b, 'f, 'u) env \<Rightarrow> caller \<Rightarrow> ('b, 'f, 'u) node \<Rightarrow> u64 list \<Rightarrow> u64 option \<Rightarrow> (u64 \<Rightarrow> nat option) \<Rightarrow> ('b, 'f, 'u) node \<Rightarrow> bool"
  for e :: "('b, 'f, 'u) env" and c :: caller and nd0 :: "('b, 'f, 'u) node" where
  start: "drain_reach e c nd0 [] None Map.empty nd0"
| round: "\<lbrakk>drain_reach e c nd0 ys hold budgets nd; drain_round e c hold budgets nd = Some (Inr (step, budgets', nd'))\<rbrakk> \<Longrightarrow>
    drain_reach e c nd0 (ys @ (case dr_yielded step of Some h \<Rightarrow> [h] | None \<Rightarrow> [])) (dr_next step) budgets' nd'"

definition charged :: "u64 list \<Rightarrow> (u64 \<Rightarrow> nat option) \<Rightarrow> ('b, 'f, 'u) node \<Rightarrow> u64 \<Rightarrow> bool" where
  "charged ys budgets nd h =
     ((count_list ys h = (case budgets h of Some n \<Rightarrow> n | None \<Rightarrow> 0) \<and> count_list ys h < DRAIN_BUDGET) \<or>
      (count_list ys h = DRAIN_BUDGET \<and> is_dead_svc h nd))"

lemma dead_stays:
  assumes "evolves nd nd'" "node_inv nd" "is_dead_svc h nd"
  shows "is_dead_svc h nd'"
proof -
  obtain sv where sv: "nd_svcs nd h = Some sv" "sv_dead sv" using assms(3) by (auto simp: is_dead_svc_def split: option.splits)
  then show ?thesis using evolvesD(2) [OF assms(1,2) sv(1)] by (auto simp: is_dead_svc_def svc_older_def)
qed

lemma charged_stays: "charged ys budgets nd h \<Longrightarrow> evolves nd nd' \<Longrightarrow> node_inv nd \<Longrightarrow> charged ys budgets nd' h"
  using dead_stays unfolding charged_def by blast

lemma charge_charged:
  fixes nd :: "('b, 'f, 'u) node"
  assumes i: "node_inv nd" and ch: "\<forall>h. charged ys budgets nd h" and a: "alive h nd"
    and d: "drain_charge c (Some h) budgets nd = Some (Inr (budgets', nd'))"
  shows "charged (ys @ [h]) budgets' nd' k"
proof -
  have n: "\<not> is_dead_svc h nd" using a by (auto simp: alive_def is_dead_svc_def)
  let ?n = "case budgets h of Some n \<Rightarrow> n | None \<Rightarrow> 0"
  have c: "count_list ys h = ?n" "?n < DRAIN_BUDGET" using spec [OF ch, of h] n by (auto simp: charged_def)
  have e: "evolves nd nd'" using returnsD [OF drain_charge_evolves d] by simp
  have k: "charged ys budgets nd' k" using charged_stays [OF _ e i] ch by blast
  show ?thesis
  proof (cases "?n + 1 < DRAIN_BUDGET")
    case True
    then have "budgets' = budgets(h \<mapsto> ?n + 1)" using d by (simp add: drain_charge_def Let_def)
    then show ?thesis using k c True by (auto simp: charged_def)
  next
    case False
    have "h \<in> registered nd" using registered_alive [OF i] a by (simp add: alive_def)
    then obtain ctx where g: "grab (nd_handles nd) h = Some ctx" by (auto simp: registered_def)
    obtain t nd1 r where r: "log_node c 0 t nd = Some (Inr nd1)" "retire_svc c h nd1 = Some (Inr (r, nd'))" "budgets' = budgets(h := None)"
      using d False g by (auto simp: drain_charge_def Let_def obind_eq)
    have l: "life nd1 = life nd" using returnsD [OF log_node_life r(1)] .
    have i1: "node_inv nd1" using evolvesD(1) [OF life_evolves [OF l] i] .
    have "h \<notin> registered nd'" using returnsD [OF retire_svc_gone r(2)] i1 by (simp add: node_inv_def registered_def)
    moreover obtain sv' where "nd_svcs nd' h = Some sv'" using a evolvesD(2) [OF e i] unfolding alive_def by blast
    ultimately have "is_dead_svc h nd'" using registered_alive [OF evolvesD(1) [OF e i]] by (simp add: is_dead_svc_def)
    then show ?thesis using k c False r(3) by (auto simp: charged_def)
  qed
qed

lemma drain_reach_charged:
  assumes u: "user_code_ok e" and i: "node_inv nd0" and d: "drain_reach e c nd0 ys hold budgets nd"
  shows "node_inv nd \<and> (\<forall>h. charged ys budgets nd h)"
  using d
proof (induction rule: drain_reach.induct)
  case start
  then show ?case using i by (simp add: charged_def DRAIN_BUDGET_def)
next
  case (round ys hold budgets nd step budgets' nd')
  then have ih: "node_inv nd" "\<forall>h. charged ys budgets nd h" by auto
  obtain nd1 where s: "dispatch_step e c hold nd = Some (Inr (step, nd1))" "drain_charge c (dr_yielded step) budgets nd1 = Some (Inr (budgets', nd'))"
    using round(2) by (auto simp: drain_round_def obind_eq)
  have e1: "evolves nd nd1" using returnsD [OF dispatch_step_evolves [OF u] s(1)] by simp
  have i1: "node_inv nd1" "\<forall>h. charged ys budgets nd1 h" using evolvesD(1) [OF e1 ih(1)] charged_stays [OF _ e1 ih(1)] ih(2) by auto
  have i2: "node_inv nd'" using returnsD [OF drain_charge_evolves s(2)] i1(1) evolvesD(1) by fastforce
  show ?case
  proof (cases "dr_yielded step")
    case None
    then show ?thesis using s(2) i1 by (simp add: drain_charge_def)
  next
    case (Some h)
    have "alive h nd1" using dispatch_step_yields [OF u ih(1) s(1) Some] .
    then show ?thesis using charge_charged [OF i1 _ s(2) [unfolded Some]] i2 Some by simp
  qed
qed

section \<open>Two services that wake each other\<close>

text \<open>
  Each of the services 1 and 2 has one task, which on every poll wakes the task of the other service and stays
  pending. One of them has its task ready and is in the hand of the draining thread, the other one is idle.
\<close>

definition partner :: "u64 \<Rightarrow> u64" where
  "partner h = (if h = 1 then 2 else 1)"

definition relay_task :: task_id where
  "relay_task = \<lparr>tid_index = 0, tid_generation = 1\<rparr>"

definition relay_env :: "(unit, unit, unit) env" where
  "relay_env = idle_env\<lparr>ev_poll := (\<lambda>c h task f nd.
     obind (wake_waker c (partner h, relay_task) nd) (\<lambda>nd. Some (Inr (StillPending (), nd))))\<rparr>"

definition relay_tasks :: "bool \<Rightarrow> bool \<Rightarrow> unit fut task_set" where
  "relay_tasks present signalled =
     \<lparr>ts_slots = [Some \<lparr>slot_future = (if present then Some (UserFut ()) else None), slot_generation = 1, slot_request = None, slot_source = 0\<rparr>],
      ts_signals = (\<lambda>_. False)(1 := signalled), ts_next_generation = 1, ts_count = 1\<rparr>"

definition relay_mailbox :: "bool \<Rightarrow> mbstate \<Rightarrow> unit message mailbox" where
  "relay_mailbox ready st = new_mailbox\<lparr>mb_state := st, mb_ready := (if ready then [relay_task] else []), mb_streak := READY_BURST\<rparr>"

definition relay_svc :: "unit fut task_set \<Rightarrow> unit message mailbox \<Rightarrow> (unit, unit) service" where
  "relay_svc ts mb = (plain_service False [])\<lparr>sv_tasks := ts, sv_mailbox := mb\<rparr>"

definition relay_node :: "u64 scheduler \<Rightarrow> (u64 \<Rightarrow> (unit, unit) service option) \<Rightarrow> (unit, unit, unit) node" where
  "relay_node sd svcs =
     (new_node sd Map.empty (0, 0) ())\<lparr>
       nd_handles := \<lparr>hs_slots = [None, Some (bare 1), Some (bare 2), None], hs_names = [], hs_next = 3\<rparr>,
       nd_svcs := svcs, nd_total := 2\<rparr>"

definition main_thread :: caller where
  "main_thread = \<lparr>by_worker = None, by_service = None\<rparr>"

text \<open>The scheduler once the workers have gone.\<close>

definition deserted :: "u64 scheduler \<Rightarrow> bool" where
  "deserted sd = (sd_quit sd \<and> sd_searching sd = 0 \<and> claim_words 0 (sd_idle sd) = None)"

lemma partner_simps [simp]: "partner 1 = 2" "partner 2 = 1" by (simp_all add: partner_def)

lemma relay_node_simps [simp]:
  "nd_svcs (relay_node sd svcs) = svcs" "nd_sched (relay_node sd svcs) = sd"
  "upd_svc h g (relay_node sd svcs) = relay_node sd (svcs(h := map_option g (svcs h)))"
  "(relay_node sd svcs)\<lparr>nd_sched := sd'\<rparr> = relay_node sd' svcs"
  by (simp_all add: relay_node_def new_node_def upd_svc_def)

lemma relay_svc_simps [simp]:
  "sv_tasks (relay_svc ts mb) = ts" "sv_mailbox (relay_svc ts mb) = mb" "sv_dead (relay_svc ts mb) = False"
  "sv_lifecycle (relay_svc ts mb) = Running" "sv_pending (relay_svc ts mb) = None" "code_exclusive (sv_code (relay_svc ts mb)) = False"
  "(relay_svc ts mb)\<lparr>sv_tasks := ts'\<rparr> = relay_svc ts' mb" "(relay_svc ts mb)\<lparr>sv_mailbox := mb'\<rparr> = relay_svc ts mb'"
  by (simp_all add: relay_svc_def plain_service_def new_service_ctx_def plain_code_def)

lemma relay_mailbox_simps:
  "push_ready relay_task (relay_mailbox False IDLE) = (True, relay_mailbox True QUEUED)"
  "mark_queued (relay_mailbox r st) = relay_mailbox r QUEUED" "mark_running (relay_mailbox r st) = relay_mailbox r RUNNING"
  "take_work (relay_mailbox True RUNNING) = Some (Inr (Some (WReady relay_task), relay_mailbox False RUNNING))"
  "take_work (relay_mailbox False RUNNING) = Some (Inr (None, relay_mailbox False IDLE))"
  by (simp_all add: relay_mailbox_def new_mailbox_def push_ready_def notify_def mark_queued_def mark_running_def take_work.simps)

lemma relay_tasks_simps:
  "take_task relay_task (relay_tasks True True) = (Some (UserFut (), 0), relay_tasks False False)"
  "wake_by_ref relay_task (relay_tasks True False) = (True, relay_tasks True True)"
  "restore_task relay_task (UserFut ()) (relay_tasks False False) = relay_tasks True False"
  by (simp_all add: relay_tasks_def relay_task_def take_task_def wake_by_ref_def restore_task_def slab_get_def)

abbreviation awake :: "mbstate \<Rightarrow> (unit, unit) service" where
  "awake st \<equiv> relay_svc (relay_tasks True True) (relay_mailbox True st)"

abbreviation asleep :: "(unit, unit) service" where
  "asleep \<equiv> relay_svc (relay_tasks True False) (relay_mailbox False IDLE)"

lemma deserted_push:
  assumes "deserted sd"
  shows "sched_push None h sd = Some (Inr (sd\<lparr>sd_pending := sd_pending sd + 1, sd_injector := sd_injector sd @ [h]\<rparr>))"
  using assms by (simp add: sched_push_def deserted_def claim_idle_def wake_one_def place_def Let_def)

text \<open>The poll of the one wakes the other.\<close>

lemma relay_wakes:
  assumes "deserted sd" "by_worker c = None" "svcs h = Some asleep"
  shows "wake_waker c (h, relay_task) (relay_node sd svcs) =
    Some (Inr (relay_node (sd\<lparr>sd_pending := sd_pending sd + 1, sd_injector := sd_injector sd @ [h]\<rparr>) (svcs(h \<mapsto> awake QUEUED))))"
  using assms
  by (simp add: wake_waker_def relay_tasks_simps wake_task_def mailbox_op_def relay_mailbox_simps wake_svc_def enqueue_def
      deserted_push Let_def)

lemma relay_poll:
  assumes "deserted sd" "by_worker c = None" "svcs h = Some (relay_svc (relay_tasks True True) mb)" "svcs (partner h) = Some asleep" "partner h \<noteq> h"
  shows "poll_task relay_env c h relay_task (relay_node sd svcs) =
    Some (Inr (relay_node (sd\<lparr>sd_pending := sd_pending sd + 1, sd_injector := sd_injector sd @ [partner h]\<rparr>)
      (svcs(h \<mapsto> relay_svc (relay_tasks True False) mb, partner h \<mapsto> awake QUEUED))))"
  using assms
  by (simp add: poll_task_def relay_tasks_simps relay_env_def enter_def relay_wakes Let_def fun_upd_twist)

text \<open>A whole run of the one ends with the one asleep and the other in the injector.\<close>

lemma relay_run:
  assumes d: "deserted sd" "by_worker c = None" and s: "svcs h = Some (awake RUNNING)" "svcs (partner h) = Some asleep" "partner h \<noteq> h"
  shows "run_service relay_env c h True (relay_node sd svcs) =
    Some (Inr (RanIdle, relay_node (sd\<lparr>sd_pending := sd_pending sd + 1, sd_injector := sd_injector sd @ [partner h]\<rparr>)
      (svcs(h \<mapsto> asleep, partner h \<mapsto> awake QUEUED))))"
proof -
  let ?sd = "sd\<lparr>sd_pending := sd_pending sd + 1, sd_injector := sd_injector sd @ [partner h]\<rparr>"
  let ?svcs = "svcs(h \<mapsto> relay_svc (relay_tasks True False) (relay_mailbox False RUNNING), partner h \<mapsto> awake QUEUED)"
  have c: "by_worker (enter c h) = None" using d(2) by (simp add: enter_def)
  have 1: "run_turn relay_env (enter c h) h (relay_node sd svcs) = Some (Inr (TurnMailbox, relay_node ?sd ?svcs))"
    using relay_poll [OF d(1) c, of "svcs(h \<mapsto> relay_svc (relay_tasks True True) (relay_mailbox False RUNNING))" h] s
    by (simp add: run_turn_def take_pending_def svc_take_work_def relay_mailbox_simps run_taken_def run_work_def)
  have 2: "run_turn relay_env (enter c h) h (relay_node ?sd ?svcs) =
      Some (Inr (TurnEmpty, relay_node ?sd (svcs(h \<mapsto> asleep, partner h \<mapsto> awake QUEUED))))"
    using s by (simp add: run_turn_def take_pending_def svc_take_work_def relay_mailbox_simps fun_upd_twist)
  have "run_loop relay_env (enter c h) h True 1 (relay_node ?sd ?svcs) =
      Some (Inr (RanIdle, relay_node ?sd (svcs(h \<mapsto> asleep, partner h \<mapsto> awake QUEUED))))"
    by (subst run_loop.simps) (simp add: 2)
  then have "run_loop relay_env (enter c h) h True 0 (relay_node sd svcs) =
      Some (Inr (RanIdle, relay_node ?sd (svcs(h \<mapsto> asleep, partner h \<mapsto> awake QUEUED))))"
    using s by (subst run_loop.simps) (simp add: 1 is_dead_svc_def YIELD_INTERVAL_def)
  then show ?thesis using s by (simp add: run_service_def is_dead_svc_def)
qed

lemma relay_dispatch:
  assumes d: "deserted sd" "sd_injector sd = []" "by_worker c = None"
    and s: "svcs h = Some (awake RUNNING)" "svcs (partner h) = Some asleep" "partner h \<noteq> h"
  shows "dispatch_step relay_env c (Some h) (relay_node sd svcs) =
    Some (Inr (\<lparr>dr_next = Some (partner h), dr_yielded = None\<rparr>, relay_node sd (svcs(h \<mapsto> asleep, partner h \<mapsto> awake RUNNING))))"
proof -
  have u: "sd\<lparr>sd_injector := []\<rparr> = sd" using d(2) by simp
  show ?thesis
    using relay_run [OF d(1,3) s] d s
    by (simp add: u dispatch_step_def dispatch_held_def is_dead_svc_def dequeue_def pop_runnable_def pop_injector_def relay_mailbox_simps Let_def)
qed

text \<open>So the draining thread goes back and forth for ever.\<close>

lemma relay_drain:
  assumes "drain_rounds e c hold budgets nd = Some y" and "e = relay_env" "by_worker c = None" "budgets = Map.empty"
    and "nd = relay_node sd svcs" "deserted sd" "sd_injector sd = []"
    and "hold = Some h" "h \<in> {1, 2}" "svcs h = Some (awake RUNNING)" "svcs (partner h) = Some asleep"
  shows False
  using assms
proof (induction arbitrary: svcs h rule: drain_rounds.raw_induct [rotated, consumes 1, case_names step])
  case (step f e c hold budgets nd y)
  let ?svcs = "svcs(h \<mapsto> asleep, partner h \<mapsto> awake RUNNING)"
  have p: "partner h \<noteq> h" "partner h \<in> {1, 2}" "partner (partner h) = h" using step(10) by auto
  have "drain_round e c hold budgets nd = Some (Inr (\<lparr>dr_next = Some (partner h), dr_yielded = None\<rparr>, budgets, relay_node sd ?svcs))"
    using relay_dispatch [OF step(7,8,4) step(11,12) p(1)] step(3,6,9) by (simp add: drain_round_def drain_charge_def)
  then have "f e c (Some (partner h)) budgets (relay_node sd ?svcs) = Some y" using step(2) by simp
  moreover have "?svcs (partner h) = Some (awake RUNNING)" "?svcs (partner (partner h)) = Some asleep" using p by simp_all
  ultimately show ?case using step(1) [OF _ step(3,4,5) refl step(7,8) refl p(2)] by blast
qed

definition first_awake :: "u64 \<Rightarrow> (unit, unit) service option" where
  "first_awake = [1 \<mapsto> awake QUEUED, 2 \<mapsto> asleep]"

lemma relay_first:
  assumes "deserted sd" "sd_injector sd = [1]"
  shows "drain_round relay_env main_thread None Map.empty (relay_node sd first_awake) =
    Some (Inr (\<lparr>dr_next = Some 2, dr_yielded = None\<rparr>, Map.empty,
      relay_node (sd\<lparr>sd_injector := [], sd_pending := sd_pending sd - 1\<rparr>) (first_awake(1 \<mapsto> asleep, 2 \<mapsto> awake RUNNING))))"
proof -
  let ?sd = "sd\<lparr>sd_injector := [], sd_pending := sd_pending sd - 1\<rparr>"
  let ?svcs = "first_awake(1 \<mapsto> awake RUNNING)"
  have "dispatch_step relay_env main_thread None (relay_node sd first_awake) = dispatch_step relay_env main_thread (Some 1) (relay_node ?sd ?svcs)"
    using assms(2) by (simp add: dispatch_step_def dequeue_def main_thread_def pop_runnable_def pop_injector_def first_awake_def relay_mailbox_simps)
  also have "\<dots> = Some (Inr (\<lparr>dr_next = Some 2, dr_yielded = None\<rparr>, relay_node ?sd (first_awake(1 \<mapsto> asleep, 2 \<mapsto> awake RUNNING))))"
    using relay_dispatch [of ?sd main_thread ?svcs 1] assms(1) by (simp add: deserted_def main_thread_def first_awake_def)
  finally show ?thesis by (simp add: drain_round_def drain_charge_def)
qed

lemma relay_diverges:
  assumes "deserted sd" "sd_injector sd = [1]"
  shows "drain_node relay_env main_thread (relay_node sd first_awake) = None"
proof -
  let ?sd = "sd\<lparr>sd_injector := [], sd_pending := sd_pending sd - 1\<rparr>"
  let ?nd = "relay_node ?sd (first_awake(1 \<mapsto> asleep, 2 \<mapsto> awake RUNNING))"
  have "drain_node relay_env main_thread (relay_node sd first_awake) = drain_rounds relay_env main_thread (Some 2) Map.empty ?nd"
    unfolding drain_node_def by (subst drain_rounds.simps) (simp add: relay_first [OF assms])
  moreover have "drain_rounds relay_env main_thread (Some 2) Map.empty ?nd \<noteq> Some y" for y
  proof
    assume "drain_rounds relay_env main_thread (Some 2) Map.empty ?nd = Some y"
    then show False
      by (rule relay_drain [OF _ refl _ refl refl _ _ refl]) (use assms(1) in \<open>simp_all add: main_thread_def deserted_def\<close>)
  qed
  ultimately show ?thesis by (metis not_Some_eq)
qed

lemma relay_node_inv: "node_inv (relay_node sd first_awake)" "registered (relay_node sd first_awake) = {1, 2}"
proof -
  let ?hs = "\<lparr>hs_slots = [None, Some (bare 1), Some (bare 2), None], hs_names = [], hs_next = 3\<rparr> :: unit handle_storage"
  have slots: "slot_of 1 4 = 1" "slot_of 2 4 = 2" by code_simp+
  have pow: "\<exists>k \<in> {2..31}. (4 :: nat) = 2 ^ k" by (intro bexI [of _ 2]) auto
  have st: "storage_inv ?hs"
  proof -
    have "slot_of (ctx_handle c) 4 = i \<and> ctx_handle c < 3" if "i < 4" "hs_slots ?hs ! i = Some c" for i c
    proof -
      have "i = 0 \<or> i = 1 \<or> i = 2 \<or> i = 3" using that(1) by arith
      then show ?thesis using that(2) slots by auto
    qed
    moreover have "length (hs_slots ?hs) = 4" by simp
    ultimately have "slots_ok (hs_slots ?hs) (hs_next ?hs)" unfolding slots_ok_def using pow by (simp only: handle_storage.simps) blast
    then show ?thesis by (simp add: storage_inv_def bt_wf_def)
  qed
  have iff: "grab ?hs h = Some c \<longleftrightarrow> c \<in> {bare 1, bare 2} \<and> ctx_handle c = h" for c h
    using grab_iff [OF storage_slots_ok [OF st], of h c] by (simp add: contexts_def List.map_filter_def)
  have g: "(\<exists>c. grab ?hs h = Some c) \<longleftrightarrow> h = 1 \<or> h = 2" for h
    by (simp only: iff insert_iff empty_iff conj_disj_distribR ex_disj_distrib) auto
  have "counted_svcs (relay_node sd first_awake) = {1, 2}"
    by (auto simp: counted_svcs_def first_awake_def relay_svc_def plain_service_def new_service_ctx_def)
  then show "node_inv (relay_node sd first_awake)"
    using st g by (auto simp: node_inv_def first_awake_def relay_node_def relay_svc_def plain_service_def new_service_ctx_def new_node_def)
  show "registered (relay_node sd first_awake) = {1, 2}"
    using g by (auto simp: registered_def relay_node_def)
qed

lemma relay_env_ok: "user_code_ok relay_env"
  by (auto simp: user_code_ok_def relay_env_def idle_env_def obind_eq intro!: r_into_rtranclp api_step.wake)

section \<open>Properties\<close>



text \<open>
  C39: No service holds up the draining for ever on its own: however long the draining has run, each service has
  yielded at most \<^verbatim>\<open>DRAIN_BUDGET\<close> times, and one that has yielded that often is dead.
\<close>

theorem drain_budget_holds:
  assumes "user_code_ok e" and "node_inv nd0" and "drain_reach e c nd0 ys hold budgets nd"
  shows "count_list ys h \<le> DRAIN_BUDGET \<and> (count_list ys h = DRAIN_BUDGET \<longrightarrow> is_dead_svc h nd)"
proof -
  have "charged ys budgets nd h" using drain_reach_charged [OF assms] by blast
  then show ?thesis by (auto simp: charged_def)
qed

theorem drain_budget_holds_witness:
  "\<exists>nd0 nd. node_inv nd0 \<and> drain_reach relay_env main_thread nd0 [] (Some 2) Map.empty nd \<and> count_list [] (2 :: u64) \<le> DRAIN_BUDGET"
proof -
  obtain sd0 :: "u64 scheduler" where "new_scheduler 1 = Some (Inr sd0)" using new_scheduler_ok by blast
  then have i: "sd_searching sd0 = 0" "sd_idle sd0 = [0]" by (auto simp: new_scheduler_def obind_eq Let_def)
  define sd where "sd = sd0\<lparr>sd_quit := True, sd_injector := [1], sd_pending := 1\<rparr>"
  have d: "deserted sd" "sd_injector sd = [1]" using i by (simp_all add: sd_def deserted_def claim_words_None del: claim_words.simps)
  obtain nd where "drain_reach relay_env main_thread (relay_node sd first_awake) [] (Some 2) Map.empty nd"
    using drain_reach.round [OF drain_reach.start relay_first [OF d]] by (auto simp: drain_round_def)
  then show ?thesis using drain_budget_holds [OF relay_env_ok relay_node_inv(1)] relay_node_inv(1) by blast
qed

text \<open>
  C40: The budget of the draining does not cover services that keep each other busy: there are two services, each
  with one pending task that on every poll wakes the task of the other one, such that the first draining of the
  shutdown never ends, because neither of them ever yields.
\<close>

theorem drain_may_never_end:
  "\<exists>(e :: (unit, unit, unit) env) nd. user_code_ok e \<and> node_inv nd \<and> sd_quit (nd_sched nd) \<and> registered nd = {1, 2} \<and>
     (\<forall>join. shutdown e main_thread join nd = None)"
proof -
  obtain sd0 :: "u64 scheduler" where "new_scheduler 1 = Some (Inr sd0)" using new_scheduler_ok by blast
  then have i: "sd_searching sd0 = 0" "sd_idle sd0 = [0]" by (auto simp: new_scheduler_def obind_eq Let_def)
  define sd where "sd = sd0\<lparr>sd_quit := True, sd_injector := [1], sd_pending := 1\<rparr>"
  have d: "deserted sd" "sd_injector sd = [1]" using i by (simp_all add: sd_def deserted_def claim_words_None del: claim_words.simps)
  have "shutdown relay_env main_thread join (relay_node sd first_awake) = None" for join
    using relay_diverges [OF d] by (simp add: shutdown_def)
  then show ?thesis
    using relay_env_ok relay_node_inv [of sd] d(1) by (intro exI [of _ relay_env] exI [of _ "relay_node sd first_awake"]) (simp add: deserted_def)
qed

end
