(* ===== verification/Spec2Isabelle.thy ===== *)
theory Spec2Isabelle
  imports Handle Message Session Task Mailbox Mailbox_Threads Wheel Timer Bwos Scheduler Wakeup Service Node Context
    Lifecycle Requests Cluster_Runs Shutdown
begin

text \<open>
  Verification development of rskynet, an actor runtime for Rust in the style of skynet.

  \<^bold>\<open>The program.\<close>  A node hosts services.  A service has a handle, a mailbox, a set of tasks (suspended
  coroutines) and a table of sessions (calls waiting for an answer); its state is touched by one thread at a
  time.  Senders push messages to the mailbox and, when the service was idle, queue the service on the scheduler;
  worker threads take services from the run queues and run them; a service of the exclusive kind has a thread of
  its own.  A timer service turns time into messages, a monitor reports polls that do not end, and further
  services (cluster, network) sit on top of the same interface.  All paths below are relative to
  \<^verbatim>\<open>src/crates\<close>.

  \<^bold>\<open>Conventions.\<close>  \<^verbatim>\<open>Prelude\<close> fixes them.  A struct is a record, an enum a datatype.  Integers whose width
  matters are words; sizes of collections are natural numbers.  A panic is a value (\<^verbatim>\<open>'a outcome = panic + 'a\<close>),
  an error of the program a value of \<^verbatim>\<open>error + 'a\<close>.  A call that may not return is of type
  \<^verbatim>\<open>'a outcome option\<close>, where \<^verbatim>\<open>None\<close> means that it does not return; loops without an evident bound are
  \<^verbatim>\<open>partial_function (option)\<close>, so no fuel occurs in the development, and where a property says that a
  call returns, it says so explicitly.  Operations that other threads can interleave with are step relations at the
  granularity of single atomic operations (\<^verbatim>\<open>Mailbox_Threads\<close>, \<^verbatim>\<open>Wakeup\<close>, \<^verbatim>\<open>Monitor\<close>) under sequential
  consistency; the operations of a service on its own state are functions.  Code supplied by users of the library
  (services, handlers, futures) is a parameter that can do whatever the interface of \<^verbatim>\<open>Context\<close> offers.

  \<^bold>\<open>The kernel, \<^verbatim>\<open>rskynet-core/src\<close>.\<close>
  \<^item> \<^verbatim>\<open>Tables\<close>: the contract shared by the tables that issue identifiers, with traces of insertions and removals;
    interpreted on the handle registry, the session table and the task set.
  \<^item> \<^verbatim>\<open>Handle\<close> (\<^verbatim>\<open>handle.rs\<close>): the registry of handles, open addressing with growth, and the table of names.
    A registration gets a handle that was never issued before, and names point to live services.
  \<^item> \<^verbatim>\<open>Message\<close> (\<^verbatim>\<open>message.rs\<close>, \<^verbatim>\<open>error.rs\<close>): message types, payloads, addresses; an address survives
    being printed and parsed.
  \<^item> \<^verbatim>\<open>Session\<close> (\<^verbatim>\<open>session.rs\<close>): a session is issued in finitely many attempts, receives the first answer and
    no other, and is dead afterwards.
  \<^item> \<^verbatim>\<open>Task\<close> (\<^verbatim>\<open>task.rs\<close>): the slab of tasks with generation counters, and the cell that guards the state of
    a service.
  \<^item> \<^verbatim>\<open>Mailbox\<close>, \<^verbatim>\<open>Mailbox_Threads\<close> (first half of \<^verbatim>\<open>mq.rs\<close>): the mailbox as functions, and under any
    interleaving of producers, workers and cleaners.  No two threads run a service at once; messages are taken in
    order and once; when all threads are at rest nothing is left behind.
  \<^item> \<^verbatim>\<open>Bwos\<close> (\<^verbatim>\<open>bwos.rs\<close>, \<^verbatim>\<open>handoff.rs\<close>): the block-based work-stealing queue is a deque.
  \<^item> \<^verbatim>\<open>Scheduler\<close>, \<^verbatim>\<open>Wakeup\<close> (second half of \<^verbatim>\<open>mq.rs\<close>): the run queues lose and duplicate no service;
    the protocol by which workers go to sleep misses no wake-up.
  \<^item> \<^verbatim>\<open>Service\<close>, \<^verbatim>\<open>Node\<close>, \<^verbatim>\<open>Context\<close> (\<^verbatim>\<open>server.rs\<close>, \<^verbatim>\<open>exclusive.rs\<close>, \<^verbatim>\<open>context.rs\<close>, \<^verbatim>\<open>ext.rs\<close>,
    \<^verbatim>\<open>clock.rs\<close>): services and nodes, the run of a service by a worker, creation, exit and destruction, and
    what user code can call.
  \<^item> \<^verbatim>\<open>Lifecycle\<close>, \<^verbatim>\<open>Requests\<close>: the node as a whole.  The count of live services is exact; a retired handle is
    out of reach; no service is created after the node quits; the destruction of a service answers every
    request it still owes.
  \<^item> \<^verbatim>\<open>Monitor\<close> (\<^verbatim>\<open>monitor.rs\<close>): reports of the monitor name polls that are really stuck, and every such poll
    is reported.
  \<^item> \<^verbatim>\<open>Module\<close> (\<^verbatim>\<open>module.rs\<close>): the registry of service types does not depend on link order.
  \<^item> \<^verbatim>\<open>Start\<close>, \<^verbatim>\<open>Shutdown\<close> (\<^verbatim>\<open>start.rs\<close>): configuration, boot, the loops of the threads, draining and
    shutdown; after shutdown no service is left, and the bound on draining holds for services that are taken but
    not for those that keep waking each other.

  \<^bold>\<open>Timer, \<^verbatim>\<open>rskynet-timer/src\<close>.\<close>  \<^verbatim>\<open>Wheel\<close> (\<^verbatim>\<open>wheel.rs\<close>) and \<^verbatim>\<open>Timer\<close> (\<^verbatim>\<open>lib.rs\<close>, \<^verbatim>\<open>service.rs\<close>):
  the hierarchical wheel refines the set of pending events, and a timeout fires on time.

  \<^bold>\<open>Cluster, \<^verbatim>\<open>rskynet-cluster/src\<close>.\<close>  \<^verbatim>\<open>Wire\<close> (\<^verbatim>\<open>wire.rs\<close>), \<^verbatim>\<open>Socket_Event\<close> (\<^verbatim>\<open>rskynet-net/src/event.rs\<close>),
  \<^verbatim>\<open>Cluster\<close> and \<^verbatim>\<open>Cluster_Runs\<close> (\<^verbatim>\<open>lib.rs\<close>): frames survive fragmentation; over every run a command is
  answered once; connected nodes are who they say; simultaneous connections are resolved alike on both ends.

  \<^bold>\<open>Not modelled.\<close>  Weak memory orderings (the step relations are sequentially consistent; the \<^verbatim>\<open>loom_*\<close> files of
  the kernel test them separately).  Payload conversion by type identity (\<^verbatim>\<open>payload.rs\<close>), JSON schemas and debug
  messages (\<^verbatim>\<open>schema.rs\<close>, \<^verbatim>\<open>debug.rs\<close>): reflection over Rust types with no state of their own.  The procedural
  macros (\<^verbatim>\<open>rskynet-macros\<close>): they transform syntax trees of the host language.  The services over third-party
  protocol engines (\<^verbatim>\<open>rskynet-http\<close>, \<^verbatim>\<open>rskynet-quic\<close>, \<^verbatim>\<open>rskynet-tls\<close>, \<^verbatim>\<open>rskynet-dashboard\<close>): their
  state machines live in hyper, quinn and rustls.  Files, signals and process start
  (\<^verbatim>\<open>rskynet-logger\<close>, \<^verbatim>\<open>rskynet-signal\<close>, \<^verbatim>\<open>rskynet-bootstrap\<close>, the facade \<^verbatim>\<open>rskynet\<close>): input and output.
\<close>

end
